(* ===== verification/BRM_Prelude.thy ===== *)
theory BRM_Prelude
  imports Main "HOL-Library.Multiset"
begin

text \<open>
  Shared vocabulary of the development: the scalar types of \<^verbatim>\<open>brmtypes.h\<close>, the exceptions a
  BRM routine can leave with, the outcome type of a routine that changes state (an exception
  leaves the state as it is at the throw, so the state is always returned), and the list facts
  the component theories use.
\<close>

section \<open>Scalars, exceptions and outcomes\<close>

type_synonym LBID_t = int
type_synonym VER_t = int
type_synonym OID_t = int

text \<open>
  \<open>Undefined\<close> is not an exception of the source: it stands for a run that C++ gives no meaning
  to (a read or write outside an array or an unmapped segment, a list walk that never ends).
\<close>

datatype brm_error =
    LogicError
  | InvalidArgument
  | RuntimeError
  | IosFailure
  | VBBMBufferOverFlowExcept
  | AssertFailed
  | Undefined

type_synonym ('s, 'a) outcome = "'s \<times> (brm_error + 'a)"

definition and_then :: "('s, 'a) outcome \<Rightarrow> ('a \<Rightarrow> 's \<Rightarrow> ('s, 'b) outcome) \<Rightarrow> ('s, 'b) outcome" where
  "and_then m f = (case m of (s, Inl e) \<Rightarrow> (s, Inl e) | (s, Inr a) \<Rightarrow> f a s)"

text \<open>The result of a routine that may have to sleep on a condition variable.\<close>

datatype 'a waiting = Waits | Returns 'a

definition ok :: "('s, 'a) outcome \<Rightarrow> bool" where
  "ok m = (case snd m of Inl e \<Rightarrow> False | Inr a \<Rightarrow> True)"

lemma and_then_simps [simp]:
  "and_then (s, Inl e) f = (s, Inl e)"
  "and_then (s, Inr a) f = f a s"
  by (simp_all add: and_then_def)

lemma ok_simps [simp]: "ok (s, Inr a)" "\<not> ok (s, Inl e)"
  by (simp_all add: ok_def)

lemma and_then_Inr_conv:
  "and_then m f = (t, Inr b) \<longleftrightarrow> (\<exists>s a. m = (s, Inr a) \<and> f a s = (t, Inr b))"
  by (cases m) (auto simp: and_then_def split: sum.splits)

section \<open>Lists\<close>

named_theorems list_upd_simps

lemma nth_upd: "j < length xs \<Longrightarrow> xs[i := x] ! j = (if i = j then x else xs ! j)"
  by auto

lemma filter_upd_length:
  assumes "i < length xs"
  shows "length (filter P (xs[i := x])) + (if P (xs ! i) then 1 else 0)
       = length (filter P xs) + (if P x then 1 else 0)"
  using assms
proof (induction xs arbitrary: i)
  case (Cons y ys)
  then show ?case by (cases i) auto
qed simp

lemma filter_upd_same [list_upd_simps]:
  assumes "i < length xs" "P x = P (xs ! i)"
  shows "length (filter P (xs[i := x])) = length (filter P xs)"
  using filter_upd_length [OF assms(1), of P x] assms(2) by (simp split: if_splits)

lemma filter_upd_add [list_upd_simps]:
  assumes "i < length xs" "P x" "\<not> P (xs ! i)"
  shows "length (filter P (xs[i := x])) = Suc (length (filter P xs))"
  using filter_upd_length [OF assms(1), of P x] assms(2,3) by simp

lemma filter_upd_del:
  assumes "i < length xs" "\<not> P x" "P (xs ! i)"
  shows "length (filter P xs) = Suc (length (filter P (xs[i := x])))"
  using filter_upd_length [OF assms(1), of P x] assms(2,3) by simp

lemma filter_mset_upd:
  assumes "i < length xs"
  shows "filter_mset P (mset (xs[i := x])) =
    filter_mset P (mset xs) - (if P (xs ! i) then {#xs ! i#} else {#}) + (if P x then {#x#} else {#})"
  using assms
proof (induction xs arbitrary: i)
  case (Cons y ys)
  show ?case
  proof (cases i)
    case 0
    then show ?thesis by simp
  next
    case (Suc j)
    with Cons.prems have j: "j < length ys" by simp
    then have "P (ys ! j) \<Longrightarrow> ys ! j \<in># filter_mset P (mset ys)" by simp
    with Cons.IH [OF j] Suc show ?thesis by auto
  qed
qed simp

lemma filter_hole:
  assumes "length (filter P xs) < length xs" and "\<And>i. i < n \<Longrightarrow> i < length xs \<Longrightarrow> P (xs ! i)"
  shows "\<exists>i. n \<le> i \<and> i < length xs \<and> \<not> P (xs ! i)"
proof (rule ccontr)
  assume "\<not> ?thesis"
  with assms(2) have "\<forall>x \<in> set xs. P x"
    by (metis in_set_conv_nth leI)
  then have "filter P xs = xs" by simp
  with assms(1) show False by simp
qed

lemma filter_conv_nth:
  "filter P xs = map ((!) xs) (filter (\<lambda>i. P (xs ! i)) [0..<length xs])"
proof -
  have "filter P (map ((!) xs) [0..<length xs]) = map ((!) xs) (filter (\<lambda>i. P (xs ! i)) [0..<length xs])"
    by (simp only: filter_map comp_def)
  then show ?thesis by (simp only: map_nth)
qed

lemma filter_full:
  assumes "length (filter P xs) = length xs" "i < length xs"
  shows "P (xs ! i)"
  using assms by (metis filter_True length_filter_less nth_mem less_irrefl)

end
