(* ===== verification/Chained_Table.thy ===== *)
theory Chained_Table
  imports BRM_Prelude
begin

text \<open>
  What \<^verbatim>\<open>VSS\<close> and \<^verbatim>\<open>VBBM\<close> share: a bucket array of list heads and a storage array whose used
  elements (\<^verbatim>\<open>lbid != -1\<close>) are linked through \<^verbatim>\<open>next\<close>, with \<open>-1\<close> as the end of a list. The
  theory has the loop form both files use to walk a list, the relational description of a list in
  storage (\<open>chain\<close>), and the locale \<open>hashed_table\<close> of tables whose lists hold exactly the used
  elements with the bucket's hash; its lemmas are the pointer surgery of insertion and removal.
\<close>

section \<open>Entries and list walks\<close>

record table_entry =
  lbid :: LBID_t
  verID :: VER_t
  next_ix :: int

definition used :: "'e table_entry_scheme \<Rightarrow> bool" where
  "used e = (lbid e \<noteq> -1)"

text \<open>
  \<^verbatim>\<open>for (i = head; i != -1; i = storage[i].next) body\<close>: the body gets the index, the element and
  the loop's variables and either returns from the enclosing function (\<open>Inl\<close>) or goes on. \<open>None\<close>
  is a walk that leaves the array or does not end within \<open>fuel\<close> elements.
\<close>

fun chain_walk :: "nat \<Rightarrow> 'e table_entry_scheme list \<Rightarrow>
    (int \<Rightarrow> 'e table_entry_scheme \<Rightarrow> 'a \<Rightarrow> 'r + 'a) \<Rightarrow> int \<Rightarrow> 'a \<Rightarrow> ('r + 'a) option" where
  "chain_walk 0 st body i acc = None"
| "chain_walk (Suc fuel) st body i acc =
     (if i = -1 then Some (Inr acc)
      else if i < 0 \<or> length st \<le> nat i then None
      else case body i (st ! nat i) acc of
             Inl r \<Rightarrow> Some (Inl r)
           | Inr acc' \<Rightarrow> chain_walk fuel st body (next_ix (st ! nat i)) acc')"

text \<open>\<^verbatim>\<open>while (storage[i].lbid != -1) i++;\<close>\<close>

function find_empty :: "'e table_entry_scheme list \<Rightarrow> nat \<Rightarrow> nat option" where
  "find_empty st i =
     (if length st \<le> i then None
      else if used (st ! i) then find_empty st (Suc i) else Some i)"
  by pat_completeness auto
termination
  by (relation "measure (\<lambda>(st, i). length st - i)") auto

declare find_empty.simps [simp del]

lemma find_empty_Some:
  "find_empty st i = Some j \<Longrightarrow>
     i \<le> j \<and> j < length st \<and> \<not> used (st ! j) \<and> (\<forall>k. i \<le> k \<and> k < j \<longrightarrow> used (st ! k))"
proof (induction st i rule: find_empty.induct)
  case (1 st i)
  show ?case
  proof (cases "i < length st \<and> used (st ! i)")
    case True
    with "1.prems" have "find_empty st (Suc i) = Some j"
      by (simp add: find_empty.simps [of st i])
    with True "1.IH" have "Suc i \<le> j \<and> j < length st \<and> \<not> used (st ! j)
        \<and> (\<forall>k. Suc i \<le> k \<and> k < j \<longrightarrow> used (st ! k))" by simp
    with True show ?thesis by (auto dest: Suc_leD) (metis Suc_leI le_neq_implies_less)
  next
    case False
    with "1.prems" show ?thesis
      by (auto simp: find_empty.simps [of st i] split: if_splits)
  qed
qed

lemma find_empty_exists:
  "i \<le> k \<Longrightarrow> k < length st \<Longrightarrow> \<not> used (st ! k) \<Longrightarrow> \<exists>j. find_empty st i = Some j"
proof (induction st i rule: find_empty.induct)
  case (1 st i)
  then show ?case
    by (cases "i = k") (auto simp: find_empty.simps [of st i] find_empty.simps [of st k])
qed

section \<open>Lists in storage\<close>

primrec chain :: "'e table_entry_scheme list \<Rightarrow> int \<Rightarrow> nat list \<Rightarrow> bool" where
  "chain st p [] = (p = -1)"
| "chain st p (x # xs) = (p = int x \<and> x < length st \<and> chain st (next_ix (st ! x)) xs)"

lemma chain_end [simp]: "chain st (-1) xs = (xs = [])"
  by (cases xs) auto

lemma chain_unique: "chain st p xs \<Longrightarrow> chain st p ys \<Longrightarrow> xs = ys"
proof (induction xs arbitrary: p ys)
  case (Cons x xs)
  then show ?case by (cases ys) auto
qed simp

lemma chain_in_range: "chain st p xs \<Longrightarrow> x \<in> set xs \<Longrightarrow> x < length st"
  by (induction xs arbitrary: p) auto

lemma chain_suffix: "chain st p (ys @ x # zs) \<Longrightarrow> chain st (int x) (x # zs)"
  by (induction ys arbitrary: p) auto

lemma chain_distinct: "chain st p xs \<Longrightarrow> distinct xs"
proof (induction xs arbitrary: p)
  case (Cons x xs)
  have "x \<notin> set xs"
  proof
    assume "x \<in> set xs"
    then obtain ys zs where xs: "xs = ys @ x # zs"
      by (auto simp: in_set_conv_decomp)
    from Cons.prems have c: "chain st (int x) (x # xs)" by simp
    with xs have "chain st (int x) ((x # ys) @ x # zs)" by simp
    then have "chain st (int x) (x # zs)" by (rule chain_suffix)
    then have "x # zs = x # xs" using c by (rule chain_unique)
    with xs show False by simp
  qed
  with Cons show ?case by auto
qed simp

lemma chain_length: "chain st p xs \<Longrightarrow> length xs \<le> length st"
proof -
  assume c: "chain st p xs"
  then have "set xs \<subseteq> {..<length st}" by (auto dest: chain_in_range)
  from card_mono [OF _ this] chain_distinct [OF c] show ?thesis
    by (simp add: distinct_card)
qed

lemma chain_update_other [simp]:
  "i \<notin> set xs \<Longrightarrow> chain (st[i := e]) p xs = chain st p xs"
  by (induction xs arbitrary: p) auto

lemma chain_update_next:
  assumes "next_ix e = next_ix (st ! i)"
  shows "chain (st[i := e]) p xs = chain st p xs"
proof -
  have "next_ix (st[i := e] ! x) = next_ix (st ! x)" if "x < length st" for x
    using assms that by (cases "x = i") simp_all
  then show ?thesis by (induction xs arbitrary: p) (simp_all cong: conj_cong)
qed

lemma chain_unlink:
  assumes "chain st p (ys @ x # zs)" "ys \<noteq> []"
  shows "chain (st[last ys := (st ! last ys)\<lparr>next_ix := next_ix (st ! x)\<rparr>]) p (ys @ zs)"
  using assms
proof (induction ys arbitrary: p)
  case (Cons y ys)
  from chain_distinct [OF Cons.prems(1)] have d: "distinct (y # ys @ x # zs)" by simp
  show ?case
  proof (cases "ys = []")
    case True
    with Cons.prems d show ?thesis by simp
  next
    case False
    with d have y: "y \<noteq> last ys" by (metis last_in_set distinct.simps(2) Un_iff set_append)
    from Cons.prems have p: "p = int y" "y < length st" "chain st (next_ix (st ! y)) (ys @ x # zs)"
      by simp_all
    from Cons.IH [OF p(3) False] False y p(1,2) show ?thesis by simp
  qed
qed simp

lemma chain_removed:
  assumes c: "chain st (bk ! b) (ys @ x # zs)" and b: "b < length bk"
  shows "if ys = [] then chain (st[x := (st ! x)\<lparr>lbid := -1\<rparr>]) (bk[b := next_ix (st ! x)] ! b) zs
    else chain (st[x := (st ! x)\<lparr>lbid := -1\<rparr>, last ys := (st ! last ys)\<lparr>next_ix := next_ix (st ! x)\<rparr>])
           (bk ! b) (ys @ zs)"
proof (cases "ys = []")
  case True
  with c b show ?thesis by (simp add: chain_update_next)
next
  case False
  from chain_distinct [OF c] have d: "distinct (ys @ x # zs)" .
  with False have "last ys \<noteq> x" by auto
  then have "chain (st[x := (st ! x)\<lparr>lbid := -1\<rparr>, last ys := (st ! last ys)\<lparr>next_ix := next_ix (st ! x)\<rparr>])
      (bk ! b) (ys @ zs) = chain (st[last ys := (st ! last ys)\<lparr>next_ix := next_ix (st ! x)\<rparr>]) (bk ! b) (ys @ zs)"
    using d by (subst list_update_swap) simp_all
  with chain_unlink [OF c False] False show ?thesis by simp
qed

section \<open>Walks over lists in storage\<close>

fun list_walk :: "(int \<Rightarrow> 'e \<Rightarrow> 'a \<Rightarrow> 'r + 'a) \<Rightarrow> 'e list \<Rightarrow> nat list \<Rightarrow> 'a \<Rightarrow> 'r + 'a" where
  "list_walk body st [] acc = Inr acc"
| "list_walk body st (x # xs) acc =
     (case body (int x) (st ! x) acc of
        Inl r \<Rightarrow> Inl r
      | Inr acc' \<Rightarrow> list_walk body st xs acc')"

lemma chain_walk_list:
  "chain st p xs \<Longrightarrow> length xs < fuel \<Longrightarrow>
     chain_walk fuel st body p acc = Some (list_walk body st xs acc)"
proof (induction xs arbitrary: p acc fuel)
  case Nil
  then show ?case by (cases fuel) auto
next
  case (Cons x xs)
  then show ?case by (cases fuel) (auto split: sum.splits)
qed

lemma list_walk_fold:
  assumes "\<And>i e a. body i e a = Inr (f e a)"
  shows "list_walk body st xs acc = Inr (fold (\<lambda>x. f (st ! x)) xs acc)"
  by (induction xs arbitrary: acc) (simp_all add: assms)

lemma list_walk_find:
  assumes "\<And>i e a. body i e a = (if P e then Inl (g e) else Inr a)"
  shows "list_walk body st xs acc =
    (case find (\<lambda>x. P (st ! x)) xs of None \<Rightarrow> Inr acc | Some x \<Rightarrow> Inl (g (st ! x)))"
  by (induction xs) (simp_all add: assms)

text \<open>The search that remembers the element before the current one (\<^verbatim>\<open>getIndex\<close>).\<close>

lemma list_walk_prev:
  "list_walk (\<lambda>i e prev. if P e then Inl (i, prev) else Inr i) st xs acc = Inl r \<Longrightarrow>
    \<exists>ys x zs. xs = ys @ x # zs \<and> P (st ! x) \<and> (\<forall>y \<in> set ys. \<not> P (st ! y))
      \<and> r = (int x, if ys = [] then acc else int (last ys))"
proof (induction xs arbitrary: acc)
  case (Cons a xs)
  show ?case
  proof (cases "P (st ! a)")
    case True
    with Cons.prems have "r = (int a, acc)" by simp
    with True show ?thesis by (intro exI [of _ "[]"]) auto
  next
    case False
    with Cons.prems Cons.IH [of "int a"] obtain ys x zs where
      *: "xs = ys @ x # zs" "P (st ! x)" "\<forall>y \<in> set ys. \<not> P (st ! y)"
         "r = (int x, if ys = [] then int a else int (last ys))" by auto
    with False show ?thesis by (intro exI [of _ "a # ys"]) auto
  qed
qed simp

lemma list_walk_prev_None:
  "list_walk (\<lambda>i e prev. if P e then Inl (i, prev) else Inr i) st xs acc = Inr r \<Longrightarrow>
     \<forall>x \<in> set xs. \<not> P (st ! x)"
  by (induction xs arbitrary: acc) (auto split: if_splits)

section \<open>Tables of hashed lists\<close>

definition members :: "('e table_entry_scheme \<Rightarrow> nat) \<Rightarrow> nat \<Rightarrow> 'e table_entry_scheme list \<Rightarrow> nat \<Rightarrow> nat set"
where
  "members hash nb st b = {i. i < length st \<and> used (st ! i) \<and> hash (st ! i) mod nb = b}"

definition chains_ok :: "('e table_entry_scheme \<Rightarrow> nat) \<Rightarrow> int list \<Rightarrow> 'e table_entry_scheme list \<Rightarrow> bool"
where
  "chains_ok hash bk st \<longleftrightarrow> bk \<noteq> [] \<and>
     (\<forall>b < length bk. \<exists>xs. chain st (bk ! b) xs \<and> set xs = members hash (length bk) st b)"

lemma chains_okE:
  assumes "chains_ok hash bk st" "b < length bk"
  obtains xs where "chain st (bk ! b) xs" "set xs = members hash (length bk) st b"
    "distinct xs" "length xs \<le> length st"
  using assms by (metis chains_ok_def chain_distinct chain_length)

locale hashed_table =
  fixes hash :: "'e table_entry_scheme \<Rightarrow> nat"
  assumes hash_next: "hash (e\<lparr>next_ix := n\<rparr>) = hash e"
begin

lemma hash_bucket_lt: "chains_ok hash bk st \<Longrightarrow> hash e mod length bk < length bk"
  by (simp add: chains_ok_def)

lemma chains_ok_empty:
  assumes "0 < nb" "\<And>e. e \<in> set st \<Longrightarrow> \<not> used e"
  shows "chains_ok hash (replicate nb (-1)) st"
  using assms by (auto simp: chains_ok_def members_def)

lemma chains_ok_insert:
  assumes ok: "chains_ok hash bk st" and i: "i < length st" "\<not> used (st ! i)" and e: "used e"
    and h: "h = hash e mod length bk"
  shows "chains_ok hash (bk[h := int i]) (st[i := e\<lparr>next_ix := bk ! h\<rparr>])"
    (is "chains_ok hash ?bk ?st")
proof -
  have e': "used (e\<lparr>next_ix := n\<rparr>)" for n using e by (simp add: used_def)
  have "\<exists>xs. chain ?st (?bk ! b) xs \<and> set xs = members hash (length ?bk) ?st b"
    if b: "b < length bk" for b
  proof -
    from ok b obtain xs where xs: "chain st (bk ! b) xs" "set xs = members hash (length bk) st b"
      by (rule chains_okE)
    with i have "i \<notin> set xs" by (simp add: members_def)
    with xs have c: "chain ?st (bk ! b) xs" by simp
    have m: "members hash (length bk) ?st b =
        (if b = h then insert i (set xs) else set xs)"
      using i e' by (auto simp: xs(2) members_def h hash_next nth_upd split: if_splits)
    show ?thesis
    proof (cases "b = h")
      case True
      with c i b m show ?thesis by (intro exI [of _ "i # xs"]) auto
    next
      case False
      with c m b show ?thesis by (intro exI [of _ xs]) simp
    qed
  qed
  with ok show ?thesis by (simp add: chains_ok_def)
qed

lemma chains_ok_update:
  assumes "chains_ok hash bk st" "i < length st"
    "next_ix e = next_ix (st ! i)" "used e = used (st ! i)" "hash e = hash (st ! i)"
  shows "chains_ok hash bk (st[i := e])"
proof -
  have "members hash nb (st[i := e]) b = members hash nb st b" for nb b
    using assms(2,4,5) by (auto simp: members_def nth_upd split: if_splits)
  with assms(1,3) show ?thesis by (simp add: chains_ok_def chain_update_next)
qed

lemma members_unlink:
  assumes "i < length st" "p \<noteq> i" "used (st ! i)"
  shows "members hash nb (st[i := (st ! i)\<lparr>lbid := -1\<rparr>, p := (st ! p)\<lparr>next_ix := n\<rparr>]) b
       = members hash nb st b - {i}"
  using assms by (auto simp: members_def nth_upd used_def hash_next split: if_splits)

lemma members_clear:
  assumes "i < length st"
  shows "members hash nb (st[i := (st ! i)\<lparr>lbid := -1\<rparr>]) b = members hash nb st b - {i}"
  using assms by (auto simp: members_def nth_upd used_def split: if_splits)

lemma members_disjoint: "b \<noteq> c \<Longrightarrow> i \<in> members hash nb st b \<Longrightarrow> i \<notin> members hash nb st c"
  by (simp add: members_def)

lemma chains_ok_delete_head:
  assumes ok: "chains_ok hash bk st" and b: "b < length bk" and c: "chain st (bk ! b) (i # zs)"
  shows "chains_ok hash (bk[b := next_ix (st ! i)]) (st[i := (st ! i)\<lparr>lbid := -1\<rparr>])"
    (is "chains_ok hash ?bk ?st")
proof -
  from c have i: "i < length st" and d: "distinct (i # zs)"
    and cz: "chain st (next_ix (st ! i)) zs" using chain_distinct [OF c] by simp_all
  from ok b c have mb: "set (i # zs) = members hash (length bk) st b"
    by (metis chains_okE chain_unique)
  have "\<exists>xs. chain ?st (?bk ! b') xs \<and> set xs = members hash (length ?bk) ?st b'"
    if b': "b' < length bk" for b'
  proof (cases "b' = b")
    case True
    with cz d mb i b show ?thesis
      by (intro exI [of _ zs]) (auto simp: members_clear chain_update_next)
  next
    case False
    from ok b' obtain xs where xs: "chain st (bk ! b') xs" "set xs = members hash (length bk) st b'"
      by (rule chains_okE)
    from mb False xs have "i \<notin> set xs" by (metis list.set_intros(1) members_disjoint)
    with False xs b' i show ?thesis
      by (intro exI [of _ xs]) (auto simp: members_clear)
  qed
  with ok show ?thesis by (simp add: chains_ok_def)
qed

lemma chains_ok_delete_mid:
  assumes ok: "chains_ok hash bk st" and b: "b < length bk"
    and c: "chain st (bk ! b) (ys @ i # zs)" and ys: "ys \<noteq> []"
  shows "chains_ok hash bk (st[i := (st ! i)\<lparr>lbid := -1\<rparr>,
           last ys := (st ! last ys)\<lparr>next_ix := next_ix (st ! i)\<rparr>])"
    (is "chains_ok hash bk ?st")
proof -
  from c have i: "i < length st" and d: "distinct (ys @ i # zs)"
    using chain_in_range [OF c] chain_distinct [OF c] by simp_all
  from ys d have p: "last ys \<noteq> i" "last ys \<in> set ys" by auto
  from ok b c have mb: "set (ys @ i # zs) = members hash (length bk) st b"
    by (metis chains_okE chain_unique)
  then have ui: "used (st ! i)" by (auto simp: members_def)
  have m: "members hash (length bk) ?st b' = members hash (length bk) st b' - {i}" for b'
    using i p(1) ui by (rule members_unlink)
  have swap: "?st = st[last ys := (st ! last ys)\<lparr>next_ix := next_ix (st ! i)\<rparr>,
      i := (st ! i)\<lparr>lbid := -1\<rparr>]" using p by (simp add: list_update_swap)
  have "\<exists>xs. chain ?st (bk ! b') xs \<and> set xs = members hash (length bk) ?st b'"
    if b': "b' < length bk" for b'
  proof (cases "b' = b")
    case True
    have "chain ?st (bk ! b) (ys @ zs)"
      using chain_unlink [OF c ys] d by (simp add: swap)
    with True d mb m show ?thesis by (intro exI [of _ "ys @ zs"]) auto
  next
    case False
    from ok b' obtain xs where xs: "chain st (bk ! b') xs" "set xs = members hash (length bk) st b'"
      by (rule chains_okE)
    from mb False xs p have "i \<notin> set xs" "last ys \<notin> set xs"
      by (metis Un_iff list.set_intros(1) members_disjoint set_append)+
    with xs m show ?thesis by (intro exI [of _ xs]) auto
  qed
  with ok show ?thesis by (simp add: chains_ok_def)
qed

end

section \<open>Saving the used elements\<close>

text \<open>
  The loop of \<^verbatim>\<open>VSS::save\<close> and \<^verbatim>\<open>VBBM::save\<close> over the elements \<open>i, ..., i + n - 1\<close>, which writes each maximal
  run of used elements at once: \<open>first\<close> is the start of the current run.
\<close>

fun save_runs :: "'e table_entry_scheme list \<Rightarrow> nat \<Rightarrow> nat \<Rightarrow> nat option \<Rightarrow> 'e table_entry_scheme list \<Rightarrow>
    'e table_entry_scheme list" where
  "save_runs st 0 i first out =
     (case first of None \<Rightarrow> out | Some f \<Rightarrow> out @ take (i - f) (drop f st))"
| "save_runs st (Suc n) i first out =
     (case first of
        None \<Rightarrow> save_runs st n (Suc i) (if lbid (st ! i) \<noteq> -1 then Some i else None) out
      | Some f \<Rightarrow> if lbid (st ! i) = -1
                  then save_runs st n (Suc i) None (out @ take (i - f) (drop f st))
                  else save_runs st n (Suc i) (Some f) out)"

lemma save_runs_filter:
  assumes "i + n \<le> length st" "\<forall>f. first = Some f \<longrightarrow> f \<le> i"
  shows "save_runs st n i first out =
    out @ (case first of None \<Rightarrow> [] | Some f \<Rightarrow> take (i - f) (drop f st)) @ filter used (take n (drop i st))"
  using assms
proof (induction n arbitrary: i first out)
  case 0
  then show ?case by (cases first) simp_all
next
  case (Suc n)
  from Suc.prems have i: "i < length st" by simp
  then have hd: "take (Suc n) (drop i st) = st ! i # take n (drop (Suc i) st)"
    by (simp add: Cons_nth_drop_Suc [symmetric])
  have app: "take (Suc i - f) (drop f st) = take (i - f) (drop f st) @ [st ! i]" if "f \<le> i" for f
    using that i by (simp add: Suc_diff_le take_Suc_conv_app_nth)
  have one: "take (Suc i - i) (drop i st) = [st ! i]"
    using i by (simp add: Cons_nth_drop_Suc [symmetric])
  show ?case
  proof (cases first)
    case None
    then show ?thesis using Suc.prems one
      by (cases "used (st ! i)") (simp_all add: Suc.IH hd used_def)
  next
    case (Some f)
    then show ?thesis using Suc.prems app
      by (cases "used (st ! i)") (simp_all add: Suc.IH hd used_def)
  qed
qed

end
