(* ===== verification/Undo_Log.thy ===== *)
theory Undo_Log
  imports BRM_Prelude
begin

text \<open>
  The contract of \<^verbatim>\<open>Undoable\<close> (\<^verbatim>\<open>versioning/BRM/undoable.cpp\<close>): a structure in shared memory
  copies the bytes it is about to change into \<^verbatim>\<open>undoRecords\<close> (\<^verbatim>\<open>makeUndoRecord\<close>), and
  \<^verbatim>\<open>undoChanges\<close> writes the copies back, last one first. The memory is seen through cells: a cell
  is an address together with the bytes at it. The locale states what a memory has to satisfy, and
  its lemmas are the two facts every component uses: taking a record changes nothing, and a write
  to an address that has a record is wiped out by the undo.
\<close>

locale undo_memory =
  fixes rd :: "'s \<Rightarrow> 'addr \<Rightarrow> 'cell"
    and wr :: "'cell \<Rightarrow> 's \<Rightarrow> 's"
    and addr_of :: "'cell \<Rightarrow> 'addr"
  assumes addr_of_rd: "addr_of (rd s a) = a"
    and wr_rd: "wr (rd s a) s = s"
    and wr_wr_same: "addr_of c = addr_of d \<Longrightarrow> wr c (wr d s) = wr c s"
    and wr_wr_swap: "\<exists>d'. addr_of d' = addr_of d \<and> wr c (wr d s) = wr d' (wr c s)"
begin

lemma undo_record:
  "foldr wr (cs @ [rd s a]) s = foldr wr cs s"
  by (simp add: wr_rd)

lemma undo_write:
  assumes "addr_of d \<in> addr_of ` set cs"
  shows "foldr wr cs (wr d s) = foldr wr cs s"
  using assms
proof (induction cs arbitrary: d s rule: rev_induct)
  case Nil
  then show ?case by simp
next
  case (snoc c cs)
  obtain d' where d': "addr_of d' = addr_of d" "wr c (wr d s) = wr d' (wr c s)"
    using wr_wr_swap by blast
  show ?case
  proof (cases "addr_of c = addr_of d")
    case True
    then show ?thesis by (simp add: wr_wr_same)
  next
    case False
    with snoc.prems d'(1) have "addr_of d' \<in> addr_of ` set cs" by auto
    then show ?thesis by (simp add: d'(2) snoc.IH)
  qed
qed

end

end
