(* ===== verification/Hasher.thy ===== *)
theory Hasher
  imports BRM_Prelude "HOL-Library.Word"
begin

text \<open>
  \<^verbatim>\<open>utils/common/hasher.h\<close>: the 32-bit Murmur3 hash \<^verbatim>\<open>utils::Hasher\<close> that the BRM tables use to
  choose a bucket, on byte lists. All arithmetic is on 32-bit words.
\<close>

unbundle bit_operations_syntax

type_synonym u8 = "8 word"
type_synonym u32 = "32 word"

definition rotl32 :: "u32 \<Rightarrow> nat \<Rightarrow> u32" where
  "rotl32 x r = (push_bit r x OR drop_bit (32 - r) x)"

definition fmix :: "u32 \<Rightarrow> u32" where
  "fmix h0 =
     (let h = h0 XOR drop_bit 16 h0;
          h = h * 0x85ebca6b;
          h = h XOR drop_bit 13 h;
          h = h * 0xc2b2ae35
      in h XOR drop_bit 16 h)"

text \<open>A little-endian 32-bit load, and the body of the block loop.\<close>

definition load32 :: "u8 \<Rightarrow> u8 \<Rightarrow> u8 \<Rightarrow> u8 \<Rightarrow> u32" where
  "load32 a b c d =
     (ucast a OR push_bit 8 (ucast b) OR push_bit 16 (ucast c) OR push_bit 24 (ucast d))"

definition mix_k1 :: "u32 \<Rightarrow> u32" where
  "mix_k1 k = rotl32 (k * 0xcc9e2d51) 15 * 0x1b873593"

definition hash_block :: "u32 \<Rightarrow> u32 \<Rightarrow> u32" where
  "hash_block h1 k = rotl32 (h1 XOR mix_k1 k) 13 * 5 + 0xe6546b64"

text \<open>The blocks in order, then the tail of at most three bytes.\<close>

fun hash_data :: "u32 \<Rightarrow> u8 list \<Rightarrow> u32" where
  "hash_data h1 (a # b # c # d # rest) = hash_data (hash_block h1 (load32 a b c d)) rest"
| "hash_data h1 [a, b, c] =
     (h1 XOR mix_k1 (push_bit 16 (ucast c) XOR push_bit 8 (ucast b) XOR ucast a))"
| "hash_data h1 [a, b] = (h1 XOR mix_k1 (push_bit 8 (ucast b) XOR ucast a))"
| "hash_data h1 [a] = (h1 XOR mix_k1 (ucast a))"
| "hash_data h1 [] = h1"

definition hasher :: "u8 list \<Rightarrow> u32" where
  "hasher data = fmix (hash_data 0 data XOR of_nat (length data))"

text \<open>The bytes of an integer of the given size, least significant first, as they lie in memory.\<close>

definition int_bytes :: "nat \<Rightarrow> int \<Rightarrow> u8 list" where
  "int_bytes n v = map (\<lambda>k. word_of_int (v div 256 ^ k)) [0..<n]"

text \<open>\<^verbatim>\<open>hasher(data, len) % numHashBuckets\<close>\<close>

definition hash_bucket :: "u8 list \<Rightarrow> int \<Rightarrow> nat" where
  "hash_bucket data nb = unat (hasher data) mod nat nb"

end
