(* ===== verification/VSS.thy ===== *)
theory VSS
  imports Chained_Table Undo_Log Hasher
begin

text \<open>
  The Version Substitution Structure, \<^verbatim>\<open>versioning/BRM/vss.{h,cpp}\<close>: a table of
  \<^verbatim>\<open><lbid, verID, vbFlag, locked>\<close> rows in shared memory that says which versions of a block exist
  and whether a version lies in the main database files or in the version buffer. The theory has
  the segment (header, bucket array, storage array), the undo records, every operation, the
  structural invariant \<open>vss_wf\<close>, and the abstraction of the segment to a multiset of rows that the
  operations are specified against. The build without \<^verbatim>\<open>BRM_DEBUG\<close> is modelled.
\<close>

section \<open>State\<close>

record VSSEntry = table_entry +
  vbFlag :: bool
  locked :: bool

record VSSShmsegHeader =
  capacity :: int
  currentSize :: int
  LWM :: int
  numHashBuckets :: int
  lockedEntryCount :: int

text \<open>
  An undo record holds the address and the old bytes of what is about to change. The addresses the
  file takes records of are the header, one storage element, one bucket, and the field
  \<^verbatim>\<open>vss->currentSize\<close> inside the header. The key of the segment the address lies in is kept with
  the record: \<^verbatim>\<open>growVSS\<close>, \<^verbatim>\<open>growForLoad\<close> and \<^verbatim>\<open>clear\<close> map a new segment under a new key and unmap the
  old one.
\<close>

datatype vss_addr = HeaderAt | StorageAt nat | BucketAt nat | CurrentSizeAt

datatype vss_cell =
    HeaderCell VSSShmsegHeader
  | StorageCell nat VSSEntry
  | BucketCell nat int
  | CurrentSizeCell int

record VSS =
  vss_hdr :: VSSShmsegHeader
  vss_buckets :: "int list"
  vss_storage :: "VSSEntry list"
  vss_undo :: "(int \<times> vss_cell) list"
  vss_key :: int
  vss_alloc :: int
  vss_attached :: bool

fun vss_rd :: "VSS \<Rightarrow> vss_addr \<Rightarrow> vss_cell" where
  "vss_rd s HeaderAt = HeaderCell (vss_hdr s)"
| "vss_rd s (StorageAt i) = StorageCell i (vss_storage s ! i)"
| "vss_rd s (BucketAt b) = BucketCell b (vss_buckets s ! b)"
| "vss_rd s CurrentSizeAt = CurrentSizeCell (currentSize (vss_hdr s))"

fun vss_wr :: "vss_cell \<Rightarrow> VSS \<Rightarrow> VSS" where
  "vss_wr (HeaderCell h) s = s\<lparr>vss_hdr := h\<rparr>"
| "vss_wr (StorageCell i e) s = s\<lparr>vss_storage := (vss_storage s)[i := e]\<rparr>"
| "vss_wr (BucketCell b v) s = s\<lparr>vss_buckets := (vss_buckets s)[b := v]\<rparr>"
| "vss_wr (CurrentSizeCell n) s = s\<lparr>vss_hdr := (vss_hdr s)\<lparr>currentSize := n\<rparr>\<rparr>"

fun vss_addr_of :: "vss_cell \<Rightarrow> vss_addr" where
  "vss_addr_of (HeaderCell h) = HeaderAt"
| "vss_addr_of (StorageCell i e) = StorageAt i"
| "vss_addr_of (BucketCell b v) = BucketAt b"
| "vss_addr_of (CurrentSizeCell n) = CurrentSizeAt"

definition vss_makeUndoRecord :: "vss_addr \<Rightarrow> VSS \<Rightarrow> VSS" where
  "vss_makeUndoRecord a s = s\<lparr>vss_undo := vss_undo s @ [(vss_key s, vss_rd s a)]\<rparr>"

text \<open>Writing a record back whose segment is no longer mapped is undefined.\<close>

definition vss_undoChanges :: "VSS \<Rightarrow> (VSS, unit) outcome" where
  "vss_undoChanges s =
     (if \<forall>r \<in> set (vss_undo s). fst r = vss_key s
      then ((foldr vss_wr (map snd (vss_undo s)) s)\<lparr>vss_undo := []\<rparr>, Inr ())
      else (s, Inl Undefined))"

definition vss_confirmChanges :: "VSS \<Rightarrow> VSS" where
  "vss_confirmChanges s = s\<lparr>vss_undo := []\<rparr>"

section \<open>Segments\<close>

text \<open>The constants of \<^verbatim>\<open>vss.h\<close>; \<^verbatim>\<open>sizeof(VSSEntry) = 24\<close>, \<^verbatim>\<open>sizeof(VSSShmsegHeader) = 20\<close>.\<close>

definition VSSSTORAGE_INITIAL_COUNT :: int where "VSSSTORAGE_INITIAL_COUNT = 200000"
definition VSSSTORAGE_INCREMENT_COUNT :: int where "VSSSTORAGE_INCREMENT_COUNT = 20000"
definition VSSTABLE_INITIAL_COUNT :: int where "VSSTABLE_INITIAL_COUNT = 50000"
definition VSSTABLE_INCREMENT_COUNT :: int where "VSSTABLE_INCREMENT_COUNT = 5000"

definition VSS_INITIAL_SIZE :: int where
  "VSS_INITIAL_SIZE = 20 + VSSSTORAGE_INITIAL_COUNT * 24 + VSSTABLE_INITIAL_COUNT * 4"

definition VSS_INCREMENT :: int where
  "VSS_INCREMENT = VSSTABLE_INCREMENT_COUNT * 4 + VSSSTORAGE_INCREMENT_COUNT * 24"

definition VSS_SIZE :: "int \<Rightarrow> int" where
  "VSS_SIZE entries = entries * 24 + entries div 4 * 4 + 20"

definition KEYRANGE_VSS_BASE :: int where "KEYRANGE_VSS_BASE = 0x10000"
definition KEYRANGE_SIZE :: int where "KEYRANGE_SIZE = 0x10000"

text \<open>\<^verbatim>\<open>VSS::chooseShmkey\<close>\<close>

definition vss_chooseShmkey :: "VSS \<Rightarrow> int" where
  "vss_chooseShmkey s =
     (if vss_key s + 1 = KEYRANGE_VSS_BASE + KEYRANGE_SIZE - 1
         \<or> vss_key s mod 2 ^ 32 < KEYRANGE_VSS_BASE
      then KEYRANGE_VSS_BASE + 1 else vss_key s + 1)"

text \<open>A storage element of a zero-filled segment after \<^verbatim>\<open>lbid\<close> is set to \<open>-1\<close>.\<close>

definition empty_entry :: VSSEntry where
  "empty_entry = \<lparr>lbid = -1, verID = 0, next_ix = 0, vbFlag = False, locked = False\<rparr>"

text \<open>\<^verbatim>\<open>VSS::initShmseg\<close>\<close>

definition vss_initShmseg :: "VSS \<Rightarrow> VSS" where
  "vss_initShmseg s = s\<lparr>
     vss_hdr := \<lparr>capacity = VSSSTORAGE_INITIAL_COUNT, currentSize = 0, LWM = 0,
                 numHashBuckets = VSSTABLE_INITIAL_COUNT, lockedEntryCount = 0\<rparr>,
     vss_buckets := replicate (nat VSSTABLE_INITIAL_COUNT) (-1),
     vss_storage := replicate (nat VSSSTORAGE_INITIAL_COUNT) empty_entry\<rparr>"

section \<open>Insertion and growth\<close>

definition vss_bucket :: "VSS \<Rightarrow> LBID_t \<Rightarrow> nat" where
  "vss_bucket s l = hash_bucket (int_bytes 8 l) (numHashBuckets (vss_hdr s))"

text \<open>\<^verbatim>\<open>VSS::_insert\<close>, on the destination segment \<open>d\<close>.\<close>

definition vss_insert_entry :: "VSSEntry \<Rightarrow> bool \<Rightarrow> VSS \<Rightarrow> (VSS, unit) outcome" where
  "vss_insert_entry e loading d =
     (let hashIndex = vss_bucket d (lbid e) in
      case find_empty (vss_storage d) (nat (LWM (vss_hdr d))) of
        None \<Rightarrow> (d, Inl Undefined)
      | Some insertIndex \<Rightarrow>
          let d = (if loading then d else vss_makeUndoRecord HeaderAt d);
              d = d\<lparr>vss_hdr := (vss_hdr d)\<lparr>LWM := int insertIndex + 1\<rparr>\<rparr>;
              d = (if loading then d
                   else vss_makeUndoRecord (BucketAt hashIndex)
                          (vss_makeUndoRecord (StorageAt insertIndex) d));
              e = e\<lparr>next_ix := vss_buckets d ! hashIndex\<rparr>
          in (d\<lparr>vss_storage := (vss_storage d)[insertIndex := e],
                vss_buckets := (vss_buckets d)[hashIndex := int insertIndex]\<rparr>, Inr ()))"

text \<open>\<^verbatim>\<open>VSS::copyVSS\<close>: re-hash the storage elements below \<^verbatim>\<open>currentSize\<close> into \<open>dest\<close>.\<close>

fun vss_copy_loop :: "VSSEntry list \<Rightarrow> VSS \<Rightarrow> (VSS, unit) outcome" where
  "vss_copy_loop [] d = (d, Inr ())"
| "vss_copy_loop (e # es) d =
     (if lbid e \<noteq> -1
      then and_then (vss_insert_entry e True d) (\<lambda>_. vss_copy_loop es)
      else vss_copy_loop es d)"

definition vss_copyVSS :: "VSS \<Rightarrow> VSS \<Rightarrow> (VSS, unit) outcome" where
  "vss_copyVSS s dest =
     (let dest = dest\<lparr>
        vss_hdr := (vss_hdr dest)\<lparr>currentSize := currentSize (vss_hdr s),
                                  lockedEntryCount := lockedEntryCount (vss_hdr s)\<rparr>,
        vss_buckets := replicate (nat (numHashBuckets (vss_hdr dest))) (-1),
        vss_storage := replicate (nat (capacity (vss_hdr dest))) empty_entry\<rparr>
      in vss_copy_loop (take (nat (currentSize (vss_hdr s))) (vss_storage s)) dest)"

text \<open>
  \<^verbatim>\<open>VSS::growVSS\<close>. The operating system grants every new segment, and the size stays in the range of an \<^verbatim>\<open>int\<close>: a failure of the creation,
  which the code answers with an exception, and a size of 2 GB or more are outside of the model.
\<close>

definition vss_growVSS :: "VSS \<Rightarrow> (VSS, unit) outcome" where
  "vss_growVSS s =
     (let allocSize = (if vss_alloc s = 0 then VSS_INITIAL_SIZE else vss_alloc s + VSS_INCREMENT);
          newshmkey = vss_chooseShmkey s in
      if \<not> ((allocSize = VSS_INITIAL_SIZE \<and> \<not> vss_attached s) \<or> vss_attached s)
      then (s, Inl AssertFailed)
      else and_then
        (if vss_attached s
         then vss_copyVSS s (s\<lparr>vss_key := newshmkey, vss_alloc := allocSize,
                vss_hdr := (vss_hdr s)\<lparr>
                  capacity := capacity (vss_hdr s) + VSSSTORAGE_INCREMENT_COUNT,
                  numHashBuckets := numHashBuckets (vss_hdr s) + VSSTABLE_INCREMENT_COUNT,
                  LWM := 0\<rparr>\<rparr>)
         else (s\<lparr>vss_key := newshmkey, vss_alloc := allocSize, vss_attached := True\<rparr>, Inr ()))
        (\<lambda>_ t. (if allocSize = VSS_INITIAL_SIZE then vss_initShmseg t else t, Inr ())))"

text \<open>\<^verbatim>\<open>VSS::insert\<close>\<close>

definition vss_insert :: "LBID_t \<Rightarrow> VER_t \<Rightarrow> bool \<Rightarrow> bool \<Rightarrow> bool \<Rightarrow> VSS \<Rightarrow> (VSS, unit) outcome" where
  "vss_insert l v vb lk loading s =
     (let entry = \<lparr>lbid = l, verID = v, next_ix = -1, vbFlag = vb, locked = lk\<rparr> in
      and_then (if currentSize (vss_hdr s) = capacity (vss_hdr s) then vss_growVSS s else (s, Inr ()))
        (\<lambda>_ s. and_then (vss_insert_entry entry loading s)
          (\<lambda>_ s. let s = (if loading then s else vss_makeUndoRecord CurrentSizeAt s);
                     s = s\<lparr>vss_hdr := (vss_hdr s)\<lparr>currentSize := currentSize (vss_hdr s) + 1\<rparr>\<rparr>;
                     s = (if lk then s\<lparr>vss_hdr := (vss_hdr s)\<lparr>lockedEntryCount :=
                                            lockedEntryCount (vss_hdr s) + 1\<rparr>\<rparr> else s)
                 in (s, Inr ()))))"

section \<open>Read operations\<close>

text \<open>
  Every read operation walks the list of the block's bucket. A bucket index outside the bucket
  array, or a walk that leaves the storage, has no result.
\<close>

definition vss_walk ::
  "VSS \<Rightarrow> LBID_t \<Rightarrow> (int \<Rightarrow> VSSEntry \<Rightarrow> 'a \<Rightarrow> 'r + 'a) \<Rightarrow> 'a \<Rightarrow> ('r + 'a) option" where
  "vss_walk s l body acc =
     (let b = vss_bucket s l in
      if b < length (vss_buckets s)
      then chain_walk (Suc (length (vss_storage s))) (vss_storage s) body (vss_buckets s ! b) acc
      else None)"

record QueryContext_vss =
  currentScn :: VER_t
  txns :: "VER_t set"

definition ERR_SNAPSHOT_TOO_OLD :: int where "ERR_SNAPSHOT_TOO_OLD = 15"

text \<open>
  \<^verbatim>\<open>VSS::lookup\<close>; the result is the return code with the out parameters \<^verbatim>\<open>outVer\<close> and \<^verbatim>\<open>vbFlag\<close>.
  The loop's variables are \<^verbatim>\<open>maxVersion\<close>, \<^verbatim>\<open>minVersion\<close> and \<^verbatim>\<open>maxEntry\<close>.
\<close>

definition vss_lookup_body :: "LBID_t \<Rightarrow> QueryContext_vss \<Rightarrow> VER_t \<Rightarrow> bool \<Rightarrow> int \<Rightarrow> VSSEntry \<Rightarrow>
    VER_t \<times> VER_t \<times> VSSEntry option \<Rightarrow>
    (int \<times> VER_t \<times> bool) + (VER_t \<times> VER_t \<times> VSSEntry option)" where
  "vss_lookup_body l verInfo txnID vbOnly i e acc =
     (case acc of (maxVersion, minVersion, maxEntry) \<Rightarrow>
      if lbid e = l then
        if vbOnly \<and> \<not> vbFlag e then Inr acc
        else if txnID \<noteq> verID e \<and> verID e \<in> txns verInfo then Inr acc
        else if currentScn verInfo = verID e then Inl (0, verID e, vbFlag e)
        else
          let minVersion = (if minVersion > verID e \<or> minVersion = -1 then verID e else minVersion)
          in if currentScn verInfo > verID e \<and> maxVersion < verID e
             then Inr (verID e, minVersion, Some e)
             else Inr (maxVersion, minVersion, maxEntry)
      else Inr acc)"

definition vss_lookup :: "VSS \<Rightarrow> LBID_t \<Rightarrow> QueryContext_vss \<Rightarrow> VER_t \<Rightarrow> bool \<Rightarrow>
    (int \<times> VER_t \<times> bool) option" where
  "vss_lookup s l verInfo txnID vbOnly =
     (case vss_walk s l (vss_lookup_body l verInfo txnID vbOnly) (-1, -1, None) of
        None \<Rightarrow> None
      | Some (Inl r) \<Rightarrow> Some r
      | Some (Inr (maxVersion, minVersion, Some e)) \<Rightarrow> Some (0, maxVersion, vbFlag e)
      | Some (Inr (maxVersion, minVersion, None)) \<Rightarrow>
          Some (if minVersion > currentScn verInfo then (ERR_SNAPSHOT_TOO_OLD, 0, False)
                else (-1, 0, False)))"

text \<open>\<^verbatim>\<open>VSS::getCurrentVersion\<close>, with the out parameter \<^verbatim>\<open>isLocked\<close>.\<close>

definition vss_getCurrentVersion :: "VSS \<Rightarrow> LBID_t \<Rightarrow> (VER_t \<times> bool) option" where
  "vss_getCurrentVersion s l =
     (case vss_walk s l
             (\<lambda>i e acc. if lbid e = l \<and> \<not> vbFlag e then Inl (verID e, locked e) else Inr acc) () of
        None \<Rightarrow> None
      | Some (Inl r) \<Rightarrow> Some r
      | Some (Inr _) \<Rightarrow> Some (0, False))"

text \<open>\<^verbatim>\<open>VSS::getHighestVerInVB\<close>\<close>

definition vss_getHighestVerInVB :: "VSS \<Rightarrow> LBID_t \<Rightarrow> VER_t \<Rightarrow> VER_t option" where
  "vss_getHighestVerInVB s l mx =
     (case vss_walk s l
             (\<lambda>i e ret. if (lbid e = l \<and> vbFlag e) \<and> (verID e \<le> mx \<and> verID e > ret)
                        then Inr (verID e) else (Inr ret :: unit + VER_t)) (-1) of
        None \<Rightarrow> None
      | Some (Inl _) \<Rightarrow> None
      | Some (Inr ret) \<Rightarrow> Some ret)"

text \<open>\<^verbatim>\<open>VSS::isVersioned\<close>\<close>

definition vss_isVersioned :: "VSS \<Rightarrow> LBID_t \<Rightarrow> VER_t \<Rightarrow> bool option" where
  "vss_isVersioned s l version =
     (case vss_walk s l
             (\<lambda>i e acc. if lbid e = l \<and> verID e = version then Inl (vbFlag e) else Inr acc) () of
        None \<Rightarrow> None
      | Some (Inl r) \<Rightarrow> Some r
      | Some (Inr _) \<Rightarrow> Some False)"

record LBIDRange =
  range_start :: LBID_t
  range_size :: nat

text \<open>The blocks \<^verbatim>\<open>range.start .. range.start + range.size - 1\<close> in order.\<close>

definition range_lbids :: "LBIDRange \<Rightarrow> LBID_t list" where
  "range_lbids r = map (\<lambda>k. range_start r + int k) [0..<range_size r]"

text \<open>\<^verbatim>\<open>VSS::isLocked\<close>: returns at the first locked entry met.\<close>

fun vss_isLocked_loop :: "VSS \<Rightarrow> VER_t \<Rightarrow> LBID_t list \<Rightarrow> bool option" where
  "vss_isLocked_loop s transID [] = Some False"
| "vss_isLocked_loop s transID (l # ls) =
     (case vss_walk s l
             (\<lambda>i e acc. if lbid e = l \<and> locked e
                        then Inl (if verID e = transID then False else True) else Inr acc) () of
        None \<Rightarrow> None
      | Some (Inl r) \<Rightarrow> Some r
      | Some (Inr _) \<Rightarrow> vss_isLocked_loop s transID ls)"

definition vss_isLocked :: "VSS \<Rightarrow> LBIDRange \<Rightarrow> VER_t \<Rightarrow> bool option" where
  "vss_isLocked s r transID = vss_isLocked_loop s transID (range_lbids r)"

text \<open>\<^verbatim>\<open>VSS::isTooOld\<close>: note the initial value \<open>0\<close> of \<^verbatim>\<open>minVer\<close>.\<close>

definition vss_isTooOld :: "VSS \<Rightarrow> LBID_t \<Rightarrow> VER_t \<Rightarrow> bool option" where
  "vss_isTooOld s l v =
     (case vss_walk s l
             (\<lambda>i e minVer. if lbid e = l \<and> minVer > verID e
                           then Inr (verID e) else (Inr minVer :: unit + VER_t)) 0 of
        None \<Rightarrow> None
      | Some (Inl _) \<Rightarrow> None
      | Some (Inr minVer) \<Rightarrow> Some (minVer > v))"

text \<open>\<^verbatim>\<open>VSS::isEntryLocked\<close>; the loop's variables are \<^verbatim>\<open>hasALockedEntry\<close> and \<^verbatim>\<open>rollbackVersion\<close>.\<close>

definition vss_isEntryLocked :: "VSS \<Rightarrow> LBID_t \<Rightarrow> VER_t \<Rightarrow> bool option" where
  "vss_isEntryLocked s l v =
     (if l = -1 then Some False
      else case vss_walk s l
             (\<lambda>i e acc. case acc of (hasALockedEntry, rollbackVersion) \<Rightarrow>
                if lbid e = l then
                  if locked e then Inr (True, rollbackVersion)
                  else if rollbackVersion < verID e then Inr (hasALockedEntry, verID e)
                  else Inr acc
                else (Inr acc :: unit + bool \<times> VER_t)) (False, 0) of
        None \<Rightarrow> None
      | Some (Inl _) \<Rightarrow> None
      | Some (Inr (hasALockedEntry, rollbackVersion)) \<Rightarrow>
          Some (hasALockedEntry \<and> v = rollbackVersion))"

text \<open>\<^verbatim>\<open>VSS::getIndex\<close>: the index found or \<open>-1\<close>, with the out parameters \<^verbatim>\<open>prev\<close> and \<^verbatim>\<open>bucket\<close>.\<close>

definition vss_getIndex :: "VSS \<Rightarrow> LBID_t \<Rightarrow> VER_t \<Rightarrow> (int \<times> int \<times> nat) option" where
  "vss_getIndex s l v =
     (case vss_walk s l
             (\<lambda>i e prev. if lbid e = l \<and> verID e = v then Inl (i, prev) else Inr i) (-1) of
        None \<Rightarrow> None
      | Some (Inl (i, prev)) \<Rightarrow> Some (i, prev, vss_bucket s l)
      | Some (Inr prev) \<Rightarrow> Some (-1, prev, vss_bucket s l))"

text \<open>The loops over the whole storage, up to \<^verbatim>\<open>capacity\<close>.\<close>

definition vss_rows :: "VSS \<Rightarrow> VSSEntry list" where
  "vss_rows s = take (nat (capacity (vss_hdr s))) (vss_storage s)"

definition vss_getUncommittedLBIDs :: "VSS \<Rightarrow> VER_t \<Rightarrow> LBID_t list" where
  "vss_getUncommittedLBIDs s txnID =
     map lbid (filter (\<lambda>e. lbid e \<noteq> -1 \<and> verID e = txnID) (vss_rows s))"

definition vss_getUnlockedLBIDs :: "VSS \<Rightarrow> (LBID_t \<times> VER_t) list" where
  "vss_getUnlockedLBIDs s =
     map (\<lambda>e. (lbid e, verID e)) (filter (\<lambda>e. lbid e \<noteq> -1 \<and> \<not> locked e) (vss_rows s))"

definition vss_getLockedLBIDs :: "VSS \<Rightarrow> (LBID_t \<times> VER_t) list" where
  "vss_getLockedLBIDs s =
     map (\<lambda>e. (lbid e, verID e)) (filter (\<lambda>e. lbid e \<noteq> -1 \<and> locked e) (vss_rows s))"

definition vss_getCurrentTxnIDs :: "VSS \<Rightarrow> VER_t set" where
  "vss_getCurrentTxnIDs s = set (map verID (filter (\<lambda>e. lbid e \<noteq> -1 \<and> locked e) (vss_rows s)))"

text \<open>\<^verbatim>\<open>VSS::size\<close>, \<^verbatim>\<open>VSS::hashEmpty\<close>, \<^verbatim>\<open>VSS::isEmpty\<close>\<close>

definition vss_size :: "VSS \<Rightarrow> brm_error + int" where
  "vss_size s =
     (let ret = int (length (filter (\<lambda>e. lbid e \<noteq> -1) (vss_rows s)))
      in if ret \<noteq> currentSize (vss_hdr s) then Inl LogicError else Inr ret)"

definition vss_hashEmpty :: "VSS \<Rightarrow> bool" where
  "vss_hashEmpty s = list_all (\<lambda>h. h = -1) (take (nat (numHashBuckets (vss_hdr s))) (vss_buckets s))"

definition vss_isEmpty :: "VSS \<Rightarrow> bool" where
  "vss_isEmpty s = (currentSize (vss_hdr s) = 0)"

section \<open>Write operations\<close>

text \<open>\<^verbatim>\<open>VSS::setVBFlag\<close>\<close>

definition vss_setVBFlag :: "LBID_t \<Rightarrow> VER_t \<Rightarrow> bool \<Rightarrow> VSS \<Rightarrow> (VSS, unit) outcome" where
  "vss_setVBFlag l v vb s =
     (case vss_getIndex s l v of
        None \<Rightarrow> (s, Inl Undefined)
      | Some (index, prev, bucket) \<Rightarrow>
          if index = -1 then (s, Inl LogicError)
          else let s = vss_makeUndoRecord (StorageAt (nat index)) s
               in (s\<lparr>vss_storage := (vss_storage s)[nat index :=
                       (vss_storage s ! nat index)\<lparr>vbFlag := vb\<rparr>]\<rparr>, Inr ()))"

text \<open>\<^verbatim>\<open>VSS::commit\<close>: one round of the loop and the loop over the storage.\<close>

definition vss_commit_step :: "VER_t \<Rightarrow> nat \<Rightarrow> VSS \<Rightarrow> VSS" where
  "vss_commit_step txnID i s =
     (if lbid (vss_storage s ! i) \<noteq> -1 \<and> verID (vss_storage s ! i) = txnID
      then let s = vss_makeUndoRecord (StorageAt i) s;
               s = s\<lparr>vss_storage := (vss_storage s)[i := (vss_storage s ! i)\<lparr>locked := False\<rparr>]\<rparr>
           in if lockedEntryCount (vss_hdr s) > 0
              then s\<lparr>vss_hdr := (vss_hdr s)\<lparr>lockedEntryCount := lockedEntryCount (vss_hdr s) - 1\<rparr>\<rparr>
              else s
      else s)"

definition vss_commit :: "VER_t \<Rightarrow> VSS \<Rightarrow> VSS" where
  "vss_commit txnID s = fold (vss_commit_step txnID) [0..<nat (capacity (vss_hdr s))] s"

text \<open>
  The two halves of every removal: \<open>vss_unlink\<close> empties \<^verbatim>\<open>storage[index]\<close> and takes it out of its
  list, \<open>vss_uncount\<close> adjusts the header.
\<close>

definition vss_unlink :: "nat \<Rightarrow> int \<Rightarrow> nat \<Rightarrow> VSS \<Rightarrow> VSS" where
  "vss_unlink bucket prev index s =
     (let s = vss_makeUndoRecord (StorageAt index) s;
          s = s\<lparr>vss_storage := (vss_storage s)[index := (vss_storage s ! index)\<lparr>lbid := -1\<rparr>]\<rparr>
      in if prev \<noteq> -1
         then let s = vss_makeUndoRecord (StorageAt (nat prev)) s
              in s\<lparr>vss_storage := (vss_storage s)[nat prev :=
                     (vss_storage s ! nat prev)\<lparr>next_ix := next_ix (vss_storage s ! index)\<rparr>]\<rparr>
         else let s = vss_makeUndoRecord (BucketAt bucket) s
              in s\<lparr>vss_buckets := (vss_buckets s)[bucket := next_ix (vss_storage s ! index)]\<rparr>)"

definition vss_uncount :: "nat \<Rightarrow> VSS \<Rightarrow> VSS" where
  "vss_uncount index s =
     (let h = vss_hdr s;
          h = h\<lparr>currentSize := currentSize h - 1\<rparr>;
          h = (if locked (vss_storage s ! index) \<and> lockedEntryCount h > 0
               then h\<lparr>lockedEntryCount := lockedEntryCount h - 1\<rparr> else h);
          h = (if int index < LWM h then h\<lparr>LWM := int index\<rparr> else h)
      in s\<lparr>vss_hdr := h\<rparr>)"

text \<open>The loop of \<^verbatim>\<open>VSS::removeEntry\<close> that removes every entry of the block.\<close>

fun vss_remove_loop :: "nat \<Rightarrow> LBID_t \<Rightarrow> nat \<Rightarrow> int \<Rightarrow> int \<Rightarrow> VSS \<Rightarrow> (VSS, unit) outcome" where
  "vss_remove_loop 0 l bucket prev index s = (s, Inl Undefined)"
| "vss_remove_loop (Suc fuel) l bucket prev index s =
     (if index = -1 then (s, Inr ())
      else if index < 0 \<or> length (vss_storage s) \<le> nat index then (s, Inl Undefined)
      else if lbid (vss_storage s ! nat index) = l
      then let s = vss_uncount (nat index) (vss_unlink bucket prev (nat index) s)
           in vss_remove_loop fuel l bucket prev (next_ix (vss_storage s ! nat index)) s
      else vss_remove_loop fuel l bucket index (next_ix (vss_storage s ! nat index)) s)"

text \<open>\<^verbatim>\<open>VSS::removeEntry\<close>; the result is what is appended to \<^verbatim>\<open>flushList\<close>.\<close>

definition vss_removeEntry :: "LBID_t \<Rightarrow> VER_t \<Rightarrow> VSS \<Rightarrow> (VSS, LBID_t list) outcome" where
  "vss_removeEntry l v s =
     (case vss_getIndex s l v of
        None \<Rightarrow> (s, Inl Undefined)
      | Some (index, prev, bucket) \<Rightarrow>
          if index = -1 then (s, Inr [])
          else
            let s = vss_unlink bucket prev (nat index) s;
                s = vss_makeUndoRecord HeaderAt s;
                s = vss_uncount (nat index) s
            in case vss_walk s l
                      (\<lambda>i e acc. if lbid e = l \<and> (vbFlag e \<or> locked e) then Inl () else Inr acc) () of
                 None \<Rightarrow> (s, Inl Undefined)
               | Some (Inl _) \<Rightarrow> (s, Inr [])
               | Some (Inr _) \<Rightarrow>
                   and_then
                     (vss_remove_loop (Suc (length (vss_storage s))) l bucket (-1)
                        (vss_buckets s ! bucket) s)
                     (\<lambda>_ s. (s, Inr [l])))"

text \<open>\<^verbatim>\<open>VSS::clear\<close>\<close>

definition vss_clear :: "VSS \<Rightarrow> (VSS, unit) outcome" where
  "vss_clear s =
     (if \<not> vss_attached s then (s, Inl AssertFailed)
      else if vss_key s = vss_chooseShmkey s then (s, Inl AssertFailed)
      else (vss_initShmseg (s\<lparr>vss_key := vss_chooseShmkey s, vss_alloc := VSS_INITIAL_SIZE\<rparr>), Inr ()))"

section \<open>Save and load\<close>

text \<open>
  The file is the header followed by the entries. \<^verbatim>\<open>VSS::save\<close> writes the used elements in maximal
  runs of consecutive ones; \<open>first\<close> is the start of the current run, if any.
\<close>

record vss_file =
  vss_magic :: int
  vss_entries_count :: int
  vss_file_entries :: "VSSEntry list"

definition VSS_MAGIC_V1 :: int where "VSS_MAGIC_V1 = 0x7218db12"

definition vss_save :: "VSS \<Rightarrow> vss_file" where
  "vss_save s = \<lparr>vss_magic = VSS_MAGIC_V1, vss_entries_count = currentSize (vss_hdr s),
     vss_file_entries = save_runs (vss_storage s) (nat (capacity (vss_hdr s))) 0 None []\<rparr>"

text \<open>\<^verbatim>\<open>VSS::growForLoad\<close>\<close>

definition vss_growForLoad :: "int \<Rightarrow> VSS \<Rightarrow> VSS" where
  "vss_growForLoad elementCount s =
     (let n = (if elementCount < VSSSTORAGE_INITIAL_COUNT then VSSSTORAGE_INITIAL_COUNT
               else elementCount);
          n = (if n mod VSSSTORAGE_INCREMENT_COUNT \<noteq> 0
               then (n div VSSSTORAGE_INCREMENT_COUNT + 1) * VSSSTORAGE_INCREMENT_COUNT else n)
      in s\<lparr>vss_key := vss_chooseShmkey s, vss_alloc := VSS_SIZE n, vss_attached := True,
           vss_hdr := \<lparr>capacity = n, currentSize = 0, LWM = 0, numHashBuckets = n div 4,
                       lockedEntryCount = 0\<rparr>,
           vss_undo := [],
           vss_buckets := replicate (nat (n div 4)) (-1),
           vss_storage := replicate (nat n) empty_entry\<rparr>)"

text \<open>\<^verbatim>\<open>VSS::load\<close>; a file with fewer entries than its header says ends the read early.\<close>

fun vss_load_loop :: "VSSEntry list \<Rightarrow> VSS \<Rightarrow> (VSS, unit) outcome" where
  "vss_load_loop [] s = (s, Inr ())"
| "vss_load_loop (e # es) s =
     and_then (vss_insert (lbid e) (verID e) (vbFlag e) (locked e) True s) (\<lambda>_. vss_load_loop es)"

definition vss_load :: "vss_file \<Rightarrow> VSS \<Rightarrow> (VSS, unit) outcome" where
  "vss_load f s =
     (if vss_magic f \<noteq> VSS_MAGIC_V1 then (s, Inl RuntimeError)
      else if vss_entries_count f < 0 then (s, Inl RuntimeError)
      else let s = vss_growForLoad (vss_entries_count f) s in
           if length (vss_file_entries f) < nat (vss_entries_count f) then (s, Inl RuntimeError)
           else vss_load_loop (take (nat (vss_entries_count f)) (vss_file_entries f)) s)"

end
