(* ===== verification/VSS_Inv.thy ===== *)
theory VSS_Inv
  imports VSS
begin

text \<open>
  The invariants of the VSS. \<open>vss_wf\<close> is the consistency that \<^verbatim>\<open>VSS::checkConsistency\<close> describes (sizes
  agree, no empty element is linked, no empty element lies below the low water mark) together with
  the shape of the lists. The interpretation \<open>vss_table\<close> gives the pointer lemmas of
  \<open>hashed_table\<close> for the VSS, \<open>vss_mem\<close> the undo lemmas of \<open>undo_memory\<close>. Each write operation is
  shown to keep the invariant and to act on the multiset of rows.
\<close>

section \<open>Interfaces provided\<close>

definition vss_hash :: "VSSEntry \<Rightarrow> nat" where
  "vss_hash e = unat (hasher (int_bytes 8 (lbid e)))"

interpretation vss_table: hashed_table vss_hash
  by unfold_locales (simp add: vss_hash_def)

interpretation vss_mem: undo_memory vss_rd vss_wr vss_addr_of
proof unfold_locales
  fix s :: VSS and a :: vss_addr
  show "vss_addr_of (vss_rd s a) = a" by (cases a) simp_all
  show "vss_wr (vss_rd s a) s = s" by (cases a) simp_all
next
  fix c d :: vss_cell and s :: VSS
  assume "vss_addr_of c = vss_addr_of d"
  then show "vss_wr c (vss_wr d s) = vss_wr c s" by (cases c; cases d) simp_all
next
  fix c d :: vss_cell and s :: VSS
  show "\<exists>d'. vss_addr_of d' = vss_addr_of d \<and> vss_wr c (vss_wr d s) = vss_wr d' (vss_wr c s)"
  proof (cases c)
    case (HeaderCell h)
    show ?thesis
    proof (cases d)
      case (HeaderCell g)
      with \<open>c = HeaderCell h\<close> show ?thesis by (intro exI [of _ c]) simp
    next
      case (CurrentSizeCell n)
      with HeaderCell show ?thesis by (intro exI [of _ "CurrentSizeCell (currentSize h)"]) simp
    qed (use HeaderCell in \<open>auto intro!: exI [of _ d]\<close>)
  next
    case (StorageCell i e)
    show ?thesis
    proof (cases d)
      case (StorageCell j f)
      with \<open>c = StorageCell i e\<close> show ?thesis
        by (intro exI [of _ "if i = j then c else d"]) (simp add: list_update_swap)
    qed (use StorageCell in \<open>auto intro!: exI [of _ d]\<close>)
  next
    case (BucketCell i v)
    show ?thesis
    proof (cases d)
      case (BucketCell j w)
      with \<open>c = BucketCell i v\<close> show ?thesis
        by (intro exI [of _ "if i = j then c else d"]) (simp add: list_update_swap)
    qed (use BucketCell in \<open>auto intro!: exI [of _ d]\<close>)
  next
    case (CurrentSizeCell n)
    show ?thesis
    proof (cases d)
      case (HeaderCell h)
      with CurrentSizeCell show ?thesis
        by (intro exI [of _ "HeaderCell (h\<lparr>currentSize := n\<rparr>)"]) simp
    next
      case (CurrentSizeCell m)
      with \<open>c = CurrentSizeCell n\<close> show ?thesis by (intro exI [of _ c]) simp
    qed (use CurrentSizeCell in \<open>auto intro!: exI [of _ d]\<close>)
  qed
qed

section \<open>Invariant and abstraction\<close>

definition vss_struct :: "VSS \<Rightarrow> bool" where
  "vss_struct s \<longleftrightarrow>
     chains_ok vss_hash (vss_buckets s) (vss_storage s) \<and>
     int (length (vss_buckets s)) = numHashBuckets (vss_hdr s) \<and>
     int (length (vss_storage s)) = capacity (vss_hdr s) \<and>
     0 \<le> LWM (vss_hdr s) \<and> LWM (vss_hdr s) \<le> capacity (vss_hdr s) \<and>
     (\<forall>i < nat (LWM (vss_hdr s)). used (vss_storage s ! i))"

definition vss_count :: "VSS \<Rightarrow> nat" where
  "vss_count s = length (filter used (vss_storage s))"

definition vss_wf :: "VSS \<Rightarrow> bool" where
  "vss_wf s \<longleftrightarrow> vss_struct s \<and> vss_attached s \<and> VSS_INITIAL_SIZE \<le> vss_alloc s \<and>
     currentSize (vss_hdr s) = int (vss_count s)"

type_synonym vss_row = "LBID_t \<times> VER_t \<times> bool \<times> bool"

definition row :: "VSSEntry \<Rightarrow> vss_row" where
  "row e = (lbid e, verID e, vbFlag e, locked e)"

definition vss_abs :: "VSS \<Rightarrow> vss_row multiset" where
  "vss_abs s = image_mset row (filter_mset used (mset (vss_storage s)))"

lemma row_next [simp]: "row (e\<lparr>next_ix := n\<rparr>) = row e"
  by (simp add: row_def)

lemma used_next [simp]: "used (e\<lparr>next_ix := n\<rparr>) = used e"
  by (simp add: used_def)

lemma size_vss_abs: "size (vss_abs s) = vss_count s"
  by (simp add: vss_abs_def vss_count_def flip: mset_filter)

lemma mem_vss_abs:
  "r \<in># vss_abs s \<longleftrightarrow> (\<exists>i < length (vss_storage s). used (vss_storage s ! i) \<and> r = row (vss_storage s ! i))"
  by (auto simp: vss_abs_def in_set_conv_nth)

lemma vss_abs_update:
  assumes "i < length (vss_storage s)"
  shows "vss_abs (s\<lparr>vss_storage := (vss_storage s)[i := e]\<rparr>) =
    vss_abs s - (if used (vss_storage s ! i) then {#row (vss_storage s ! i)#} else {#})
      + (if used e then {#row e#} else {#})"
proof -
  have "used (vss_storage s ! i) \<Longrightarrow> vss_storage s ! i \<in># filter_mset used (mset (vss_storage s))"
    using assms by simp
  then show ?thesis
    by (auto simp: vss_abs_def filter_mset_upd [OF assms] image_mset_Diff)
qed

lemma vss_bucket_hash:
  assumes "vss_struct s"
  shows "vss_bucket s (lbid e) = vss_hash e mod length (vss_buckets s)"
proof -
  from assms have "nat (numHashBuckets (vss_hdr s)) = length (vss_buckets s)"
    by (auto simp: vss_struct_def)
  then show ?thesis by (simp add: vss_bucket_def vss_hash_def hash_bucket_def)
qed

lemma vss_bucket_lt: "vss_struct s \<Longrightarrow> vss_bucket s l < length (vss_buckets s)"
  using vss_bucket_hash [of s "\<lparr>lbid = l, verID = 0, next_ix = 0, vbFlag = False, locked = False\<rparr>"]
  by (auto simp: vss_struct_def intro: vss_table.hash_bucket_lt)

section \<open>Walks\<close>

text \<open>Every walk of a well-formed VSS visits the used entries of the bucket, each once.\<close>

lemma vss_chainE:
  assumes "vss_struct s"
  obtains xs where "chain (vss_storage s) (vss_buckets s ! vss_bucket s l) xs" "distinct xs"
    "\<And>i. i \<in> set xs \<Longrightarrow> i < length (vss_storage s) \<and> used (vss_storage s ! i)"
    "\<And>i. i < length (vss_storage s) \<Longrightarrow> used (vss_storage s ! i) \<Longrightarrow>
       lbid (vss_storage s ! i) = l \<Longrightarrow> i \<in> set xs"
proof -
  from assms have ok: "chains_ok vss_hash (vss_buckets s) (vss_storage s)"
    by (simp add: vss_struct_def)
  from ok vss_bucket_lt [OF assms] obtain xs where
    xs: "chain (vss_storage s) (vss_buckets s ! vss_bucket s l) xs"
      "set xs = members vss_hash (length (vss_buckets s)) (vss_storage s) (vss_bucket s l)"
      "distinct xs" "length xs \<le> length (vss_storage s)" by (rule chains_okE)
  show thesis
  proof
    fix i assume "i < length (vss_storage s)" "used (vss_storage s ! i)" "lbid (vss_storage s ! i) = l"
    then show "i \<in> set xs"
      using vss_bucket_hash [OF assms, of "vss_storage s ! i"] by (simp add: xs(2) members_def)
  qed (use xs in \<open>auto simp: members_def\<close>)
qed

lemma vss_chain_ex:
  "vss_struct s \<Longrightarrow> \<exists>xs. chain (vss_storage s) (vss_buckets s ! vss_bucket s l) xs"
  by (rule vss_chainE [of s l]) (assumption, rule exI)

lemma vss_walk_chain:
  assumes "vss_struct s" "chain (vss_storage s) (vss_buckets s ! vss_bucket s l) xs"
  shows "vss_walk s l body acc = Some (list_walk body (vss_storage s) xs acc)"
  using assms(2) vss_bucket_lt [OF assms(1), of l] chain_length [OF assms(2)]
  by (simp add: vss_walk_def chain_walk_list Let_def del: chain_walk.simps)

section \<open>Insertion\<close>

lemma vss_makeUndoRecord_frame [simp]:
  "vss_hdr (vss_makeUndoRecord a s) = vss_hdr s"
  "vss_buckets (vss_makeUndoRecord a s) = vss_buckets s"
  "vss_storage (vss_makeUndoRecord a s) = vss_storage s"
  "vss_key (vss_makeUndoRecord a s) = vss_key s"
  "vss_alloc (vss_makeUndoRecord a s) = vss_alloc s"
  "vss_attached (vss_makeUndoRecord a s) = vss_attached s"
  by (simp_all add: vss_makeUndoRecord_def)

lemma vss_structD:
  assumes "vss_struct s"
  shows "chains_ok vss_hash (vss_buckets s) (vss_storage s)"
    "int (length (vss_buckets s)) = numHashBuckets (vss_hdr s)"
    "int (length (vss_storage s)) = capacity (vss_hdr s)"
    "0 \<le> LWM (vss_hdr s)" "LWM (vss_hdr s) \<le> capacity (vss_hdr s)"
    "\<And>i. int i < LWM (vss_hdr s) \<Longrightarrow> used (vss_storage s ! i)"
    "nat (capacity (vss_hdr s)) = length (vss_storage s)"
  using assms by (auto simp: vss_struct_def zless_nat_eq_int_zless)

lemma vss_structI:
  assumes "chains_ok vss_hash (vss_buckets s) (vss_storage s)"
    "int (length (vss_buckets s)) = numHashBuckets (vss_hdr s)"
    "int (length (vss_storage s)) = capacity (vss_hdr s)"
    "0 \<le> LWM (vss_hdr s)" "LWM (vss_hdr s) \<le> capacity (vss_hdr s)"
    "\<And>i. int i < LWM (vss_hdr s) \<Longrightarrow> used (vss_storage s ! i)"
  shows "vss_struct s"
  using assms by (auto simp: vss_struct_def zless_nat_eq_int_zless)

lemma vss_find_empty:
  assumes "vss_struct d" "vss_count d < length (vss_storage d)"
  obtains i where "find_empty (vss_storage d) (nat (LWM (vss_hdr d))) = Some i"
    "i < length (vss_storage d)" "\<not> used (vss_storage d ! i)"
    "\<forall>k < i. used (vss_storage d ! k)"
proof -
  note D = vss_structD [OF assms(1)]
  have below: "k < nat (LWM (vss_hdr d)) \<Longrightarrow> used (vss_storage d ! k)" for k
    using D(4,6) by (simp add: zless_nat_eq_int_zless)
  from assms(2) below obtain j where "nat (LWM (vss_hdr d)) \<le> j" "j < length (vss_storage d)"
      "\<not> used (vss_storage d ! j)"
    unfolding vss_count_def by (metis filter_hole)
  then obtain i where i: "find_empty (vss_storage d) (nat (LWM (vss_hdr d))) = Some i"
    using find_empty_exists by blast
  note F = find_empty_Some [OF i]
  have "used (vss_storage d ! k)" if "k < i" for k
    using F that below [of k] by (cases "k < nat (LWM (vss_hdr d))") auto
  with F show thesis by (intro that [OF i]) auto
qed

lemma vss_insert_entry_ok:
  assumes S: "vss_struct d" and u: "used e" and room: "vss_count d < length (vss_storage d)"
  obtains d' n where "vss_insert_entry e loading d = (d', Inr ())" "vss_struct d'"
    "vss_abs d' = add_mset (row e) (vss_abs d)" "vss_count d' = Suc (vss_count d)"
    "vss_hdr d' = (vss_hdr d)\<lparr>LWM := n\<rparr>" "vss_key d' = vss_key d"
    "vss_alloc d' = vss_alloc d" "vss_attached d' = vss_attached d"
    "loading \<longrightarrow> vss_undo d' = vss_undo d"
proof -
  from S room obtain i where i: "find_empty (vss_storage d) (nat (LWM (vss_hdr d))) = Some i"
    "i < length (vss_storage d)" "\<not> used (vss_storage d ! i)"
    "\<forall>k < i. used (vss_storage d ! k)" by (rule vss_find_empty)
  define h where "h = vss_bucket d (lbid e)"
  define e' where "e' = e\<lparr>next_ix := vss_buckets d ! h\<rparr>"
  define d' where "d' = fst (vss_insert_entry e loading d)"
  have ins: "vss_insert_entry e loading d = (d', Inr ())"
    by (simp add: d'_def vss_insert_entry_def i(1) Let_def)
  have f: "vss_hdr d' = (vss_hdr d)\<lparr>LWM := int i + 1\<rparr>"
    "vss_storage d' = (vss_storage d)[i := e']"
    "vss_buckets d' = (vss_buckets d)[h := int i]"
    "vss_key d' = vss_key d" "vss_alloc d' = vss_alloc d" "vss_attached d' = vss_attached d"
    "loading \<longrightarrow> vss_undo d' = vss_undo d"
    by (simp_all add: d'_def vss_insert_entry_def i(1) Let_def e'_def h_def)
  note D = vss_structD [OF S]
  have ok: "chains_ok vss_hash (vss_buckets d') (vss_storage d')"
    unfolding f e'_def using D(1) i(2,3) u vss_bucket_hash [OF S, of e]
    by (intro vss_table.chains_ok_insert) (simp_all add: h_def)
  have ue: "used e'" using u by (simp add: e'_def)
  have "vss_struct d'"
  proof (rule vss_structI)
    fix k assume "int k < LWM (vss_hdr d')"
    then have "k < i \<or> k = i" by (auto simp: f)
    with i ue show "used (vss_storage d' ! k)" by (auto simp: f)
  qed (use ok D i(2) in \<open>auto simp: f\<close>)
  moreover have "vss_abs d' = add_mset (row e) (vss_abs d)"
    using vss_abs_update [OF i(2), of e'] i(3) ue f(2)
    by (simp add: vss_abs_def e'_def)
  moreover have "vss_count d' = Suc (vss_count d)"
    using i(2,3) ue by (simp add: vss_count_def f filter_upd_add)
  ultimately show thesis using ins f by (intro that [of d' "int i + 1"]) simp_all
qed

section \<open>Growth\<close>

lemma vss_copy_loop_ok:
  "vss_struct d \<Longrightarrow> vss_count d + length (filter used es) \<le> length (vss_storage d) \<Longrightarrow>
   \<exists>d' n. vss_copy_loop es d = (d', Inr ()) \<and> vss_struct d'
      \<and> vss_abs d' = vss_abs d + image_mset row (filter_mset used (mset es))
      \<and> vss_hdr d' = (vss_hdr d)\<lparr>LWM := n\<rparr> \<and> vss_key d' = vss_key d
      \<and> vss_alloc d' = vss_alloc d \<and> vss_attached d' = vss_attached d \<and> vss_undo d' = vss_undo d"
proof (induction es arbitrary: d)
  case Nil
  then show ?case by (intro exI [of _ d] exI [of _ "LWM (vss_hdr d)"]) simp
next
  case (Cons e es)
  show ?case
  proof (cases "used e")
    case True
    with Cons.prems have "vss_count d < length (vss_storage d)" by simp
    from Cons.prems(1) True this obtain d1 n1 where d1: "vss_insert_entry e True d = (d1, Inr ())"
      "vss_struct d1" "vss_abs d1 = add_mset (row e) (vss_abs d)" "vss_count d1 = Suc (vss_count d)"
      "vss_hdr d1 = (vss_hdr d)\<lparr>LWM := n1\<rparr>" "vss_key d1 = vss_key d"
      "vss_alloc d1 = vss_alloc d" "vss_attached d1 = vss_attached d"
      "True \<longrightarrow> vss_undo d1 = vss_undo d" by (rule vss_insert_entry_ok)
    have "capacity (vss_hdr d1) = capacity (vss_hdr d)" by (simp add: d1(5))
    then have "length (vss_storage d1) = length (vss_storage d)"
      using vss_structD(7) [OF d1(2)] vss_structD(7) [OF Cons.prems(1)] by simp
    with Cons.prems(2) True d1(4) have "vss_count d1 + length (filter used es) \<le> length (vss_storage d1)"
      by simp
    from Cons.IH [OF d1(2) this] obtain d' n2 where d': "vss_copy_loop es d1 = (d', Inr ())" "vss_struct d'"
      "vss_abs d' = vss_abs d1 + image_mset row (filter_mset used (mset es))"
      "vss_hdr d' = (vss_hdr d1)\<lparr>LWM := n2\<rparr>" "vss_key d' = vss_key d1"
      "vss_alloc d' = vss_alloc d1" "vss_attached d' = vss_attached d1" "vss_undo d' = vss_undo d1"
      by blast
    from d1 d' True have "vss_copy_loop (e # es) d = (d', Inr ())"
      "vss_abs d' = vss_abs d + image_mset row (filter_mset used (mset (e # es)))"
      "vss_hdr d' = (vss_hdr d)\<lparr>LWM := n2\<rparr>"
      by (simp_all add: used_def)
    with d1(6-9) d'(2,5-8) show ?thesis by auto
  next
    case False
    then have "vss_copy_loop (e # es) d = vss_copy_loop es d" by (simp add: used_def)
    with Cons.IH [OF Cons.prems(1)] Cons.prems(2) False show ?thesis by simp
  qed
qed

lemma vss_struct_fresh:
  assumes "int (length (vss_buckets d)) = numHashBuckets (vss_hdr d)" "0 < numHashBuckets (vss_hdr d)"
    "vss_buckets d = replicate (nat (numHashBuckets (vss_hdr d))) (-1)"
    "vss_storage d = replicate (nat (capacity (vss_hdr d))) empty_entry"
    "0 \<le> capacity (vss_hdr d)" "LWM (vss_hdr d) = 0"
  shows "vss_struct d" "vss_count d = 0" "vss_abs d = {#}"
proof -
  have e: "\<not> used empty_entry" by (simp add: used_def empty_entry_def)
  show "vss_struct d"
  proof (rule vss_structI)
    show "chains_ok vss_hash (vss_buckets d) (vss_storage d)"
      unfolding assms(3,4) using assms(2) e by (intro vss_table.chains_ok_empty) auto
  qed (use assms in simp_all)
  show "vss_count d = 0" "vss_abs d = {#}"
    using e by (simp_all add: vss_count_def vss_abs_def assms(4))
qed

lemma vss_copyVSS_ok:
  assumes "0 < numHashBuckets (vss_hdr dest)" "0 \<le> capacity (vss_hdr dest)" "LWM (vss_hdr dest) = 0"
    and "length (filter used (take (nat (currentSize (vss_hdr s))) (vss_storage s)))
           \<le> nat (capacity (vss_hdr dest))"
  shows "\<exists>d' n. vss_copyVSS s dest = (d', Inr ()) \<and> vss_struct d'
      \<and> vss_abs d' =
          image_mset row (filter_mset used (mset (take (nat (currentSize (vss_hdr s))) (vss_storage s))))
      \<and> vss_hdr d' = (vss_hdr dest)\<lparr>currentSize := currentSize (vss_hdr s),
          lockedEntryCount := lockedEntryCount (vss_hdr s), LWM := n\<rparr>
      \<and> vss_key d' = vss_key dest \<and> vss_alloc d' = vss_alloc dest
      \<and> vss_attached d' = vss_attached dest \<and> vss_undo d' = vss_undo dest"
proof -
  define d where "d = dest\<lparr>
        vss_hdr := (vss_hdr dest)\<lparr>currentSize := currentSize (vss_hdr s),
                                  lockedEntryCount := lockedEntryCount (vss_hdr s)\<rparr>,
        vss_buckets := replicate (nat (numHashBuckets (vss_hdr dest))) (-1),
        vss_storage := replicate (nat (capacity (vss_hdr dest))) empty_entry\<rparr>"
  have d: "vss_struct d" "vss_count d = 0" "vss_abs d = {#}"
    by (rule vss_struct_fresh; use assms in \<open>simp add: d_def\<close>)+
  have len: "length (vss_storage d) = nat (capacity (vss_hdr dest))" by (simp add: d_def)
  have "vss_copyVSS s dest = vss_copy_loop (take (nat (currentSize (vss_hdr s))) (vss_storage s)) d"
    by (simp add: vss_copyVSS_def d_def)
  with vss_copy_loop_ok [OF d(1), of "take (nat (currentSize (vss_hdr s))) (vss_storage s)"]
    assms(4) d(2,3) len show ?thesis by (auto simp: d_def)
qed

lemma VSS_sizes:
  "VSS_INITIAL_SIZE = 5000020" "VSS_INCREMENT = 500000"
  "VSSSTORAGE_INCREMENT_COUNT = 20000" "VSSTABLE_INCREMENT_COUNT = 5000"
  "VSSSTORAGE_INITIAL_COUNT = 200000" "VSSTABLE_INITIAL_COUNT = 50000"
  by (simp_all add: VSS_INITIAL_SIZE_def VSS_INCREMENT_def VSSSTORAGE_INCREMENT_COUNT_def
      VSSTABLE_INCREMENT_COUNT_def VSSSTORAGE_INITIAL_COUNT_def VSSTABLE_INITIAL_COUNT_def)

lemma vss_growVSS_ok:
  assumes wf: "vss_wf s" and full: "currentSize (vss_hdr s) = capacity (vss_hdr s)"
  shows "\<exists>t n. vss_growVSS s = (t, Inr ()) \<and> vss_wf t \<and> vss_abs t = vss_abs s
      \<and> vss_hdr t = (vss_hdr s)\<lparr>capacity := capacity (vss_hdr s) + VSSSTORAGE_INCREMENT_COUNT,
            numHashBuckets := numHashBuckets (vss_hdr s) + VSSTABLE_INCREMENT_COUNT, LWM := n\<rparr>
      \<and> vss_undo t = vss_undo s \<and> vss_key t = vss_chooseShmkey s"
proof -
  from wf have S: "vss_struct s" and at: "vss_attached s" and al: "VSS_INITIAL_SIZE \<le> vss_alloc s"
    and cs: "currentSize (vss_hdr s) = int (vss_count s)" by (simp_all add: vss_wf_def)
  note D = vss_structD [OF S]
  have tk: "take (nat (currentSize (vss_hdr s))) (vss_storage s) = vss_storage s"
    by (simp add: full D(7))
  define dest where "dest = s\<lparr>vss_key := vss_chooseShmkey s, vss_alloc := vss_alloc s + VSS_INCREMENT,
      vss_hdr := (vss_hdr s)\<lparr>capacity := capacity (vss_hdr s) + VSSSTORAGE_INCREMENT_COUNT,
        numHashBuckets := numHashBuckets (vss_hdr s) + VSSTABLE_INCREMENT_COUNT, LWM := 0\<rparr>\<rparr>"
  have nb: "0 < numHashBuckets (vss_hdr dest)"
    by (simp add: dest_def VSS_sizes flip: D(2))
  have cap: "0 \<le> capacity (vss_hdr dest)" "length (vss_storage s) \<le> nat (capacity (vss_hdr dest))"
    by (simp_all add: dest_def VSS_sizes flip: D(3))
  have "length (filter used (take (nat (currentSize (vss_hdr s))) (vss_storage s)))
      \<le> nat (capacity (vss_hdr dest))"
    unfolding tk by (rule order.trans [OF length_filter_le cap(2)])
  moreover have lwm: "LWM (vss_hdr dest) = 0" by (simp add: dest_def)
  moreover have "image_mset row (filter_mset used (mset (take (nat (currentSize (vss_hdr s))) (vss_storage s))))
      = vss_abs s" by (simp only: tk vss_abs_def)
  ultimately obtain d' n where
    d': "vss_copyVSS s dest = (d', Inr ())" "vss_struct d'" "vss_abs d' = vss_abs s"
      "vss_hdr d' = (vss_hdr dest)\<lparr>currentSize := currentSize (vss_hdr s),
          lockedEntryCount := lockedEntryCount (vss_hdr s), LWM := n\<rparr>"
      "vss_key d' = vss_key dest" "vss_alloc d' = vss_alloc dest"
      "vss_attached d' = vss_attached dest" "vss_undo d' = vss_undo dest"
    using vss_copyVSS_ok [OF nb cap(1), of s] by metis
  have "vss_growVSS s = (d', Inr ())"
    using at al d'(1) by (simp add: vss_growVSS_def Let_def VSS_sizes dest_def)
  moreover have "vss_wf d'"
    using d' cs at al by (simp add: vss_wf_def dest_def VSS_sizes flip: size_vss_abs)
  ultimately show ?thesis using d' by (intro exI [of _ d'] exI [of _ n]) (simp add: dest_def)
qed

text \<open>\<^verbatim>\<open>VSS::insert\<close> always succeeds and adds exactly one row.\<close>

lemma vss_insert_ok:
  assumes wf: "vss_wf s" and l: "l \<noteq> -1"
  shows "\<exists>t. vss_insert l v vb lk loading s = (t, Inr ()) \<and> vss_wf t
      \<and> vss_abs t = add_mset (l, v, vb, lk) (vss_abs s)
      \<and> lockedEntryCount (vss_hdr t) = lockedEntryCount (vss_hdr s) + of_bool lk
      \<and> (loading \<longrightarrow> vss_undo t = vss_undo s)"
proof -
  define e where "e = \<lparr>lbid = l, verID = v, next_ix = -1, vbFlag = vb, locked = lk\<rparr>"
  have e: "used e" "row e = (l, v, vb, lk)" using l by (simp_all add: e_def used_def row_def)
  obtain s1 where s1: "(if currentSize (vss_hdr s) = capacity (vss_hdr s) then vss_growVSS s else (s, Inr ()))
        = (s1, Inr ())" "vss_wf s1" "vss_abs s1 = vss_abs s" "vss_undo s1 = vss_undo s"
      "currentSize (vss_hdr s1) < capacity (vss_hdr s1)"
      "lockedEntryCount (vss_hdr s1) = lockedEntryCount (vss_hdr s)"
  proof (cases "currentSize (vss_hdr s) = capacity (vss_hdr s)")
    case True
    from vss_growVSS_ok [OF wf True] obtain t n where
      "vss_growVSS s = (t, Inr ())" "vss_wf t" "vss_abs t = vss_abs s" "vss_undo t = vss_undo s"
      "vss_hdr t = (vss_hdr s)\<lparr>capacity := capacity (vss_hdr s) + VSSSTORAGE_INCREMENT_COUNT,
            numHashBuckets := numHashBuckets (vss_hdr s) + VSSTABLE_INCREMENT_COUNT, LWM := n\<rparr>" by blast
    with True show thesis by (intro that [of t]) (simp_all add: VSS_sizes)
  next
    case False
    from wf have S: "vss_struct s" and "currentSize (vss_hdr s) = int (vss_count s)"
      by (simp_all add: vss_wf_def)
    then have "currentSize (vss_hdr s) \<le> capacity (vss_hdr s)"
      by (simp add: vss_count_def flip: vss_structD(3) [OF S])
    with False wf show thesis by (intro that [of s]) simp_all
  qed
  from s1(2) have S1: "vss_struct s1" and c1: "currentSize (vss_hdr s1) = int (vss_count s1)"
    by (simp_all add: vss_wf_def)
  from s1(5) c1 have room: "vss_count s1 < length (vss_storage s1)"
    by (simp flip: vss_structD(3) [OF S1])
  from S1 e(1) room obtain d n where d: "vss_insert_entry e loading s1 = (d, Inr ())" "vss_struct d"
    "vss_abs d = add_mset (row e) (vss_abs s1)" "vss_count d = Suc (vss_count s1)"
    "vss_hdr d = (vss_hdr s1)\<lparr>LWM := n\<rparr>" "vss_key d = vss_key s1"
    "vss_alloc d = vss_alloc s1" "vss_attached d = vss_attached s1"
    "loading \<longrightarrow> vss_undo d = vss_undo s1" by (rule vss_insert_entry_ok)
  define d1 where "d1 = (if loading then d else vss_makeUndoRecord CurrentSizeAt d)"
  define t where "t = d1\<lparr>vss_hdr := (vss_hdr d1)\<lparr>currentSize := currentSize (vss_hdr d1) + 1,
      lockedEntryCount := lockedEntryCount (vss_hdr d1) + of_bool lk\<rparr>\<rparr>"
  have t: "vss_insert l v vb lk loading s = (t, Inr ())"
    unfolding vss_insert_def Let_def e_def [symmetric] s1(1) and_then_simps d(1) d1_def [symmetric]
    by (simp add: t_def)
  have f: "vss_buckets t = vss_buckets d" "vss_storage t = vss_storage d"
      "vss_alloc t = vss_alloc d" "vss_attached t = vss_attached d"
      "vss_hdr t = (vss_hdr d)\<lparr>currentSize := currentSize (vss_hdr d) + 1,
         lockedEntryCount := lockedEntryCount (vss_hdr d) + of_bool lk\<rparr>"
      "loading \<longrightarrow> vss_undo t = vss_undo d"
    by (simp_all add: t_def d1_def)
  have "vss_struct t" using d(2) by (simp add: vss_struct_def f)
  moreover have "vss_abs t = vss_abs d" "vss_count t = vss_count d"
    by (simp_all add: vss_abs_def vss_count_def f)
  ultimately have "vss_wf t \<and> vss_abs t = add_mset (l, v, vb, lk) (vss_abs s)"
    using d s1 c1 e by (simp add: vss_wf_def f)
  moreover have "lockedEntryCount (vss_hdr t) = lockedEntryCount (vss_hdr s) + of_bool lk"
    using d(5) s1(6) by (simp add: f)
  moreover have "loading \<longrightarrow> vss_undo t = vss_undo s" using f(6) d(9) s1(4) by simp
  ultimately show ?thesis using t by blast
qed

end
