(* ===== verification/VSS_Read.thy ===== *)
theory VSS_Read
  imports VSS_Inv
begin

text \<open>
  What the read operations of the VSS return, in terms of the rows of the table. The central one is
  \<^verbatim>\<open>VSS::lookup\<close>, the snapshot read: the order of the entries in their hash list, the early return
  and the loop's three variables do not show in its result.
\<close>

section \<open>The rows of one block\<close>

definition vss_block :: "VSS \<Rightarrow> LBID_t \<Rightarrow> vss_row set" where
  "vss_block s l = {r. r \<in># vss_abs s \<and> fst r = l}"

lemma vss_block_chainE:
  assumes "vss_struct s" "l \<noteq> -1"
  obtains xs where "chain (vss_storage s) (vss_buckets s ! vss_bucket s l) xs"
    "\<forall>i \<in> set xs. i < length (vss_storage s) \<and> used (vss_storage s ! i)"
    "vss_block s l = row ` {vss_storage s ! i | i. i \<in> set xs \<and> lbid (vss_storage s ! i) = l}"
proof -
  from assms(1) obtain xs where xs: "chain (vss_storage s) (vss_buckets s ! vss_bucket s l) xs"
    "\<And>i. i \<in> set xs \<Longrightarrow> i < length (vss_storage s) \<and> used (vss_storage s ! i)"
    "\<And>i. i < length (vss_storage s) \<Longrightarrow> used (vss_storage s ! i) \<Longrightarrow>
       lbid (vss_storage s ! i) = l \<Longrightarrow> i \<in> set xs" by (rule vss_chainE [of s l]) blast
  have "vss_block s l = row ` {vss_storage s ! i | i. i \<in> set xs \<and> lbid (vss_storage s ! i) = l}"
  proof (intro set_eqI iffI)
    fix r assume "r \<in> vss_block s l"
    then obtain i where "i < length (vss_storage s)" "used (vss_storage s ! i)"
      "r = row (vss_storage s ! i)" "lbid (vss_storage s ! i) = l"
      by (auto simp: vss_block_def mem_vss_abs row_def)
    with xs(3) show "r \<in> row ` {vss_storage s ! i | i. i \<in> set xs \<and> lbid (vss_storage s ! i) = l}"
      by blast
  next
    fix r assume "r \<in> row ` {vss_storage s ! i | i. i \<in> set xs \<and> lbid (vss_storage s ! i) = l}"
    with xs(2) show "r \<in> vss_block s l"
      by (auto simp: vss_block_def mem_vss_abs row_def)
  qed
  with xs that show thesis by blast
qed

section \<open>Snapshot reads\<close>

text \<open>
  The versions of a block that a reader can use: not those of other transactions that were active
  when the snapshot was taken, and only those in the version buffer when \<^verbatim>\<open>vbOnly\<close> is set.
\<close>

fun vss_visible :: "QueryContext_vss \<Rightarrow> VER_t \<Rightarrow> bool \<Rightarrow> vss_row \<Rightarrow> bool" where
  "vss_visible q txnID vbOnly (l, v, vb, lk) =
     ((vbOnly \<longrightarrow> vb) \<and> (v = txnID \<or> v \<notin> txns q))"

text \<open>The contract of \<^verbatim>\<open>lookup\<close> over the usable rows \<open>V\<close> of a block.\<close>

definition lookup_result :: "vss_row set \<Rightarrow> VER_t \<Rightarrow> int \<times> VER_t \<times> bool \<Rightarrow> bool" where
  "lookup_result V scn r =
     (case r of (rc, v, vb) \<Rightarrow>
      if \<exists>(l, w, x, lk) \<in> V. w \<le> scn
      then rc = 0 \<and> v \<le> scn \<and> (\<exists>l lk. (l, v, vb, lk) \<in> V) \<and> (\<forall>(l, w, x, lk) \<in> V. w \<le> scn \<longrightarrow> w \<le> v)
      else if V \<noteq> {} then rc = ERR_SNAPSHOT_TOO_OLD \<and> v = 0 \<and> \<not> vb
      else rc = -1 \<and> v = 0 \<and> \<not> vb)"

text \<open>The loop invariant: \<open>V\<close> is the set of usable entries met so far.\<close>

fun lookup_inv :: "VER_t \<Rightarrow> VSSEntry set \<Rightarrow> VER_t \<times> VER_t \<times> VSSEntry option \<Rightarrow> bool" where
  "lookup_inv scn V (mx, mn, me) \<longleftrightarrow>
     (\<forall>e \<in> V. verID e \<noteq> scn \<and> 0 \<le> verID e) \<and>
     (if V = {} then mn = -1 else mn \<in> verID ` V \<and> (\<forall>e \<in> V. mn \<le> verID e)) \<and>
     (case me of
        None \<Rightarrow> mx = -1 \<and> (\<forall>e \<in> V. scn < verID e)
      | Some m \<Rightarrow> m \<in> V \<and> verID m = mx \<and> mx < scn \<and> (\<forall>e \<in> V. verID e < scn \<longrightarrow> verID e \<le> mx))"

abbreviation lookup_usable :: "LBID_t \<Rightarrow> QueryContext_vss \<Rightarrow> VER_t \<Rightarrow> bool \<Rightarrow> VSSEntry \<Rightarrow> bool" where
  "lookup_usable l q txnID vbOnly e \<equiv> lbid e = l \<and> vss_visible q txnID vbOnly (row e)"

lemma lookup_body_cases:
  assumes inv: "lookup_inv (currentScn q) V acc" and pos: "0 \<le> verID e"
  shows "case vss_lookup_body l q txnID vbOnly i e acc of
      Inl r \<Rightarrow> lookup_usable l q txnID vbOnly e \<and> verID e = currentScn q \<and> r = (0, verID e, vbFlag e)
    | Inr acc' \<Rightarrow>
        lookup_inv (currentScn q) (if lookup_usable l q txnID vbOnly e then insert e V else V) acc'"
proof (cases "lookup_usable l q txnID vbOnly e")
  case False
  then have "vss_lookup_body l q txnID vbOnly i e acc = Inr acc"
    by (cases acc) (auto simp: vss_lookup_body_def row_def)
  with inv show ?thesis by (simp only: sum.case if_not_P [OF False])
next
  case True
  obtain mx mn me where acc: "acc = (mx, mn, me)" by (cases acc)
  have body: "vss_lookup_body l q txnID vbOnly i e acc =
      (if currentScn q = verID e then Inl (0, verID e, vbFlag e)
       else let mn = (if mn > verID e \<or> mn = -1 then verID e else mn)
            in if currentScn q > verID e \<and> mx < verID e then Inr (verID e, mn, Some e)
               else Inr (mx, mn, me))"
    using True by (auto simp: vss_lookup_body_def acc row_def)
  show ?thesis
  proof (cases "currentScn q = verID e")
    case True
    with body \<open>lookup_usable l q txnID vbOnly e\<close> show ?thesis by simp
  next
    case False
    have mn: "(if mn > verID e \<or> mn = -1 then verID e else mn) \<in> verID ` insert e V
        \<and> (\<forall>x \<in> insert e V. (if mn > verID e \<or> mn = -1 then verID e else mn) \<le> verID x)"
      using inv pos by (auto simp: acc split: if_splits)
    from False pos inv True mn show ?thesis
      unfolding body by (cases me) (auto simp: acc Let_def)
  qed
qed

lemma lookup_walk_mono:
  assumes "case r of Inl a \<Rightarrow> \<exists>x \<in> A. P x a | Inr b \<Rightarrow> Q b" "A \<subseteq> B"
  shows "case r of Inl a \<Rightarrow> \<exists>x \<in> B. P x a | Inr b \<Rightarrow> Q b"
  using assms by (cases r) auto

lemma lookup_walk:
  assumes "lookup_inv (currentScn q) V acc" "\<forall>x \<in> set xs. lbid (st ! x) = l \<longrightarrow> 0 \<le> verID (st ! x)"
  shows "case list_walk (vss_lookup_body l q txnID vbOnly) st xs acc of
      Inl r \<Rightarrow> \<exists>x \<in> set xs. lookup_usable l q txnID vbOnly (st ! x) \<and>
                 verID (st ! x) = currentScn q \<and> r = (0, verID (st ! x), vbFlag (st ! x))
    | Inr acc' \<Rightarrow> lookup_inv (currentScn q)
        (V \<union> {st ! x | x. x \<in> set xs \<and> lookup_usable l q txnID vbOnly (st ! x)}) acc'"
  using assms
proof (induction xs arbitrary: V acc)
  case (Cons x xs)
  let ?e = "st ! x"
  have step: "case vss_lookup_body l q txnID vbOnly (int x) ?e acc of
      Inl r \<Rightarrow> lookup_usable l q txnID vbOnly ?e \<and> verID ?e = currentScn q \<and> r = (0, verID ?e, vbFlag ?e)
    | Inr acc' \<Rightarrow>
        lookup_inv (currentScn q) (if lookup_usable l q txnID vbOnly ?e then insert ?e V else V) acc'"
  proof (cases "lbid ?e = l")
    case True
    with Cons.prems show ?thesis by (intro lookup_body_cases) simp_all
  next
    case False
    then have "vss_lookup_body l q txnID vbOnly (int x) ?e acc = Inr acc"
      by (cases acc) (simp add: vss_lookup_body_def)
    with False Cons.prems show ?thesis by simp
  qed
  show ?case
  proof (cases "vss_lookup_body l q txnID vbOnly (int x) ?e acc")
    case (Inl r)
    with step show ?thesis by (auto intro: bexI [of _ x])
  next
    case (Inr acc')
    let ?V = "if lookup_usable l q txnID vbOnly ?e then insert ?e V else V"
    have eq: "V \<union> {st ! y | y. y \<in> set (x # xs) \<and> lookup_usable l q txnID vbOnly (st ! y)} =
        ?V \<union> {st ! y | y. y \<in> set xs \<and> lookup_usable l q txnID vbOnly (st ! y)}" by auto
    have "lookup_inv (currentScn q) ?V acc'" using step Inr by simp
    note IH = Cons.IH [OF this]
    from Cons.prems(2) have "\<forall>x \<in> set xs. lbid (st ! x) = l \<longrightarrow> 0 \<le> verID (st ! x)" by simp
    from IH [OF this] show ?thesis unfolding eq list_walk.simps Inr sum.case
      by (rule lookup_walk_mono) auto
  qed
qed simp

lemma lookup_result_hit: "(l, scn, vb, lk) \<in> V \<Longrightarrow> lookup_result V scn (0, scn, vb)"
  by (force simp: lookup_result_def)

lemma lookup_inv_result:
  assumes "lookup_inv scn V (mx, mn, me)" "0 \<le> scn"
  shows "lookup_result (row ` V) scn
    (case me of Some e \<Rightarrow> (0, mx, vbFlag e)
     | None \<Rightarrow> if mn > scn then (ERR_SNAPSHOT_TOO_OLD, 0, False) else (-1, 0, False))"
proof (cases me)
  case (Some m)
  with assms have m: "m \<in> V" "verID m = mx" "mx < scn" "\<forall>e \<in> V. verID e < scn \<longrightarrow> verID e \<le> mx"
    and ne: "\<forall>e \<in> V. verID e \<noteq> scn" by auto
  from m have "(lbid m, mx, vbFlag m, locked m) \<in> row ` V" by (force simp: row_def)
  moreover have "\<forall>(l, w, x, lk) \<in> row ` V. w \<le> scn \<longrightarrow> w \<le> mx"
    using m(4) ne by (fastforce simp: row_def order.order_iff_strict)
  ultimately show ?thesis using m(3) unfolding Some lookup_result_def
    by (auto intro!: bexI [of _ "(lbid m, mx, vbFlag m, locked m)"])
next
  case None
  with assms have "\<forall>e \<in> V. scn < verID e" by simp
  moreover from this assms None have "mn > scn \<longleftrightarrow> V \<noteq> {}" by (auto split: if_splits)
  ultimately show ?thesis unfolding None lookup_result_def by (auto simp: row_def)
qed

lemma vss_lookup_struct:
  assumes s: "vss_struct s" and l: "l \<noteq> -1" and scn: "0 \<le> currentScn q"
    and pos: "\<forall>(l', v, vb, lk) \<in> vss_block s l. 0 \<le> v"
  shows "\<exists>r. vss_lookup s l q txnID vbOnly = Some r \<and>
      lookup_result {x \<in> vss_block s l. vss_visible q txnID vbOnly x} (currentScn q) r"
proof -
  let ?st = "vss_storage s" and ?body = "vss_lookup_body l q txnID vbOnly"
  from s l obtain xs where xs: "chain ?st (vss_buckets s ! vss_bucket s l) xs"
    "vss_block s l = row ` {?st ! i | i. i \<in> set xs \<and> lbid (?st ! i) = l}"
    by (rule vss_block_chainE)
  let ?V = "{?st ! x | x. x \<in> set xs \<and> lookup_usable l q txnID vbOnly (?st ! x)}"
  have V: "{x \<in> vss_block s l. vss_visible q txnID vbOnly x} = row ` ?V"
    unfolding xs(2) by blast
  have posx: "\<forall>x \<in> set xs. lbid (?st ! x) = l \<longrightarrow> 0 \<le> verID (?st ! x)"
    using pos unfolding xs(2) by (fastforce simp: row_def)
  have "lookup_inv (currentScn q) {} (-1, -1, None)" by simp
  note W = lookup_walk [OF this posx, of txnID vbOnly, unfolded Un_empty_left]
  show ?thesis
  proof (cases "list_walk ?body ?st xs (-1, -1, None)")
    case (Inl r)
    with W obtain x where x: "x \<in> set xs" "lookup_usable l q txnID vbOnly (?st ! x)"
      "verID (?st ! x) = currentScn q" "r = (0, verID (?st ! x), vbFlag (?st ! x))" by auto
    then have "row (?st ! x) \<in> row ` ?V" by blast
    then have "lookup_result (row ` ?V) (currentScn q) r"
      unfolding x(4) row_def [of "?st ! x"] x(3) by (rule lookup_result_hit)
    moreover have "vss_lookup s l q txnID vbOnly = Some r"
      by (simp add: vss_lookup_def vss_walk_chain [OF s xs(1)] Inl)
    ultimately show ?thesis unfolding V by blast
  next
    case (Inr acc)
    obtain mx mn me where acc: "acc = (mx, mn, me)" by (cases acc)
    with W Inr have "lookup_inv (currentScn q) ?V (mx, mn, me)" by simp
    note R = lookup_inv_result [OF this scn]
    have "vss_lookup s l q txnID vbOnly = Some (case me of Some e \<Rightarrow> (0, mx, vbFlag e)
     | None \<Rightarrow> if mn > currentScn q then (ERR_SNAPSHOT_TOO_OLD, 0, False) else (-1, 0, False))"
      unfolding vss_lookup_def vss_walk_chain [OF s xs(1)] Inr acc by (cases me) simp_all
    with R show ?thesis unfolding V by blast
  qed
qed

section \<open>The other list walks\<close>

lemma vss_walk_find:
  assumes s: "vss_struct s" and l: "l \<noteq> -1"
    and body: "\<And>i e a. body i e a = (if lbid e = l \<and> P (row e) then Inl (g (row e)) else Inr a)"
  shows "(\<exists>r \<in> vss_block s l. P r \<and> vss_walk s l body acc = Some (Inl (g r)))
    \<or> (\<forall>r \<in> vss_block s l. \<not> P r) \<and> vss_walk s l body acc = Some (Inr acc)"
proof -
  let ?st = "vss_storage s"
  from s l obtain xs where xs: "chain ?st (vss_buckets s ! vss_bucket s l) xs"
    "vss_block s l = row ` {?st ! i | i. i \<in> set xs \<and> lbid (?st ! i) = l}"
    by (rule vss_block_chainE)
  let ?Q = "\<lambda>e. lbid e = l \<and> P (row e)"
  have w: "vss_walk s l body acc =
      Some (case find (\<lambda>x. ?Q (?st ! x)) xs of None \<Rightarrow> Inr acc | Some x \<Rightarrow> Inl (g (row (?st ! x))))"
    unfolding vss_walk_chain [OF s xs(1)]
    by (subst list_walk_find [where P = ?Q and g = "\<lambda>e. g (row e)"]) (auto simp: body)
  show ?thesis
  proof (cases "find (\<lambda>x. ?Q (?st ! x)) xs")
    case None
    then have "\<forall>r \<in> vss_block s l. \<not> P r" by (auto simp: find_None_iff xs(2))
    with None w show ?thesis by simp
  next
    case (Some x)
    then have "x \<in> set xs" "?Q (?st ! x)" by (auto simp: find_Some_iff)
    then have "row (?st ! x) \<in> vss_block s l" "P (row (?st ! x))" by (auto simp: xs(2))
    with Some w show ?thesis by auto
  qed
qed

lemma vss_walk_fold:
  assumes s: "vss_struct s" and l: "l \<noteq> -1"
    and body: "\<And>i e a. body i e a = Inr (if lbid e = l then f (row e) a else a)"
  obtains rs where "set rs = vss_block s l" "vss_walk s l body acc = Some (Inr (fold f rs acc))"
proof -
  let ?st = "vss_storage s"
  from s l obtain xs where xs: "chain ?st (vss_buckets s ! vss_bucket s l) xs"
    "vss_block s l = row ` {?st ! i | i. i \<in> set xs \<and> lbid (?st ! i) = l}"
    by (rule vss_block_chainE)
  let ?rs = "map (\<lambda>x. row (?st ! x)) (filter (\<lambda>x. lbid (?st ! x) = l) xs)"
  have "fold (\<lambda>x a. if lbid (?st ! x) = l then f (row (?st ! x)) a else a) xs acc = fold f ?rs acc" for acc
    by (induction xs arbitrary: acc) simp_all
  then have "vss_walk s l body acc = Some (Inr (fold f ?rs acc))"
    unfolding vss_walk_chain [OF s xs(1)]
    by (subst list_walk_fold [where f = "\<lambda>e a. if lbid e = l then f (row e) a else a"]) (auto simp: body)
  moreover have "set ?rs = vss_block s l" by (auto simp: xs(2))
  ultimately show thesis using that by blast
qed

lemma vss_getCurrentVersion_struct:
  assumes "vss_struct s" "l \<noteq> -1"
  shows "(\<exists>v lk. (l, v, False, lk) \<in> vss_block s l \<and> vss_getCurrentVersion s l = Some (v, lk))
    \<or> (\<forall>v lk. (l, v, False, lk) \<notin> vss_block s l) \<and> vss_getCurrentVersion s l = Some (0, False)"
proof -
  let ?P = "\<lambda>(l :: LBID_t, v :: VER_t, vb, lk :: bool). \<not> vb" and ?g = "\<lambda>(l :: LBID_t, v :: VER_t, vb :: bool, lk :: bool). (v, lk)"
  let ?b = "\<lambda>i (e :: VSSEntry) acc. if lbid e = l \<and> \<not> vbFlag e then Inl (verID e, locked e) else Inr acc"
  have "?b i e a = (if lbid e = l \<and> ?P (row e) then Inl (?g (row e)) else Inr a)" for i e a
    by (simp add: row_def)
  from vss_walk_find [OF assms this, of "()"] show ?thesis
    by (auto simp: vss_getCurrentVersion_def vss_block_def)
qed

lemma vss_isVersioned_struct:
  assumes "vss_struct s" "l \<noteq> -1"
  shows "(\<exists>vb lk. (l, v, vb, lk) \<in> vss_block s l \<and> vss_isVersioned s l v = Some vb)
    \<or> (\<forall>vb lk. (l, v, vb, lk) \<notin> vss_block s l) \<and> vss_isVersioned s l v = Some False"
proof -
  let ?P = "\<lambda>(l :: LBID_t, w :: VER_t, vb :: bool, lk :: bool). w = v" and ?g = "\<lambda>(l :: LBID_t, v :: VER_t, vb :: bool, lk :: bool). vb"
  let ?b = "\<lambda>i (e :: VSSEntry) acc. if lbid e = l \<and> verID e = v then Inl (vbFlag e) else Inr acc"
  have "?b i e a = (if lbid e = l \<and> ?P (row e) then Inl (?g (row e)) else Inr a)" for i e a
    by (simp add: row_def)
  from vss_walk_find [OF assms this, of "()"] show ?thesis
    by (auto simp: vss_isVersioned_def vss_block_def)
qed

lemma fold_highest:
  fixes P :: "'r \<Rightarrow> bool" and ver :: "'r \<Rightarrow> int"
  defines "f \<equiv> \<lambda>r m. if P r \<and> ver r > m then ver r else m"
  shows "m \<le> fold f rs m \<and> (fold f rs m = m \<or> (\<exists>r \<in> set rs. P r \<and> ver r = fold f rs m))
    \<and> (\<forall>r \<in> set rs. P r \<longrightarrow> ver r \<le> fold f rs m)"
proof (induction rs arbitrary: m)
  case (Cons r rs)
  have "m \<le> f r m" "P r \<Longrightarrow> ver r \<le> f r m" "f r m = m \<or> P r \<and> ver r = f r m"
    by (simp_all add: f_def)
  with Cons [of "f r m"] show ?case by fastforce
qed simp

lemma highest_unique:
  fixes M :: "'a :: {linorder, zero}"
  shows "M = 0 \<or> A M \<Longrightarrow> \<forall>w. A w \<longrightarrow> w \<le> M \<Longrightarrow> 0 < v \<Longrightarrow> v = M \<longleftrightarrow> A v \<and> (\<forall>w. A w \<longrightarrow> w \<le> v)"
  by (auto intro: antisym)

lemma vss_getHighestVerInVB_struct:
  assumes "vss_struct s" "l \<noteq> -1"
  shows "\<exists>w. vss_getHighestVerInVB s l mx = Some w
    \<and> (w = -1 \<or> w \<le> mx \<and> (\<exists>lk. (l, w, True, lk) \<in> vss_block s l)) \<and> -1 \<le> w
    \<and> (\<forall>v lk. (l, v, True, lk) \<in> vss_block s l \<longrightarrow> v \<le> mx \<longrightarrow> v \<le> w)"
proof -
  let ?P = "\<lambda>(l :: LBID_t, v, vb, lk :: bool). vb \<and> v \<le> mx"
    and ?ver = "\<lambda>(l :: LBID_t, v :: VER_t, vb :: bool, lk :: bool). v"
  let ?f = "\<lambda>r m. if ?P r \<and> ?ver r > m then ?ver r else m"
  let ?b = "\<lambda>i (e :: VSSEntry) ret. if (lbid e = l \<and> vbFlag e) \<and> (verID e \<le> mx \<and> verID e > ret)
                        then Inr (verID e) else (Inr ret :: unit + VER_t)"
  have "?b i e a = Inr (if lbid e = l then ?f (row e) a else a)" for i e a
    by (simp add: row_def)
  from vss_walk_fold [OF assms this, of "-1"] obtain rs where
    rs: "set rs = vss_block s l" "vss_walk s l ?b (-1) = Some (Inr (fold ?f rs (-1)))" by blast
  define M where "M = fold ?f rs (-1)"
  have "-1 \<le> M" and M: "M = -1 \<or> (\<exists>r \<in> set rs. ?P r \<and> ?ver r = M)" "\<forall>r \<in> set rs. ?P r \<longrightarrow> ?ver r \<le> M"
    using fold_highest [of "-1" ?P ?ver rs] unfolding M_def by blast+
  moreover from M(1) have "M = -1 \<or> M \<le> mx \<and> (\<exists>lk. (l, M, True, lk) \<in> vss_block s l)"
    using rs(1) by (fastforce simp: vss_block_def)
  moreover from M(2) have "\<forall>v lk. (l, v, True, lk) \<in> vss_block s l \<longrightarrow> v \<le> mx \<longrightarrow> v \<le> M"
    using rs(1) by fastforce
  moreover have "vss_getHighestVerInVB s l mx = Some M"
    unfolding vss_getHighestVerInVB_def rs(2) M_def by simp
  ultimately show ?thesis by blast
qed

text \<open>
  \<^verbatim>\<open>isTooOld\<close> starts its minimum at \<open>0\<close>, so over non-negative versions the minimum stays \<open>0\<close>.
\<close>

lemma vss_isTooOld_struct:
  assumes "vss_struct s" "l \<noteq> -1" "\<forall>(l', w, vb, lk) \<in> vss_block s l. 0 \<le> w" "0 \<le> v"
  shows "vss_isTooOld s l v = Some False"
proof -
  let ?f = "\<lambda>(l :: LBID_t, v, vb :: bool, lk :: bool) m. if m > v then v else (m :: VER_t)"
  let ?b = "\<lambda>i (e :: VSSEntry) minVer. if lbid e = l \<and> minVer > verID e
                           then Inr (verID e) else (Inr minVer :: unit + VER_t)"
  have "?b i e a = Inr (if lbid e = l then ?f (row e) a else a)" for i e a
    by (simp add: row_def)
  from vss_walk_fold [OF assms(1,2) this, of 0] obtain rs where
    rs: "set rs = vss_block s l" "vss_walk s l ?b 0 = Some (Inr (fold ?f rs 0))" by blast
  have "\<forall>(l', w, vb, lk) \<in> set rs. 0 \<le> w \<Longrightarrow> fold ?f rs 0 = 0"
    by (induction rs) auto
  with assms(3,4) rs show ?thesis by (simp add: vss_isTooOld_def)
qed

text \<open>
  \<^verbatim>\<open>isEntryLocked\<close>: the version is the newest committed one of a block that a transaction has locked,
  that is, the one a rollback needs.
\<close>

lemma vss_isEntryLocked_struct:
  assumes "vss_struct s" "l \<noteq> -1" "\<forall>(l', w, vb, lk) \<in> vss_block s l. 0 \<le> w" "0 < v"
  shows "vss_isEntryLocked s l v = Some ((\<exists>w vb. (l, w, vb, True) \<in> vss_block s l)
     \<and> (\<exists>vb. (l, v, vb, False) \<in> vss_block s l)
     \<and> (\<forall>w vb. (l, w, vb, False) \<in> vss_block s l \<longrightarrow> w \<le> v))"
proof -
  let ?f = "\<lambda>(l :: LBID_t, v, vb :: bool, lk) (h, m). (h \<or> lk, if \<not> lk \<and> v > m then v else (m :: VER_t))"
  let ?b = "\<lambda>i (e :: VSSEntry) acc. case acc of (hasALockedEntry, rollbackVersion) \<Rightarrow>
                if lbid e = l then
                  if locked e then Inr (True, rollbackVersion)
                  else if rollbackVersion < verID e then Inr (hasALockedEntry, verID e)
                  else Inr acc
                else (Inr acc :: unit + bool \<times> VER_t)"
  have "?b i e a = Inr (if lbid e = l then ?f (row e) a else a)" for i e a
    by (cases a) (simp add: row_def)
  from vss_walk_fold [OF assms(1,2) this, of "(False, 0)"] obtain rs where
    rs: "set rs = vss_block s l" "vss_walk s l ?b (False, 0) = Some (Inr (fold ?f rs (False, 0)))" by blast
  let ?P = "\<lambda>(l :: LBID_t, v :: VER_t, vb :: bool, lk). \<not> lk" and ?ver = "\<lambda>(l :: LBID_t, v :: VER_t, vb :: bool, lk :: bool). v"
  let ?g = "\<lambda>r m. if ?P r \<and> ?ver r > m then ?ver r else m"
  have split: "fold ?f rs (h, m) = (h \<or> (\<exists>(l, v, vb, lk) \<in> set rs. lk), fold ?g rs m)" for h m
    by (induction rs arbitrary: h m) (auto split: prod.splits)
  define M where "M = fold ?g rs 0"
  have blk: "(l', w, vb, lk) \<in> set rs \<Longrightarrow> l' = l" for l' w vb lk
    using rs(1) by (simp add: vss_block_def)
  from fold_highest [of 0 ?P ?ver rs] have M: "M = 0 \<or> (\<exists>r \<in> set rs. ?P r \<and> ?ver r = M)"
    "\<forall>r \<in> set rs. ?P r \<longrightarrow> ?ver r \<le> M" unfolding M_def by blast+
  from M(1) have "M = 0 \<or> (\<exists>vb. (l, M, vb, False) \<in> set rs)" using blk by fastforce
  moreover from M(2) have "\<forall>w. (\<exists>vb. (l, w, vb, False) \<in> set rs) \<longrightarrow> w \<le> M" by fastforce
  ultimately have "v = M \<longleftrightarrow> (\<exists>vb. (l, v, vb, False) \<in> set rs)
      \<and> (\<forall>w. (\<exists>vb. (l, w, vb, False) \<in> set rs) \<longrightarrow> w \<le> v)"
    using assms(4) by (rule highest_unique)
  then have "v = M \<longleftrightarrow>
      (\<exists>vb. (l, v, vb, False) \<in> set rs) \<and> (\<forall>w vb. (l, w, vb, False) \<in> set rs \<longrightarrow> w \<le> v)"
    by blast
  moreover have "(\<exists>(l, v, vb, lk) \<in> set rs. lk) \<longleftrightarrow> (\<exists>w vb. (l, w, vb, True) \<in> set rs)"
    using blk by fastforce
  ultimately show ?thesis unfolding vss_isEntryLocked_def rs(2) split M_def [symmetric] rs(1)
    using assms(2) by simp
qed

text \<open>\<^verbatim>\<open>isLocked\<close> decides at the first block of the range that has a locked entry.\<close>

lemma vss_isLocked_step:
  assumes "vss_struct s" "l \<noteq> -1"
  shows "(\<exists>v vb. (l, v, vb, True) \<in> vss_block s l \<and>
            vss_isLocked_loop s transID (l # ls) = Some (v \<noteq> transID))
    \<or> (\<forall>v vb. (l, v, vb, True) \<notin> vss_block s l) \<and>
            vss_isLocked_loop s transID (l # ls) = vss_isLocked_loop s transID ls"
proof -
  let ?P = "\<lambda>(l :: LBID_t, v :: VER_t, vb :: bool, lk). lk"
    and ?g = "\<lambda>(l :: LBID_t, v, vb :: bool, lk :: bool). if v = transID then False else True"
  let ?b = "\<lambda>i (e :: VSSEntry) acc. if lbid e = l \<and> locked e
                        then Inl (if verID e = transID then False else True) else Inr acc"
  have "?b i e a = (if lbid e = l \<and> ?P (row e) then Inl (?g (row e)) else Inr a)" for i e a
    by (simp add: row_def)
  from vss_walk_find [OF assms this, of "()"] show ?thesis
  proof (elim disjE bexE conjE)
    fix r assume r: "r \<in> vss_block s l" "?P r" "vss_walk s l ?b () = Some (Inl (?g r))"
    obtain v vb where "r = (l, v, vb, True)" using r(1,2) by (cases r) (simp add: vss_block_def)
    with r show ?thesis by auto
  qed auto
qed

end
