(* ===== verification/VSS_Write.thy ===== *)
theory VSS_Write
  imports VSS_Read
begin

text \<open>
  The write operations of the VSS on the rows of the table: \<^verbatim>\<open>setVBFlag\<close>, \<^verbatim>\<open>commit\<close> and \<^verbatim>\<open>removeEntry\<close>
  keep the invariant and change exactly the rows they name. The pointer surgery is one lemma
  (\<open>vss_remove_one\<close>) that every removal uses.
\<close>

section \<open>Searching\<close>

lemma vss_getIndex_cases:
  assumes s: "vss_struct s"
  shows "(\<exists>ys x zs. chain (vss_storage s) (vss_buckets s ! vss_bucket s l) (ys @ x # zs)
        \<and> lbid (vss_storage s ! x) = l \<and> verID (vss_storage s ! x) = v
        \<and> vss_getIndex s l v = Some (int x, if ys = [] then -1 else int (last ys), vss_bucket s l))
    \<or> (\<forall>i < length (vss_storage s). used (vss_storage s ! i) \<longrightarrow>
           \<not> (lbid (vss_storage s ! i) = l \<and> verID (vss_storage s ! i) = v))
        \<and> (\<exists>prev. vss_getIndex s l v = Some (-1, prev, vss_bucket s l))"
proof -
  let ?st = "vss_storage s" and ?P = "\<lambda>e :: VSSEntry. lbid e = l \<and> verID e = v"
  let ?body = "\<lambda>i e (prev :: int). if ?P e then Inl (i, prev) else Inr i"
  from vss_chainE [OF s, of l] obtain xs where
    xs: "chain ?st (vss_buckets s ! vss_bucket s l) xs"
      "\<forall>i < length ?st. used (?st ! i) \<longrightarrow> lbid (?st ! i) = l \<longrightarrow> i \<in> set xs" by metis
  note w = vss_walk_chain [OF s xs(1)]
  show ?thesis
  proof (cases "list_walk ?body ?st xs (-1)")
    case (Inl r)
    from list_walk_prev [OF this] obtain ys x zs where
      *: "xs = ys @ x # zs" "?P (?st ! x)" "r = (int x, if ys = [] then -1 else int (last ys))" by blast
    then have "vss_getIndex s l v = Some (int x, if ys = [] then -1 else int (last ys), vss_bucket s l)"
      unfolding vss_getIndex_def w Inl *(3) by simp
    with * xs(1) show ?thesis by blast
  next
    case (Inr r)
    from list_walk_prev_None [OF this] xs(2) have "\<forall>i < length ?st. used (?st ! i) \<longrightarrow> \<not> ?P (?st ! i)"
      by blast
    moreover have "vss_getIndex s l v = Some (-1, r, vss_bucket s l)"
      by (simp add: vss_getIndex_def w Inr)
    ultimately show ?thesis by blast
  qed
qed

section \<open>The undo records do not matter to the table\<close>

lemma vss_undo_irrelevant [simp]:
  "vss_struct (s\<lparr>vss_undo := u\<rparr>) = vss_struct s"
  "vss_abs (s\<lparr>vss_undo := u\<rparr>) = vss_abs s"
  "vss_count (s\<lparr>vss_undo := u\<rparr>) = vss_count s"
  "vss_wf (s\<lparr>vss_undo := u\<rparr>) = vss_wf s"
  "vss_bucket (s\<lparr>vss_undo := u\<rparr>) l = vss_bucket s l"
  by (simp_all add: vss_struct_def vss_abs_def vss_count_def vss_wf_def vss_bucket_def)

lemma vss_wf_makeUndoRecord [simp]:
  "vss_struct (vss_makeUndoRecord a s) = vss_struct s"
  "vss_abs (vss_makeUndoRecord a s) = vss_abs s"
  "vss_wf (vss_makeUndoRecord a s) = vss_wf s"
  "vss_bucket (vss_makeUndoRecord a s) l = vss_bucket s l"
  by (simp_all add: vss_makeUndoRecord_def)

section \<open>Updating one row in place\<close>

lemma vss_update_row:
  assumes "vss_wf s" "i < length (vss_storage s)" "used (vss_storage s ! i)"
    and e: "lbid e = lbid (vss_storage s ! i)" "next_ix e = next_ix (vss_storage s ! i)"
  defines "t \<equiv> s\<lparr>vss_storage := (vss_storage s)[i := e]\<rparr>"
  shows "vss_wf t" "vss_abs t = add_mset (row e) (vss_abs s - {#row (vss_storage s ! i)#})"
proof -
  from assms(1) have S: "vss_struct s" by (simp add: vss_wf_def)
  note D = vss_structD [OF S]
  have u: "used e" using assms(3) e by (simp add: used_def)
  have "vss_struct t"
  proof (rule vss_structI)
    show "chains_ok vss_hash (vss_buckets t) (vss_storage t)"
      using D(1) assms(2,3) e u unfolding t_def
      by (simp add: vss_table.chains_ok_update vss_hash_def)
    fix k assume "int k < LWM (vss_hdr t)"
    with D(6) u show "used (vss_storage t ! k)"
      unfolding t_def by (cases "k = i") (use assms(2) in simp_all)
  qed (use D in \<open>simp_all add: t_def\<close>)
  moreover have "vss_count t = vss_count s"
    unfolding vss_count_def t_def using assms(2,3) u by (simp add: filter_upd_same)
  ultimately show "vss_wf t" using assms(1) by (simp add: vss_wf_def t_def)
  show "vss_abs t = add_mset (row e) (vss_abs s - {#row (vss_storage s ! i)#})"
    unfolding t_def using vss_abs_update [OF assms(2), of e] assms(3) u by simp
qed

lemma vss_setVBFlag_wf:
  assumes "vss_wf s"
  shows "(\<exists>vb0 lk t. (l, v, vb0, lk) \<in># vss_abs s \<and> vss_setVBFlag l v vb s = (t, Inr ()) \<and> vss_wf t
        \<and> vss_abs t = add_mset (l, v, vb, lk) (vss_abs s - {#(l, v, vb0, lk)#}) \<and> vss_hdr t = vss_hdr s)
    \<or> (\<forall>vb0 lk. (l, v, vb0, lk) \<notin># vss_abs s) \<and> vss_setVBFlag l v vb s = (s, Inl LogicError)"
proof -
  from assms have S: "vss_struct s" by (simp add: vss_wf_def)
  show ?thesis
    using vss_getIndex_cases [OF S, of l v]
  proof (elim disjE exE conjE)
    fix ys x zs
    assume x: "chain (vss_storage s) (vss_buckets s ! vss_bucket s l) (ys @ x # zs)"
      "lbid (vss_storage s ! x) = l" "verID (vss_storage s ! x) = v"
      "vss_getIndex s l v = Some (int x, if ys = [] then -1 else int (last ys), vss_bucket s l)"
    from vss_chainE [OF S, of l] x(1) have xx: "x < length (vss_storage s)" "used (vss_storage s ! x)"
      by (metis chain_unique in_set_conv_decomp)+
    let ?e = "(vss_storage s ! x)\<lparr>vbFlag := vb\<rparr>"
    define t where "t = fst (vss_setVBFlag l v vb s)"
    have t: "vss_setVBFlag l v vb s = (t, Inr ())"
      "t = (s\<lparr>vss_storage := (vss_storage s)[x := ?e]\<rparr>)\<lparr>vss_undo := vss_undo t\<rparr>"
      by (simp_all add: t_def vss_setVBFlag_def x(4) Let_def vss_makeUndoRecord_def)
    note U = vss_update_row [OF assms xx, of ?e]
    have "vss_wf t" "vss_abs t = add_mset (row ?e) (vss_abs s - {#row (vss_storage s ! x)#})"
      "vss_hdr t = vss_hdr s"
      by (subst t(2); use U in simp)+
    moreover have "row (vss_storage s ! x) \<in># vss_abs s" using xx by (auto simp: mem_vss_abs)
    ultimately show ?thesis using t(1) x(2,3) by (auto simp: row_def)
  next
    fix prev
    assume "\<forall>i < length (vss_storage s). used (vss_storage s ! i) \<longrightarrow>
           \<not> (lbid (vss_storage s ! i) = l \<and> verID (vss_storage s ! i) = v)"
      "vss_getIndex s l v = Some (-1, prev, vss_bucket s l)"
    then show ?thesis by (auto simp: vss_setVBFlag_def mem_vss_abs row_def)
  qed
qed

section \<open>Commit\<close>

lemma vss_lockedEntryCount_irrelevant [simp]:
  "vss_wf (s\<lparr>vss_hdr := (vss_hdr s)\<lparr>lockedEntryCount := n\<rparr>\<rparr>) = vss_wf s"
  by (simp add: vss_wf_def vss_struct_def vss_count_def)

definition clear_lock :: "VER_t \<Rightarrow> VSSEntry \<Rightarrow> VSSEntry" where
  "clear_lock txnID e = (if used e \<and> verID e = txnID then e\<lparr>locked := False\<rparr> else e)"

fun commit_row :: "VER_t \<Rightarrow> vss_row \<Rightarrow> vss_row" where
  "commit_row txnID (l, v, vb, lk) = (l, v, vb, lk \<and> v \<noteq> txnID)"

lemma clear_lock_used [simp]: "used (clear_lock txnID e) = used e"
  by (simp add: clear_lock_def used_def)

lemma row_clear_lock: "used e \<Longrightarrow> row (clear_lock txnID e) = commit_row txnID (row e)"
  by (simp add: clear_lock_def row_def)

lemma vss_commit_step_wf:
  assumes "vss_wf s" "i < length (vss_storage s)"
  shows "vss_wf (vss_commit_step txnID i s)"
    "vss_storage (vss_commit_step txnID i s) = (vss_storage s)[i := clear_lock txnID (vss_storage s ! i)]"
    "capacity (vss_hdr (vss_commit_step txnID i s)) = capacity (vss_hdr s)"
proof -
  let ?e = "vss_storage s ! i"
  have *: "vss_wf (vss_commit_step txnID i s)
    \<and> vss_storage (vss_commit_step txnID i s) = (vss_storage s)[i := clear_lock txnID (vss_storage s ! i)]"
  proof (cases "used ?e \<and> verID ?e = txnID")
    case True
    let ?s = "vss_makeUndoRecord (StorageAt i) s"
    from assms True have "vss_wf (?s\<lparr>vss_storage := (vss_storage ?s)[i := ?e\<lparr>locked := False\<rparr>]\<rparr>)"
      by (intro vss_update_row(1)) simp_all
    with True show ?thesis
      by (simp add: vss_commit_step_def clear_lock_def used_def Let_def del: vss_wf_makeUndoRecord
          vss_lockedEntryCount_irrelevant)
        (simp add: vss_wf_def vss_struct_def vss_count_def)
  next
    case False
    with assms show ?thesis by (auto simp: vss_commit_step_def clear_lock_def used_def)
  qed
  then show "vss_wf (vss_commit_step txnID i s)"
    "vss_storage (vss_commit_step txnID i s) = (vss_storage s)[i := clear_lock txnID (vss_storage s ! i)]"
    by blast+
  show "capacity (vss_hdr (vss_commit_step txnID i s)) = capacity (vss_hdr s)"
    by (simp add: vss_commit_step_def Let_def)
qed

lemma vss_commit_fold:
  assumes "vss_wf s" "n \<le> length (vss_storage s)"
  shows "vss_wf (fold (vss_commit_step txnID) [0..<n] s)
    \<and> vss_storage (fold (vss_commit_step txnID) [0..<n] s)
        = map (clear_lock txnID) (take n (vss_storage s)) @ drop n (vss_storage s)"
  using assms(2)
proof (induction n)
  case 0
  then show ?case using assms(1) by simp
next
  case (Suc n)
  let ?t = "fold (vss_commit_step txnID) [0..<n] s"
  from Suc have IH: "vss_wf ?t"
    "vss_storage ?t = map (clear_lock txnID) (take n (vss_storage s)) @ drop n (vss_storage s)" by simp_all
  from IH(2) Suc.prems have n: "n < length (vss_storage ?t)" "vss_storage ?t ! n = vss_storage s ! n"
    by (simp_all add: nth_append)
  have "(vss_storage ?t)[n := clear_lock txnID (vss_storage s ! n)] =
      map (clear_lock txnID) (take (Suc n) (vss_storage s)) @ drop (Suc n) (vss_storage s)"
    using Suc.prems by (simp add: IH(2) list_update_append take_Suc_conv_app_nth
        Cons_nth_drop_Suc [symmetric])
  with vss_commit_step_wf [OF IH(1) n(1), of txnID] n(2) show ?case by simp
qed

lemma vss_commit_wf:
  assumes "vss_wf s"
  shows "vss_wf (vss_commit txnID s)"
    "vss_abs (vss_commit txnID s) = image_mset (commit_row txnID) (vss_abs s)"
proof -
  from assms have S: "vss_struct s" by (simp add: vss_wf_def)
  from vss_structD(7) [OF S] vss_commit_fold [OF assms order_refl, of txnID]
  have c: "vss_wf (vss_commit txnID s)" "vss_storage (vss_commit txnID s) = map (clear_lock txnID) (vss_storage s)"
    by (simp_all add: vss_commit_def)
  then show "vss_wf (vss_commit txnID s)" by simp
  have "image_mset row (filter_mset used (mset (map (clear_lock txnID) es))) =
      image_mset (commit_row txnID) (image_mset row (filter_mset used (mset es)))" for es
    by (induction es) (simp_all add: row_clear_lock)
  then show "vss_abs (vss_commit txnID s) = image_mset (commit_row txnID) (vss_abs s)"
    by (simp only: vss_abs_def c(2))
qed

section \<open>Removal\<close>

abbreviation prev_of :: "nat list \<Rightarrow> int" where
  "prev_of ys \<equiv> (if ys = [] then -1 else int (last ys))"

lemma vss_unlink_fields:
  "x < length (vss_storage s) \<Longrightarrow> (ys \<noteq> [] \<longrightarrow> last ys \<noteq> x) \<Longrightarrow>
    vss_storage (vss_unlink b (prev_of ys) x s) =
    (if ys = [] then (vss_storage s)[x := (vss_storage s ! x)\<lparr>lbid := -1\<rparr>]
     else (vss_storage s)[x := (vss_storage s ! x)\<lparr>lbid := -1\<rparr>,
            last ys := (vss_storage s ! last ys)\<lparr>next_ix := next_ix (vss_storage s ! x)\<rparr>])"
  "x < length (vss_storage s) \<Longrightarrow> vss_buckets (vss_unlink b (prev_of ys) x s) =
    (if ys = [] then (vss_buckets s)[b := next_ix (vss_storage s ! x)] else vss_buckets s)"
  "vss_hdr (vss_unlink b p x s) = vss_hdr s"
  "vss_key (vss_unlink b p x s) = vss_key s"
  "vss_alloc (vss_unlink b p x s) = vss_alloc s"
  "vss_attached (vss_unlink b p x s) = vss_attached s"
  "length (vss_storage (vss_unlink b p x s)) = length (vss_storage s)"
  by (auto simp: vss_unlink_def Let_def)

lemma vss_uncount_fields [simp]:
  "vss_storage (vss_uncount x s) = vss_storage s"
  "vss_buckets (vss_uncount x s) = vss_buckets s"
  "vss_key (vss_uncount x s) = vss_key s"
  "vss_alloc (vss_uncount x s) = vss_alloc s"
  "vss_attached (vss_uncount x s) = vss_attached s"
  "vss_undo (vss_uncount x s) = vss_undo s"
  "capacity (vss_hdr (vss_uncount x s)) = capacity (vss_hdr s)"
  "numHashBuckets (vss_hdr (vss_uncount x s)) = numHashBuckets (vss_hdr s)"
  "currentSize (vss_hdr (vss_uncount x s)) = currentSize (vss_hdr s) - 1"
  "LWM (vss_hdr (vss_uncount x s)) = min (int x) (LWM (vss_hdr s))"
  by (simp_all add: vss_uncount_def Let_def)

lemma mem_mset_row:
  "i < length st \<Longrightarrow> used (st ! i) \<Longrightarrow> row (st ! i) \<in># image_mset row (filter_mset used (mset st))"
  by (auto intro!: imageI)

lemma vss_remove_one:
  assumes S: "vss_struct s" and b: "b < length (vss_buckets s)"
    and c: "chain (vss_storage s) (vss_buckets s ! b) (ys @ x # zs)"
  defines "t \<equiv> vss_uncount x (vss_unlink b (prev_of ys) x s)"
  shows "vss_struct t" "chain (vss_storage t) (vss_buckets t ! b) (ys @ zs)"
    "row (vss_storage s ! x) \<in># vss_abs s" "vss_abs t = vss_abs s - {#row (vss_storage s ! x)#}"
    "\<forall>i < length (vss_storage s). i \<noteq> x \<longrightarrow> row (vss_storage t ! i) = row (vss_storage s ! i)"
    "next_ix (vss_storage t ! x) = next_ix (vss_storage s ! x)"
    "length (vss_storage t) = length (vss_storage s)" "length (vss_buckets t) = length (vss_buckets s)"
proof -
  note D = vss_structD [OF S]
  let ?st = "vss_storage s" and ?bk = "vss_buckets s"
  have x: "x < length ?st" and d: "distinct (ys @ x # zs)"
    using chain_in_range [OF c, of x] chain_distinct [OF c] by simp_all
  have yx: "ys \<noteq> [] \<Longrightarrow> last ys \<noteq> x \<and> last ys < length ?st"
    using d chain_in_range [OF c, of "last ys"] by auto
  have u: "used (?st ! x)"
    using D(1) b c by (metis (no_types, lifting) chains_okE chain_unique in_set_conv_decomp
        mem_Collect_eq members_def)
  have ts: "vss_storage t = (if ys = [] then ?st[x := (?st ! x)\<lparr>lbid := -1\<rparr>]
      else ?st[x := (?st ! x)\<lparr>lbid := -1\<rparr>, last ys := (?st ! last ys)\<lparr>next_ix := next_ix (?st ! x)\<rparr>])"
    unfolding t_def vss_uncount_fields using x yx by (intro vss_unlink_fields(1)) simp_all
  have tb: "vss_buckets t = (if ys = [] then ?bk[b := next_ix (?st ! x)] else ?bk)"
    unfolding t_def vss_uncount_fields using vss_unlink_fields(2) [OF x] by simp
  show lens: "length (vss_storage t) = length ?st" "length (vss_buckets t) = length ?bk"
    by (simp_all add: ts tb)
  show rows: "\<forall>i < length ?st. i \<noteq> x \<longrightarrow> row (vss_storage t ! i) = row (?st ! i)"
    using yx by (simp add: ts nth_upd)
  show "next_ix (vss_storage t ! x) = next_ix (?st ! x)"
    using x yx by (simp add: ts nth_upd)
  have nu: "\<not> used (vss_storage t ! x)" using x yx by (simp add: ts nth_upd used_def)
  have ok: "chains_ok vss_hash (vss_buckets t) (vss_storage t)"
    unfolding ts tb using vss_table.chains_ok_delete_head [OF D(1) b, of x zs]
      vss_table.chains_ok_delete_mid [OF D(1) b c] c by (cases "ys = []") simp_all
  show "chain (vss_storage t) (vss_buckets t ! b) (ys @ zs)"
    using chain_removed [OF c b] by (simp add: ts tb)
  show "vss_struct t"
  proof (rule vss_structI)
    fix k assume k: "int k < LWM (vss_hdr t)"
    then have "k \<noteq> x" "int k < LWM (vss_hdr s)"
      by (simp_all add: t_def vss_unlink_fields)
    with D(5,6) D(3) rows have "used (?st ! k)" "row (vss_storage t ! k) = row (?st ! k)" by auto
    then show "used (vss_storage t ! k)" by (simp add: row_def used_def)
  qed (use ok D lens in \<open>auto simp: t_def vss_unlink_fields\<close>)
  show rin: "row (?st ! x) \<in># vss_abs s" using x u by (auto simp: mem_vss_abs)
  have "vss_abs t = image_mset row (filter_mset used (mset (?st[x := (?st ! x)\<lparr>lbid := -1\<rparr>])))"
  proof (cases "ys = []")
    case True
    then show ?thesis by (simp add: vss_abs_def ts)
  next
    case False
    let ?st1 = "?st[x := (?st ! x)\<lparr>lbid := -1\<rparr>]"
    from vss_abs_update [of "last ys" "s\<lparr>vss_storage := ?st1\<rparr>" "(?st ! last ys)\<lparr>next_ix := next_ix (?st ! x)\<rparr>"]
      False yx show ?thesis by (auto simp: vss_abs_def ts mem_mset_row)
  qed
  also have "\<dots> = vss_abs s - {#row (?st ! x)#}"
    using vss_abs_update [OF x, of "(?st ! x)\<lparr>lbid := -1\<rparr>"] u by (simp add: vss_abs_def used_def)
  finally show "vss_abs t = vss_abs s - {#row (?st ! x)#}" .
qed

text \<open>No row of the block is left when its hash list has none.\<close>

lemma vss_no_rows:
  assumes "vss_struct s" "l \<noteq> -1" "chain (vss_storage s) (vss_buckets s ! vss_bucket s l) us"
    "\<forall>y \<in> set us. lbid (vss_storage s ! y) \<noteq> l"
  shows "filter_mset (\<lambda>r. fst r \<noteq> l) (vss_abs s) = vss_abs s"
proof -
  from assms(1,2) obtain xs where "chain (vss_storage s) (vss_buckets s ! vss_bucket s l) xs"
    "vss_block s l = row ` {vss_storage s ! i | i. i \<in> set xs \<and> lbid (vss_storage s ! i) = l}"
    by (rule vss_block_chainE)
  with assms(3,4) have "vss_block s l = {}" using chain_unique by fastforce
  then have "\<forall>r \<in># vss_abs s. fst r \<noteq> l" unfolding vss_block_def by blast
  then show ?thesis by (simp add: filter_mset_eq_conv)
qed

lemma vss_wf_remove:
  assumes "vss_wf s" "vss_struct t" "r \<in># vss_abs s" "vss_abs t = vss_abs s - {#r#}"
    "currentSize (vss_hdr t) = currentSize (vss_hdr s) - 1" "vss_alloc t = vss_alloc s"
    "vss_attached t = vss_attached s"
  shows "vss_wf t"
proof -
  have "vss_count s = Suc (vss_count t)"
    using assms(3,4) by (metis size_vss_abs size_Suc_Diff1)
  with assms show ?thesis by (simp add: vss_wf_def)
qed

text \<open>The second loop of \<^verbatim>\<open>removeEntry\<close> leaves no row of the block.\<close>

lemma vss_remove_loop_ok:
  assumes "vss_wf s" "b < length (vss_buckets s)"
    "chain (vss_storage s) (vss_buckets s ! b) (ys @ zs)"
    "\<forall>y \<in> set ys. lbid (vss_storage s ! y) \<noteq> l" "length zs < fuel"
    "index = (case zs of [] \<Rightarrow> -1 | z # _ \<Rightarrow> int z)"
  shows "\<exists>t us. vss_remove_loop fuel l b (prev_of ys) index s = (t, Inr ()) \<and> vss_wf t
     \<and> chain (vss_storage t) (vss_buckets t ! b) us \<and> (\<forall>y \<in> set us. lbid (vss_storage t ! y) \<noteq> l)
     \<and> filter_mset (\<lambda>r. fst r \<noteq> l) (vss_abs t) = filter_mset (\<lambda>r. fst r \<noteq> l) (vss_abs s)
     \<and> numHashBuckets (vss_hdr t) = numHashBuckets (vss_hdr s)"
  using assms
proof (induction zs arbitrary: s ys fuel index)
  case Nil
  then show ?case by (cases fuel) auto
next
  case (Cons x zs)
  obtain n where n: "fuel = Suc n" using Cons.prems(5) by (cases fuel) auto
  let ?st = "vss_storage s"
  have x: "x < length ?st" and d: "distinct (ys @ x # zs)"
    using chain_in_range [OF Cons.prems(3), of x] chain_distinct [OF Cons.prems(3)] by simp_all
  have nx: "next_ix (?st ! x) = (case zs of [] \<Rightarrow> -1 | z # _ \<Rightarrow> int z)"
    using chain_suffix [OF Cons.prems(3)] by (cases zs) simp_all
  show ?case
  proof (cases "lbid (?st ! x) = l")
    case True
    define t where "t = vss_uncount x (vss_unlink b (prev_of ys) x s)"
    have S: "vss_struct s" using Cons.prems(1) by (simp add: vss_wf_def)
    note R = vss_remove_one [OF S Cons.prems(2,3), folded t_def]
    have wf: "vss_wf t"
      using Cons.prems(1) R(1,3,4) by (rule vss_wf_remove) (simp_all add: t_def vss_unlink_fields)
    have ys: "\<forall>y \<in> set ys. lbid (vss_storage t ! y) \<noteq> l"
    proof
      fix y assume y: "y \<in> set ys"
      with chain_in_range [OF Cons.prems(3), of y] d R(5) have "row (vss_storage t ! y) = row (?st ! y)" by auto
      with y Cons.prems(4) show "lbid (vss_storage t ! y) \<noteq> l" by (auto simp: row_def)
    qed
    have step: "vss_remove_loop fuel l b (prev_of ys) index s =
        vss_remove_loop n l b (prev_of ys) (next_ix (vss_storage t ! x)) t"
      using True x by (simp add: n Cons.prems(6) t_def Let_def)
    have "filter_mset (\<lambda>r. fst r \<noteq> l) (vss_abs t) = filter_mset (\<lambda>r. fst r \<noteq> l) (vss_abs s)"
      using True by (simp add: R(4) row_def)
    moreover have "numHashBuckets (vss_hdr t) = numHashBuckets (vss_hdr s)"
      by (simp add: t_def vss_unlink_fields)
    ultimately show ?thesis
      using Cons.IH [OF wf _ R(2) ys _ nx [folded R(6)], of n] Cons.prems(2,5) n R(8) step by simp
  next
    case False
    have ys: "\<forall>y \<in> set (ys @ [x]). lbid (?st ! y) \<noteq> l" using Cons.prems(4) False by simp
    have "vss_remove_loop fuel l b (prev_of ys) index s =
        vss_remove_loop n l b (prev_of (ys @ [x])) (next_ix (?st ! x)) s"
      using False x by (simp add: n Cons.prems(6))
    with Cons.IH [OF Cons.prems(1,2) _ ys _ nx, of n] Cons.prems(3,5) n show ?thesis by simp
  qed
qed

text \<open>\<^verbatim>\<open>removeEntry\<close> on the rows.\<close>

definition remove_rows :: "LBID_t \<Rightarrow> vss_row \<Rightarrow> vss_row multiset \<Rightarrow> vss_row multiset" where
  "remove_rows l r R =
     (let R' = R - {#r#} in
      if \<exists>(l', v, vb, lk) \<in># R'. l' = l \<and> (vb \<or> lk) then R' else filter_mset (\<lambda>r. fst r \<noteq> l) R')"

lemma pinned_row_ex:
  "(\<exists>r \<in> {r. r \<in># R \<and> fst r = l}. case r of (l, v, vb, lk) \<Rightarrow> vb \<or> lk)
     \<longleftrightarrow> (\<exists>(l', v, vb, lk) \<in># R. l' = l \<and> (vb \<or> lk))"
  unfolding split_def by blast

lemma vss_remove_loop_block:
  assumes wf: "vss_wf s" and l: "l \<noteq> -1"
  shows "\<exists>t. vss_remove_loop (Suc (length (vss_storage s))) l (vss_bucket s l) (-1)
            (vss_buckets s ! vss_bucket s l) s = (t, Inr ())
     \<and> vss_wf t \<and> vss_abs t = filter_mset (\<lambda>r. fst r \<noteq> l) (vss_abs s)"
proof -
  from wf have S: "vss_struct s" by (simp add: vss_wf_def)
  from vss_chain_ex [OF S, of l] obtain xs where
    c: "chain (vss_storage s) (vss_buckets s ! vss_bucket s l) xs" ..
  have h: "vss_buckets s ! vss_bucket s l = (case xs of [] \<Rightarrow> -1 | z # _ \<Rightarrow> int z)"
    using c by (cases xs) simp_all
  have "length xs < Suc (length (vss_storage s))" using chain_length [OF c] by simp
  from vss_remove_loop_ok [OF wf vss_bucket_lt [OF S], of l "[]" xs l, OF _ _ this h,
      unfolded append_Nil, OF c]
  obtain t us where t: "vss_remove_loop (Suc (length (vss_storage s))) l (vss_bucket s l) (prev_of [])
            (vss_buckets s ! vss_bucket s l) s = (t, Inr ())" "vss_wf t"
      "chain (vss_storage t) (vss_buckets t ! vss_bucket s l) us" "\<forall>y \<in> set us. lbid (vss_storage t ! y) \<noteq> l"
      "filter_mset (\<lambda>r. fst r \<noteq> l) (vss_abs t) = filter_mset (\<lambda>r. fst r \<noteq> l) (vss_abs s)"
      "numHashBuckets (vss_hdr t) = numHashBuckets (vss_hdr s)"
    unfolding list.set by blast
  have "vss_bucket t l = vss_bucket s l" by (simp add: vss_bucket_def t(6))
  then have "filter_mset (\<lambda>r. fst r \<noteq> l) (vss_abs t) = vss_abs t"
    using t(2-4) by (intro vss_no_rows [OF _ l, of t us]) (simp_all add: vss_wf_def)
  with t(1,2,5) show ?thesis unfolding simp_thms if_True by metis
qed

lemma vss_removeEntry_wf:
  assumes wf: "vss_wf s" and l: "l \<noteq> -1"
  shows "(\<exists>vb lk t. (l, v, vb, lk) \<in># vss_abs s \<and> vss_wf t
        \<and> vss_abs t = remove_rows l (l, v, vb, lk) (vss_abs s)
        \<and> vss_removeEntry l v s = (t, Inr (if \<exists>(l', v', vb', lk') \<in># vss_abs s - {#(l, v, vb, lk)#}.
              l' = l \<and> (vb' \<or> lk') then [] else [l])))
    \<or> (\<forall>vb lk. (l, v, vb, lk) \<notin># vss_abs s) \<and> vss_removeEntry l v s = (s, Inr [])"
proof -
  from wf have S: "vss_struct s" by (simp add: vss_wf_def)
  show ?thesis
    using vss_getIndex_cases [OF S, of l v]
  proof (elim disjE exE conjE)
    fix ys x zs
    assume x: "chain (vss_storage s) (vss_buckets s ! vss_bucket s l) (ys @ x # zs)"
      "lbid (vss_storage s ! x) = l" "verID (vss_storage s ! x) = v"
      "vss_getIndex s l v = Some (int x, prev_of ys, vss_bucket s l)"
    define r where "r = row (vss_storage s ! x)"
    define u where "u = vss_uncount x (vss_unlink (vss_bucket s l) (prev_of ys) x s)"
    define t where "t = vss_uncount x (vss_makeUndoRecord HeaderAt (vss_unlink (vss_bucket s l) (prev_of ys) x s))"
    have tu: "t = u\<lparr>vss_undo := vss_undo t\<rparr>"
      by (simp add: t_def u_def vss_uncount_def vss_makeUndoRecord_def Let_def)
    note R = vss_remove_one [OF S vss_bucket_lt [OF S] x(1), folded u_def r_def]
    have "vss_wf u"
      using wf R(1,3,4) by (rule vss_wf_remove) (simp_all add: u_def vss_unlink_fields)
    then have t: "vss_wf t" "vss_abs t = vss_abs s - {#r#}"
      by (subst tu; simp add: R(4))+
    have tb: "vss_bucket t l = vss_bucket s l"
      by (simp add: t_def vss_bucket_def vss_unlink_fields)
    have St: "vss_struct t" using t(1) by (simp add: vss_wf_def)
    let ?b = "\<lambda>i (e :: VSSEntry) acc. if lbid e = l \<and> (vbFlag e \<or> locked e) then Inl () else Inr acc"
    let ?P = "\<lambda>(l :: LBID_t, v :: VER_t, vb, lk). vb \<or> lk"
    have ba: "?b i e a = (if lbid e = l \<and> ?P (row e) then Inl () else Inr a)" for i e a
      by (simp add: row_def)
    have op: "vss_removeEntry l v s = (case vss_walk t l ?b () of None \<Rightarrow> (t, Inl Undefined)
        | Some (Inl _) \<Rightarrow> (t, Inr [])
        | Some (Inr _) \<Rightarrow> and_then (vss_remove_loop (Suc (length (vss_storage t))) l (vss_bucket s l) (-1)
                        (vss_buckets t ! vss_bucket s l) t) (\<lambda>_ s. (s, Inr [l])))"
      unfolding vss_removeEntry_def x(4) option.case prod.case Let_def nat_int t_def [symmetric] by (rule if_not_P) simp
    have ex: "(\<exists>r \<in> vss_block t l. ?P r) \<longleftrightarrow> (\<exists>(l', v', vb', lk') \<in># vss_abs s - {#r#}. l' = l \<and> (vb' \<or> lk'))"
      unfolding vss_block_def t(2) by (rule pinned_row_ex)
    have "\<exists>t. vss_wf t \<and> vss_abs t = remove_rows l r (vss_abs s) \<and> vss_removeEntry l v s =
        (t, Inr (if \<exists>(l', v', vb', lk') \<in># vss_abs s - {#r#}. l' = l \<and> (vb' \<or> lk') then [] else [l]))"
    proof (cases "\<exists>r \<in> vss_block t l. ?P r")
      case True
      with vss_walk_find [OF St l ba, of "()"] have "vss_walk t l ?b () = Some (Inl ())" by blast
      with True ex t show ?thesis by (simp add: op remove_rows_def Let_def)
    next
      case False
      with vss_walk_find [OF St l ba, of "()"] have w: "vss_walk t l ?b () = Some (Inr ())" by blast
      from vss_remove_loop_block [OF t(1) l] tb obtain t' where
        "vss_remove_loop (Suc (length (vss_storage t))) l (vss_bucket s l) (-1)
            (vss_buckets t ! vss_bucket s l) t = (t', Inr ())" "vss_wf t'"
        "vss_abs t' = filter_mset (\<lambda>r. fst r \<noteq> l) (vss_abs t)" by auto
      with False ex w t(2) show ?thesis by (simp add: op remove_rows_def Let_def)
    qed
    moreover have "r = (l, v, vbFlag (vss_storage s ! x), locked (vss_storage s ! x))"
      using x(2,3) by (simp add: r_def row_def)
    ultimately show ?thesis using R(3) by blast
  next
    fix prev
    assume "\<forall>i < length (vss_storage s). used (vss_storage s ! i) \<longrightarrow>
           \<not> (lbid (vss_storage s ! i) = l \<and> verID (vss_storage s ! i) = v)"
      "vss_getIndex s l v = Some (-1, prev, vss_bucket s l)"
    then show ?thesis by (auto simp: vss_removeEntry_def mem_vss_abs row_def)
  qed
qed

end
