(* ===== verification/VSS_Undo.thy ===== *)
theory VSS_Undo
  imports VSS_Write
begin

text \<open>
  Atomicity of the VSS writes. After any sequence of \<^verbatim>\<open>insert\<close>, \<^verbatim>\<open>setVBFlag\<close> and \<^verbatim>\<open>removeEntry\<close>
  that stays within the segment, \<^verbatim>\<open>undoChanges\<close> gives back the state before the first of them, bit
  for bit. The two places where the code does not keep this promise are shown too: \<^verbatim>\<open>commit\<close>
  changes the header without a record, and \<^verbatim>\<open>growVSS\<close> leaves records that point into the segment
  it unmaps.
\<close>

section \<open>What an undo gives back\<close>

definition vss_undone :: "VSS \<Rightarrow> VSS" where
  "vss_undone s = (foldr vss_wr (map snd (vss_undo s)) s)\<lparr>vss_undo := []\<rparr>"

definition vss_logged :: "VSS \<Rightarrow> vss_addr set" where
  "vss_logged s = vss_addr_of ` snd ` set (vss_undo s)"

definition undo_ok :: "VSS \<Rightarrow> VSS \<Rightarrow> bool" where
  "undo_ok s0 s \<longleftrightarrow> vss_undone s = s0 \<and> (\<forall>r \<in> set (vss_undo s). fst r = vss_key s)"

lemma undo_ok_undoChanges: "undo_ok s0 s \<Longrightarrow> vss_undoChanges s = (s0, Inr ())"
  by (simp add: undo_ok_def vss_undoChanges_def vss_undone_def)

lemma undo_ok_start: "vss_undo s = [] \<Longrightarrow> undo_ok s s"
  by (simp add: undo_ok_def vss_undone_def)

lemma vss_wr_frame [simp]:
  "vss_undo (vss_wr c s) = vss_undo s" "vss_key (vss_wr c s) = vss_key s"
  "vss_wr c (s\<lparr>vss_undo := u\<rparr>) = (vss_wr c s)\<lparr>vss_undo := u\<rparr>"
  by (cases c; simp)+

lemma foldr_vss_wr_undo [simp]:
  "foldr vss_wr cs (s\<lparr>vss_undo := u\<rparr>) = (foldr vss_wr cs s)\<lparr>vss_undo := u\<rparr>"
  by (induction cs) simp_all

lemma vss_logged_simps [simp]:
  "vss_logged (vss_makeUndoRecord a s) = insert a (vss_logged s)"
  "vss_logged (vss_wr c s) = vss_logged s"
  by (auto simp: vss_logged_def vss_makeUndoRecord_def vss_mem.addr_of_rd)

lemma undo_ok_record [intro]: "undo_ok s0 s \<Longrightarrow> undo_ok s0 (vss_makeUndoRecord a s)"
  using vss_mem.undo_record [of "map snd (vss_undo s)" s a]
  by (simp add: undo_ok_def vss_undone_def vss_makeUndoRecord_def)

lemma undo_ok_write [intro]:
  assumes "undo_ok s0 s" "vss_addr_of c \<in> vss_logged s"
  shows "undo_ok s0 (vss_wr c s)"
proof -
  from assms(2) have "vss_addr_of c \<in> vss_addr_of ` set (map snd (vss_undo s))"
    by (simp add: vss_logged_def)
  from vss_mem.undo_write [OF this, of s] assms(1) show ?thesis
    by (simp add: undo_ok_def vss_undone_def)
qed

lemma undo_ok_log_write:
  "undo_ok s0 s \<Longrightarrow> undo_ok s0 (vss_wr c (vss_makeUndoRecord (vss_addr_of c) s))"
  by (intro undo_ok_write undo_ok_record) (simp_all only: vss_logged_simps insert_iff simp_thms)

text \<open>The writes of the operations as cell writes.\<close>

lemma vss_cell_writes:
  "s\<lparr>vss_hdr := h\<rparr> = vss_wr (HeaderCell h) s"
  "s\<lparr>vss_storage := (vss_storage s)[i := e]\<rparr> = vss_wr (StorageCell i e) s"
  "s\<lparr>vss_buckets := (vss_buckets s)[b := v]\<rparr> = vss_wr (BucketCell b v) s"
  by simp_all

lemma vss_uncount_write: "\<exists>h. vss_uncount x s = vss_wr (HeaderCell h) s"
  by (simp add: vss_uncount_def Let_def) blast

section \<open>The operations\<close>

lemma undo_ok_unlink:
  assumes "undo_ok s0 s"
  shows "undo_ok s0 (vss_unlink b p x s)" "vss_logged s \<subseteq> vss_logged (vss_unlink b p x s)"
proof -
  let ?s1 = "vss_wr (StorageCell x ((vss_storage s ! x)\<lparr>lbid := -1\<rparr>)) (vss_makeUndoRecord (StorageAt x) s)"
  have 1: "undo_ok s0 ?s1"
    using undo_ok_log_write [OF assms, of "StorageCell x ((vss_storage s ! x)\<lparr>lbid := -1\<rparr>)"]
    by (simp only: vss_addr_of.simps)
  have "vss_unlink b p x s = (if p \<noteq> -1
      then vss_wr (StorageCell (nat p) ((vss_storage ?s1 ! nat p)\<lparr>next_ix := next_ix (vss_storage ?s1 ! x)\<rparr>))
             (vss_makeUndoRecord (StorageAt (nat p)) ?s1)
      else vss_wr (BucketCell b (next_ix (vss_storage ?s1 ! x))) (vss_makeUndoRecord (BucketAt b) ?s1))"
    by (simp add: vss_unlink_def Let_def)
  moreover have "undo_ok s0 (vss_wr (StorageCell j e) (vss_makeUndoRecord (StorageAt j) ?s1))"
    "undo_ok s0 (vss_wr (BucketCell b v) (vss_makeUndoRecord (BucketAt b) ?s1))" for j e v
    using undo_ok_log_write [OF 1, of "StorageCell j e"] undo_ok_log_write [OF 1, of "BucketCell b v"]
    by (simp_all only: vss_addr_of.simps)
  ultimately show "undo_ok s0 (vss_unlink b p x s)" "vss_logged s \<subseteq> vss_logged (vss_unlink b p x s)"
    by (simp_all only: vss_logged_simps split: if_split) blast+
qed

lemma undo_ok_uncount:
  assumes "undo_ok s0 s" "HeaderAt \<in> vss_logged s"
  shows "undo_ok s0 (vss_uncount x s)" "vss_logged (vss_uncount x s) = vss_logged s"
proof -
  from vss_uncount_write obtain h where h: "vss_uncount x s = vss_wr (HeaderCell h) s" by blast
  with assms show "undo_ok s0 (vss_uncount x s)" by (simp only: h) (rule undo_ok_write; simp)
  show "vss_logged (vss_uncount x s) = vss_logged s" by (simp only: h vss_logged_simps)
qed

lemma undo_ok_remove_loop:
  "undo_ok s0 s \<Longrightarrow> HeaderAt \<in> vss_logged s \<Longrightarrow>
     undo_ok s0 (fst (vss_remove_loop fuel l b p i s))"
proof (induction fuel l b p i s rule: vss_remove_loop.induct)
  case (2 fuel l b p i s)
  let ?s1 = "vss_unlink b p (nat i) s"
  have 1: "undo_ok s0 ?s1" "HeaderAt \<in> vss_logged ?s1"
    using undo_ok_unlink [OF "2.prems"(1)] "2.prems"(2) by blast+
  note 3 = undo_ok_uncount [OF 1]
  show ?case using "2.IH" "2.prems" 1(2) 3 by (simp add: Let_def)
qed simp

lemma undo_ok_removeEntry:
  assumes "undo_ok s0 s"
  shows "undo_ok s0 (fst (vss_removeEntry l v s))"
proof (cases "vss_getIndex s l v")
  case None
  with assms show ?thesis by (simp add: vss_removeEntry_def)
next
  case (Some r)
  obtain i p b where r: "r = (i, p, b)" by (cases r)
  let ?t = "vss_uncount (nat i) (vss_makeUndoRecord HeaderAt (vss_unlink b p (nat i) s))"
  let ?w = "vss_walk ?t l (\<lambda>i e acc. if lbid e = l \<and> (vbFlag e \<or> locked e) then Inl () else Inr acc) ()"
  let ?r = "vss_remove_loop (Suc (length (vss_storage ?t))) l b (-1) (vss_buckets ?t ! b) ?t"
  have t: "undo_ok s0 ?t" "HeaderAt \<in> vss_logged ?t"
    using undo_ok_uncount [OF undo_ok_record [OF undo_ok_unlink(1) [OF assms]]] by simp_all
  have loop: "undo_ok s0 (fst ?r)" by (rule undo_ok_remove_loop [OF t])
  have op: "vss_removeEntry l v s = (if i = -1 then (s, Inr []) else
     case ?w of None \<Rightarrow> (?t, Inl Undefined) | Some (Inl _) \<Rightarrow> (?t, Inr [])
     | Some (Inr _) \<Rightarrow> and_then ?r (\<lambda>_ s. (s, Inr [l])))"
    unfolding vss_removeEntry_def Some r option.case prod.case Let_def ..
  have "fst (and_then ?r (\<lambda>_ s. (s, Inr [l]))) = fst ?r"
    by (cases ?r) (simp add: and_then_def split: sum.splits)
  with loop t(1) assms show ?thesis unfolding op by (simp split: option.splits sum.splits)
qed

lemma undo_ok_setVBFlag:
  assumes "undo_ok s0 s"
  shows "undo_ok s0 (fst (vss_setVBFlag l v vb s))"
proof (cases "vss_getIndex s l v")
  case None
  with assms show ?thesis by (simp add: vss_setVBFlag_def)
next
  case (Some r)
  obtain i p b where r: "r = (i, p, b)" by (cases r)
  have "fst (vss_setVBFlag l v vb s) = (if i = -1 then s else
      vss_wr (StorageCell (nat i) ((vss_storage s ! nat i)\<lparr>vbFlag := vb\<rparr>)) (vss_makeUndoRecord (StorageAt (nat i)) s))"
    by (simp add: vss_setVBFlag_def Some r Let_def)
  with assms undo_ok_log_write [OF assms, of "StorageCell (nat i) ((vss_storage s ! nat i)\<lparr>vbFlag := vb\<rparr>)"]
  show ?thesis by (simp only: vss_addr_of.simps split: if_split) blast
qed

lemma undo_ok_insert:
  assumes "undo_ok s0 s" "currentSize (vss_hdr s) \<noteq> capacity (vss_hdr s)"
  shows "undo_ok s0 (fst (vss_insert l v vb lk False s))"
proof (cases "find_empty (vss_storage s) (nat (LWM (vss_hdr s)))")
  case None
  with assms show ?thesis by (simp add: vss_insert_def vss_insert_entry_def Let_def)
next
  case (Some i)
  define b where "b = vss_bucket s l"
  let ?h1 = "(vss_hdr s)\<lparr>LWM := int i + 1\<rparr>"
  define s1 where "s1 = vss_wr (HeaderCell ?h1) (vss_makeUndoRecord HeaderAt s)"
  define s2 where "s2 = vss_makeUndoRecord (BucketAt b) (vss_makeUndoRecord (StorageAt i) s1)"
  define e where "e = \<lparr>lbid = l, verID = v, next_ix = vss_buckets s ! b, vbFlag = vb, locked = lk\<rparr>"
  define s3 where "s3 = vss_wr (BucketCell b (int i)) (vss_wr (StorageCell i e) s2)"
  have 1: "undo_ok s0 s1" unfolding s1_def
    using undo_ok_log_write [OF assms(1), of "HeaderCell ?h1"] by (simp only: vss_addr_of.simps)
  then have "undo_ok s0 s2" unfolding s2_def by (intro undo_ok_record)
  then have 3: "undo_ok s0 s3" unfolding s3_def
    by (intro undo_ok_write) (simp_all only: vss_addr_of.simps vss_logged_simps s2_def insert_iff simp_thms)
  have log: "HeaderAt \<in> vss_logged (vss_makeUndoRecord CurrentSizeAt s3)"
    by (simp only: s3_def s2_def s1_def vss_logged_simps insert_iff simp_thms)
  have ins: "vss_insert_entry \<lparr>lbid = l, verID = v, next_ix = -1, vbFlag = vb, locked = lk\<rparr> False s = (s3, Inr ())"
    by (simp add: vss_insert_entry_def Some s3_def s2_def s1_def e_def b_def Let_def)
  define h where "h = (vss_hdr s3)\<lparr>currentSize := currentSize (vss_hdr s3) + 1,
      lockedEntryCount := lockedEntryCount (vss_hdr s3) + of_bool lk\<rparr>"
  have "fst (vss_insert l v vb lk False s) = vss_wr (HeaderCell h) (vss_makeUndoRecord CurrentSizeAt s3)"
    using assms(2) by (simp add: vss_insert_def ins Let_def h_def)
  moreover have "undo_ok s0 (vss_wr (HeaderCell h) (vss_makeUndoRecord CurrentSizeAt s3))"
    using 3 log by (intro undo_ok_write undo_ok_record) (simp_all only: vss_addr_of.simps)
  ultimately show ?thesis by simp
qed

section \<open>Sequences of writes\<close>

datatype vss_op =
    OpInsert LBID_t VER_t bool bool
  | OpSetVBFlag LBID_t VER_t bool
  | OpRemoveEntry LBID_t VER_t

fun vss_exec :: "vss_op \<Rightarrow> VSS \<Rightarrow> VSS" where
  "vss_exec (OpInsert l v vb lk) s = fst (vss_insert l v vb lk False s)"
| "vss_exec (OpSetVBFlag l v vb) s = fst (vss_setVBFlag l v vb s)"
| "vss_exec (OpRemoveEntry l v) s = fst (vss_removeEntry l v s)"

text \<open>No insertion of the sequence finds the table full, so that the segment stays.\<close>

fun vss_fits :: "vss_op list \<Rightarrow> VSS \<Rightarrow> bool" where
  "vss_fits [] s = True"
| "vss_fits (op # ops) s =
     ((case op of OpInsert l v vb lk \<Rightarrow> currentSize (vss_hdr s) \<noteq> capacity (vss_hdr s) | _ \<Rightarrow> True)
      \<and> vss_fits ops (vss_exec op s))"

lemma undo_ok_exec:
  "undo_ok s0 s \<Longrightarrow> vss_fits ops s \<Longrightarrow> undo_ok s0 (fold vss_exec ops s)"
proof (induction ops arbitrary: s)
  case (Cons op ops)
  have "undo_ok s0 (vss_exec op s)"
    using Cons.prems by (cases op) (simp_all add: undo_ok_insert undo_ok_setVBFlag undo_ok_removeEntry)
  with Cons show ?case by simp
qed simp

text \<open>
  C13. Atomicity of the VSS writes: after any sequence of \<^verbatim>\<open>insert\<close>, \<^verbatim>\<open>setVBFlag\<close> and \<^verbatim>\<open>removeEntry\<close>
  calls, successful or not, in which no insertion has to grow the segment, \<^verbatim>\<open>undoChanges\<close> restores
  header, buckets and storage to exactly what they were before the first call.
\<close>

theorem vss_undo_restores:
  assumes "vss_undo s = []" "vss_fits ops s"
  shows "vss_undoChanges (fold vss_exec ops s) = (s, Inr ())"
  using undo_ok_exec [OF undo_ok_start [OF assms(1)] assms(2)] by (rule undo_ok_undoChanges)

section \<open>Where the promise is broken\<close>

lemma vss_chooseShmkey_neq: "vss_chooseShmkey s \<noteq> vss_key s"
  by (auto simp: vss_chooseShmkey_def KEYRANGE_VSS_BASE_def KEYRANGE_SIZE_def)

lemma vss_insert_entry_undo:
  "vss_key (fst (vss_insert_entry e loading d)) = vss_key d \<and>
   set (vss_undo d) \<subseteq> set (vss_undo (fst (vss_insert_entry e loading d)))"
  by (auto simp: vss_insert_entry_def vss_makeUndoRecord_def Let_def split: option.splits)

text \<open>
  C21. An insertion that grows the segment leaves the undo records of the transaction so far pointing
  into the segment it unmaps: \<^verbatim>\<open>growVSS\<close> does not clear \<^verbatim>\<open>undoRecords\<close> (\<^verbatim>\<open>growForLoad\<close> and
  \<^verbatim>\<open>VBBM::growVBBM\<close> do), and an \<^verbatim>\<open>undoChanges\<close> after it writes through dangling pointers.
\<close>

theorem vss_grow_breaks_undo:
  assumes "vss_wf s" "currentSize (vss_hdr s) = capacity (vss_hdr s)" "l \<noteq> -1"
    and "vss_undo s \<noteq> []" "\<forall>r \<in> set (vss_undo s). fst r = vss_key s"
  shows "\<exists>t. vss_insert l v vb lk False s = (t, Inr ()) \<and> vss_wf t \<and> snd (vss_undoChanges t) = Inl Undefined"
proof -
  from vss_growVSS_ok [OF assms(1,2)] obtain g where
    g: "vss_growVSS s = (g, Inr ())" "vss_undo g = vss_undo s" "vss_key g = vss_chooseShmkey s" by blast
  from vss_insert_ok [OF assms(1,3), of v vb lk False] obtain t where
    t: "vss_insert l v vb lk False s = (t, Inr ())" "vss_wf t" by blast
  let ?e = "\<lparr>lbid = l, verID = v, next_ix = -1, vbFlag = vb, locked = lk\<rparr>"
  obtain d r where d: "vss_insert_entry ?e False g = (d, r)" by force
  from vss_insert_entry_undo [of ?e False g] d g
  have "vss_key d = vss_chooseShmkey s" "set (vss_undo s) \<subseteq> set (vss_undo d)" by simp_all
  moreover from t(1) d have "set (vss_undo d) \<subseteq> set (vss_undo t) \<and> vss_key t = vss_key d"
    by (cases r) (auto simp: vss_insert_def assms(2) g(1) Let_def vss_makeUndoRecord_def)
  ultimately have "\<exists>r \<in> set (vss_undo t). fst r \<noteq> vss_key t"
    using assms(4,5) vss_chooseShmkey_neq [of s] by (metis ex_in_conv set_empty subsetD)
  then show ?thesis using t by (auto simp: vss_undoChanges_def)
qed

text \<open>The header during a commit: one decrement, down to zero, per entry of the transaction.\<close>

definition storage_undo :: "VSS \<Rightarrow> VSS \<Rightarrow> bool" where
  "storage_undo s t \<longleftrightarrow> (\<forall>r \<in> set (vss_undo t). fst r = vss_key t \<and> (\<exists>i e. snd r = StorageCell i e))
     \<and> vss_undone t = s\<lparr>vss_hdr := vss_hdr t\<rparr>"

lemma storage_cells_hdr:
  "\<forall>c \<in> set cs. \<exists>i e. c = StorageCell i e \<Longrightarrow>
     foldr vss_wr cs (s\<lparr>vss_hdr := h\<rparr>) = (foldr vss_wr cs s)\<lparr>vss_hdr := h\<rparr>"
  by (induction cs) auto

lemma storage_undo_step:
  assumes "storage_undo s t"
  shows "storage_undo s (vss_commit_step txnID i t)"
proof (cases "used (vss_storage t ! i) \<and> verID (vss_storage t ! i) = txnID")
  case True
  let ?c = "StorageCell i ((vss_storage t ! i)\<lparr>locked := False\<rparr>)"
  let ?t1 = "vss_wr ?c (vss_makeUndoRecord (StorageAt i) t)"
  define h where "h = (if lockedEntryCount (vss_hdr t) > 0
      then (vss_hdr t)\<lparr>lockedEntryCount := lockedEntryCount (vss_hdr t) - 1\<rparr> else vss_hdr t)"
  have step: "vss_commit_step txnID i t = ?t1\<lparr>vss_hdr := h\<rparr>"
    using True by (simp add: vss_commit_step_def Let_def h_def used_def)
  have "undo_ok (vss_undone t) t" using assms by (simp add: undo_ok_def storage_undo_def)
  from undo_ok_log_write [OF this, of ?c] have u1: "vss_undone ?t1 = vss_undone t"
    by (simp only: vss_addr_of.simps undo_ok_def)
  have cells: "\<forall>c \<in> set (map snd (vss_undo ?t1)). \<exists>i e. c = StorageCell i e"
    using assms by (auto simp: storage_undo_def vss_makeUndoRecord_def)
  have "vss_undone (?t1\<lparr>vss_hdr := h\<rparr>) = (vss_undone ?t1)\<lparr>vss_hdr := h\<rparr>"
    using storage_cells_hdr [OF cells, where s = ?t1 and h = h] by (simp add: vss_undone_def)
  with u1 assms show ?thesis unfolding step
    by (auto simp: storage_undo_def vss_makeUndoRecord_def)
next
  case False
  with assms show ?thesis by (auto simp: vss_commit_step_def used_def)
qed

lemma storage_undo_fold: "storage_undo s t \<Longrightarrow> storage_undo s (fold (vss_commit_step txnID) is t)"
  by (induction "is" arbitrary: t) (simp_all add: storage_undo_step)

lemma storage_undo_start: "vss_undo s = [] \<Longrightarrow> storage_undo s s"
  by (simp add: storage_undo_def vss_undone_def)

lemma commit_hdr_fold:
  assumes "distinct is" "0 \<le> lockedEntryCount (vss_hdr t)"
  shows "vss_hdr (fold (vss_commit_step txnID) is t) = (vss_hdr t)\<lparr>lockedEntryCount :=
     max 0 (lockedEntryCount (vss_hdr t) - int (length (filter
       (\<lambda>i. used (vss_storage t ! i) \<and> verID (vss_storage t ! i) = txnID) is)))\<rparr>"
  using assms
proof (induction "is" arbitrary: t)
  case (Cons i "is")
  let ?t = "vss_commit_step txnID i t" and ?p = "\<lambda>t i. used (vss_storage t ! i) \<and> verID (vss_storage t ! i) = txnID"
  have "vss_storage ?t ! x = vss_storage t ! x" if "x \<in> set is" for x
    using that Cons.prems(1) by (cases "x = i") (simp_all add: vss_commit_step_def Let_def)
  then have same: "filter (?p ?t) is = filter (?p t) is" by (intro filter_cong) simp_all
  have hdr: "vss_hdr ?t = (vss_hdr t)\<lparr>lockedEntryCount :=
      max 0 (lockedEntryCount (vss_hdr t) - of_bool (?p t i))\<rparr>"
    using Cons.prems(2) by (simp add: vss_commit_step_def used_def Let_def)
  then have "0 \<le> lockedEntryCount (vss_hdr ?t)" by simp
  from Cons.IH [OF _ this] Cons.prems(1) same hdr show ?case by simp
qed simp

text \<open>
  C22. \<^verbatim>\<open>commit\<close> takes no record of the header although it decrements \<^verbatim>\<open>lockedEntryCount\<close>: an
  \<^verbatim>\<open>undoChanges\<close> after it restores every entry but leaves the count lowered by the number of the
  transaction's entries.
\<close>

theorem vss_commit_undo_header:
  assumes "vss_undo s = []" "vss_wf s" "0 \<le> lockedEntryCount (vss_hdr s)"
  shows "vss_undoChanges (vss_commit txnID s) = (s\<lparr>vss_hdr := (vss_hdr s)\<lparr>lockedEntryCount :=
    max 0 (lockedEntryCount (vss_hdr s) - int (length (vss_getUncommittedLBIDs s txnID)))\<rparr>\<rparr>, Inr ())"
proof -
  let ?is = "[0..<nat (capacity (vss_hdr s))]" and ?st = "vss_storage s"
  have cap: "nat (capacity (vss_hdr s)) = length ?st"
    using assms(2) vss_structD(7) by (auto simp: vss_wf_def)
  have "length (vss_getUncommittedLBIDs s txnID) = length (filter
       (\<lambda>i. used (?st ! i) \<and> verID (?st ! i) = txnID) ?is)"
    by (simp add: vss_getUncommittedLBIDs_def vss_rows_def cap used_def filter_conv_nth [of _ ?st])
  with storage_undo_fold [OF storage_undo_start [OF assms(1)], of txnID ?is]
    commit_hdr_fold [OF distinct_upt assms(3), of txnID 0 "nat (capacity (vss_hdr s))"]
  show ?thesis
    by (auto simp: storage_undo_def vss_undoChanges_def vss_undone_def vss_commit_def)
qed

end
