(* ===== verification/VSS_Persist.thy ===== *)
theory VSS_Persist
  imports VSS_Undo
begin

text \<open>
  \<^verbatim>\<open>VSS::save\<close> and \<^verbatim>\<open>VSS::load\<close>: the run-wise writes of \<^verbatim>\<open>save\<close> are exactly the used entries in
  storage order, and loading a saved image into any VSS gives a table with the same rows.
\<close>

lemma vss_save_entries:
  assumes "vss_wf s"
  shows "vss_file_entries (vss_save s) = filter used (vss_storage s)"
    "vss_entries_count (vss_save s) = int (length (filter used (vss_storage s)))"
proof -
  have "nat (capacity (vss_hdr s)) = length (vss_storage s)"
    using assms vss_structD(7) by (auto simp: vss_wf_def)
  then show "vss_file_entries (vss_save s) = filter used (vss_storage s)"
    by (simp add: vss_save_def save_runs_filter)
  show "vss_entries_count (vss_save s) = int (length (filter used (vss_storage s)))"
    using assms by (simp add: vss_save_def vss_wf_def vss_count_def)
qed

lemma vss_growForLoad_wf:
  fixes n s
  defines "t \<equiv> vss_growForLoad n s"
  shows "vss_wf t" "vss_abs t = {#}" "lockedEntryCount (vss_hdr t) = 0" "vss_undo t = []"
proof -
  define m where "m = (if n < 200000 then 200000 else n)"
  define k where "k = (if m mod 20000 \<noteq> 0 then (m div 20000 + 1) * 20000 else m)"
  have k: "200000 \<le> k" using pos_mod_bound [of 20000 m] unfolding k_def m_def
    by (auto simp: algebra_simps minus_mod_eq_mult_div [symmetric])
  have t: "vss_hdr t = \<lparr>capacity = k, currentSize = 0, LWM = 0, numHashBuckets = k div 4, lockedEntryCount = 0\<rparr>"
    "vss_buckets t = replicate (nat (k div 4)) (-1)" "vss_storage t = replicate (nat k) empty_entry"
    "vss_attached t" "vss_alloc t = VSS_SIZE k" "vss_undo t = []"
    unfolding t_def vss_growForLoad_def VSS_sizes Let_def m_def [symmetric] k_def [symmetric]
    by simp_all
  have kd: "50000 \<le> k div 4" using k by simp
  have "vss_struct t" "vss_count t = 0" "vss_abs t = {#}"
    by (rule vss_struct_fresh; use t k kd in simp)+
  moreover have "VSS_INITIAL_SIZE \<le> VSS_SIZE k" using k kd by (simp add: VSS_sizes VSS_SIZE_def)
  ultimately show "vss_wf t" "vss_abs t = {#}" using t by (simp_all add: vss_wf_def)
  show "lockedEntryCount (vss_hdr t) = 0" "vss_undo t = []" by (simp_all add: t)
qed

lemma vss_load_loop_ok:
  "vss_wf s \<Longrightarrow> \<forall>e \<in> set es. used e \<Longrightarrow>
   \<exists>t. vss_load_loop es s = (t, Inr ()) \<and> vss_wf t
     \<and> vss_abs t = vss_abs s + image_mset row (mset es) \<and> vss_undo t = vss_undo s
     \<and> lockedEntryCount (vss_hdr t) = lockedEntryCount (vss_hdr s) + int (length (filter locked es))"
proof (induction es arbitrary: s)
  case (Cons e es)
  from Cons.prems have "lbid e \<noteq> -1" by (simp add: used_def)
  from vss_insert_ok [OF Cons.prems(1) this, of "verID e" "vbFlag e" "locked e" True] obtain u where
    u: "vss_insert (lbid e) (verID e) (vbFlag e) (locked e) True s = (u, Inr ())" "vss_wf u"
      "vss_abs u = add_mset (row e) (vss_abs s)" "vss_undo u = vss_undo s"
      "lockedEntryCount (vss_hdr u) = lockedEntryCount (vss_hdr s) + of_bool (locked e)"
    by (auto simp: row_def)
  from Cons.IH [OF u(2)] Cons.prems(2) u show ?case by auto
qed simp

lemma vss_load_saved:
  assumes "vss_wf s"
  shows "\<exists>t. vss_load (vss_save s) s' = (t, Inr ()) \<and> vss_wf t \<and> vss_abs t = vss_abs s
    \<and> vss_undo t = [] \<and> lockedEntryCount (vss_hdr t) = int (length (vss_getLockedLBIDs s))"
proof -
  let ?es = "filter used (vss_storage s)"
  note E = vss_save_entries [OF assms]
  have cap: "nat (capacity (vss_hdr s)) = length (vss_storage s)"
    using assms vss_structD(7) by (auto simp: vss_wf_def)
  have "vss_load (vss_save s) s' = vss_load_loop ?es (vss_growForLoad (int (length ?es)) s')"
    by (simp add: vss_load_def E Let_def) (simp add: vss_save_def)
  moreover have "length (filter locked ?es) = length (vss_getLockedLBIDs s)"
    by (simp add: vss_getLockedLBIDs_def vss_rows_def cap used_def conj_commute)
  moreover have "image_mset row (mset ?es) = vss_abs s" by (simp add: vss_abs_def)
  ultimately show ?thesis
    using vss_load_loop_ok [OF vss_growForLoad_wf(1), of ?es] by (auto simp: vss_growForLoad_wf)
qed

text \<open>
  C18. Save and load are inverse on the rows: the image \<^verbatim>\<open>VSS::save\<close> writes of a consistent VSS loads
  without an exception into any VSS \<open>s'\<close>, whatever it held and however small its segment, and
  the result is consistent, has the same rows, an exact \<^verbatim>\<open>lockedEntryCount\<close> and no undo records.
\<close>

theorem vss_load_save:
  assumes "vss_wf s"
  shows "\<exists>t. vss_load (vss_save s) s' = (t, Inr ()) \<and> vss_wf t \<and> vss_abs t = vss_abs s
    \<and> vss_undo t = [] \<and> lockedEntryCount (vss_hdr t) = int (length (vss_getLockedLBIDs s))"
  using assms by (rule vss_load_saved)

end
