(* ===== verification/VSS_Contract.thy ===== *)
theory VSS_Contract
  imports VSS_Persist
begin

text \<open>
  The contract of the VSS: what each operation returns and does in terms of the rows of the table. The
  example table at the start is used to apply the properties to a concrete VSS.
\<close>

section \<open>An example table\<close>

text \<open>
  Block 10 has version 5 in the database file and version 3 in the version buffer; block 20 has
  the uncommitted version 7. All entries hang in the single bucket.
\<close>

definition vss_ex :: VSS where
  "vss_ex = \<lparr>
     vss_hdr = \<lparr>capacity = 4, currentSize = 3, LWM = 3, numHashBuckets = 1, lockedEntryCount = 1\<rparr>,
     vss_buckets = [2],
     vss_storage =
       [\<lparr>lbid = 10, verID = 5, next_ix = -1, vbFlag = False, locked = False\<rparr>,
        \<lparr>lbid = 10, verID = 3, next_ix = 0, vbFlag = True, locked = False\<rparr>,
        \<lparr>lbid = 20, verID = 7, next_ix = 1, vbFlag = False, locked = True\<rparr>,
        empty_entry],
     vss_undo = [], vss_key = 0x10001, vss_alloc = VSS_INITIAL_SIZE, vss_attached = True\<rparr>"

lemma vss_ex_wf: "vss_wf vss_ex"
proof -
  have "\<exists>xs. chain (vss_storage vss_ex) 2 xs \<and> set xs = members vss_hash 1 (vss_storage vss_ex) 0"
    by (rule exI [of _ "[2, 1, 0]"])
      (auto simp: vss_ex_def members_def less_Suc_eq used_def empty_entry_def)
  then have "chains_ok vss_hash (vss_buckets vss_ex) (vss_storage vss_ex)"
    by (simp add: chains_ok_def vss_ex_def)
  moreover have "int i < 3 \<Longrightarrow> used (vss_storage vss_ex ! i)" for i
    by (cases "i = 0 \<or> i = 1 \<or> i = 2") (auto simp: vss_ex_def used_def)
  ultimately have "vss_struct vss_ex"
    by (intro vss_structI) (auto simp: vss_ex_def)
  then show ?thesis
    by (simp add: vss_wf_def vss_ex_def vss_count_def used_def empty_entry_def)
qed

lemma vss_ex_abs:
  "vss_abs vss_ex = {#(10, 5, False, False), (10, 3, True, False), (20, 7, False, True)#}"
  by (simp add: vss_abs_def vss_ex_def used_def empty_entry_def row_def)

lemma vss_ex_block:
  "vss_block vss_ex 10 = {(10, 5, False, False), (10, 3, True, False)}"
  by (auto simp: vss_block_def vss_ex_abs)

section \<open>Reads\<close>

text \<open>
  C1. \<^verbatim>\<open>VSS::lookup\<close> is a snapshot read. On a consistent table it always ends, and among the
  versions of the block that the reader may use it finds the newest one not after the SCN, with
  the flag that tells whether that version is in the version buffer; it reports
  \<^verbatim>\<open>ERR_SNAPSHOT_TOO_OLD\<close> when all usable versions are newer, and \<open>-1\<close> when there is none.
\<close>

theorem vss_lookup_snapshot:
  assumes "vss_wf s" "l \<noteq> -1" "0 \<le> currentScn q" "\<forall>(l', v, vb, lk) \<in> vss_block s l. 0 \<le> v"
  shows "\<exists>r. vss_lookup s l q txnID vbOnly = Some r \<and>
      lookup_result {x \<in> vss_block s l. vss_visible q txnID vbOnly x} (currentScn q) r"
  using assms by (intro vss_lookup_struct) (simp_all add: vss_wf_def)

theorem vss_lookup_snapshot_witness:
  "vss_lookup vss_ex 10 \<lparr>currentScn = 4, txns = {7}\<rparr> 0 False = Some (0, 3, True)"
proof -
  let ?q = "\<lparr>currentScn = 4, txns = {7}\<rparr>"
  have "{x \<in> vss_block vss_ex 10. vss_visible ?q 0 False x} = {(10, 5, False, False), (10, 3, True, False)}"
    by (auto simp: vss_ex_block)
  with vss_lookup_snapshot [OF vss_ex_wf, of 10 ?q 0 False] obtain r where
    "vss_lookup vss_ex 10 ?q 0 False = Some r"
    "lookup_result {(10, 5, False, False), (10, 3, True, False)} 4 r" by (auto simp: vss_ex_block)
  then show ?thesis by (cases r) (auto simp: lookup_result_def)
qed

text \<open>
  \<^verbatim>\<open>VSS::getCurrentVersion\<close> returns a version of the block that is in the database files, with
  its lock flag, and version 0, unlocked, only when the table has none.
\<close>

theorem vss_getCurrentVersion_spec:
  assumes "vss_wf s" "l \<noteq> -1"
  shows "(\<exists>v lk. (l, v, False, lk) \<in># vss_abs s \<and> vss_getCurrentVersion s l = Some (v, lk))
    \<or> (\<forall>v lk. (l, v, False, lk) \<notin># vss_abs s) \<and> vss_getCurrentVersion s l = Some (0, False)"
  using vss_getCurrentVersion_struct [of s l] assms by (auto simp: vss_wf_def vss_block_def)

theorem vss_getCurrentVersion_spec_witness:
  "vss_getCurrentVersion vss_ex 10 = Some (5, False)"
  using vss_getCurrentVersion_spec [OF vss_ex_wf, of 10] by (auto simp: vss_ex_abs)

text \<open>
  \<^verbatim>\<open>VSS::isEntryLocked\<close> says for a version of a block whether a rollback needs it: the block has a
  locked entry and the version is the newest of its unlocked ones.
\<close>

theorem vss_isEntryLocked_spec:
  assumes "vss_wf s" "l \<noteq> -1" "\<forall>(l', w, vb, lk) \<in> vss_block s l. 0 \<le> w" "0 < v"
  shows "vss_isEntryLocked s l v = Some ((\<exists>w vb. (l, w, vb, True) \<in> vss_block s l)
     \<and> (\<exists>vb. (l, v, vb, False) \<in> vss_block s l)
     \<and> (\<forall>w vb. (l, w, vb, False) \<in> vss_block s l \<longrightarrow> w \<le> v))"
  using assms by (intro vss_isEntryLocked_struct) (simp_all add: vss_wf_def)

theorem vss_isEntryLocked_spec_witness: "vss_isEntryLocked vss_ex 10 5 = Some False"
  using vss_isEntryLocked_spec [OF vss_ex_wf, of 10 5] by (simp add: vss_ex_block)

text \<open>
  \<^verbatim>\<open>VSS::isLocked\<close> stops at the first locked block of the range: when that block is locked by the
  asking transaction alone, the answer is that the range is free, whatever the later blocks hold.
\<close>

theorem vss_isLocked_own_first:
  assumes "vss_wf s" "range_start r \<noteq> -1" "0 < range_size r"
    and "(range_start r, transID, vb, True) \<in># vss_abs s"
    and "\<forall>v vb. (range_start r, v, vb, True) \<in># vss_abs s \<longrightarrow> v = transID"
  shows "vss_isLocked s r transID = Some False"
proof -
  let ?l = "range_start r"
  have S: "vss_struct s" using assms(1) by (simp add: vss_wf_def)
  obtain ls where ls: "range_lbids r = ?l # ls"
    unfolding range_lbids_def upt_conv_Cons [OF assms(3)] by simp
  from vss_isLocked_step [OF S assms(2), of transID ls] show ?thesis
  proof (elim disjE exE conjE)
    fix v vb' assume "(?l, v, vb', True) \<in> vss_block s ?l"
      "vss_isLocked_loop s transID (?l # ls) = Some (v \<noteq> transID)"
    with assms(5) show ?thesis by (auto simp: vss_isLocked_def ls vss_block_def)
  next
    assume "\<forall>v vb. (?l, v, vb, True) \<notin> vss_block s ?l"
    with assms(4) show ?thesis by (simp add: vss_block_def)
  qed
qed

text \<open>Two blocks, the first locked by transaction 7 and the second by transaction 9.\<close>

definition vss_ex2 :: VSS where
  "vss_ex2 = fst (vss_insert 21 9 False True False vss_ex)"

lemma vss_ex2_props:
  "vss_wf vss_ex2" "vss_abs vss_ex2 = add_mset (21, 9, False, True) (vss_abs vss_ex)"
proof -
  obtain t where t: "vss_insert 21 9 False True False vss_ex = (t, Inr ())" "vss_wf t"
    "vss_abs t = add_mset (21, 9, False, True) (vss_abs vss_ex)"
    using vss_insert_ok [OF vss_ex_wf, of 21 9 False True False] by force
  then have "vss_ex2 = t" by (simp only: vss_ex2_def fst_conv)
  with t show "vss_wf vss_ex2" "vss_abs vss_ex2 = add_mset (21, 9, False, True) (vss_abs vss_ex)" by simp_all
qed

theorem vss_isLocked_own_first_witness:
  "vss_isLocked vss_ex2 \<lparr>range_start = 20, range_size = 2\<rparr> 7 = Some False
    \<and> (21, 9, False, True) \<in># vss_abs vss_ex2"
proof
  let ?r = "\<lparr>range_start = 20, range_size = 2\<rparr> :: LBIDRange"
  have "(range_start ?r, v, vb, lk) \<in># vss_abs vss_ex2 \<longleftrightarrow> v = 7 \<and> \<not> vb \<and> lk" for v vb lk
    unfolding vss_ex2_props(2) vss_ex_abs by simp
  then show "vss_isLocked vss_ex2 ?r 7 = Some False"
    by (intro vss_isLocked_own_first [OF vss_ex2_props(1), of ?r 7 False]) simp_all
qed (simp add: vss_ex2_props)

text \<open>
  \<^verbatim>\<open>VSS::isTooOld\<close> never reports a version as too old: its running minimum starts at \<open>0\<close>, below every
  version there is.
\<close>

theorem vss_isTooOld_never:
  assumes "vss_wf s" "l \<noteq> -1" "\<forall>(l', w, vb, lk) \<in> vss_block s l. 0 \<le> w" "0 \<le> v"
  shows "vss_isTooOld s l v = Some False"
  using assms by (intro vss_isTooOld_struct) (simp_all add: vss_wf_def)

theorem vss_isTooOld_never_witness:
  "vss_isTooOld vss_ex 10 1 = Some False \<and> vss_block vss_ex 10 = {(10, 5, False, False), (10, 3, True, False)}"
  using vss_isTooOld_never [OF vss_ex_wf, of 10 1] by (simp add: vss_ex_block)

section \<open>Writes\<close>

text \<open>
  C19. \<^verbatim>\<open>VSS::insert\<close> never fails: on a consistent table, full or not, it leaves a consistent table with
  exactly the new row added, growing the segment when it has to.
\<close>

theorem vss_insert_spec:
  assumes "vss_wf s" "l \<noteq> -1"
  shows "\<exists>t. vss_insert l v vb lk loading s = (t, Inr ()) \<and> vss_wf t
      \<and> vss_abs t = add_mset (l, v, vb, lk) (vss_abs s)
      \<and> lockedEntryCount (vss_hdr t) = lockedEntryCount (vss_hdr s) + of_bool lk"
  using vss_insert_ok [OF assms] by blast

theorem vss_insert_spec_witness:
  "\<exists>t. vss_insert 30 8 False True False vss_ex = (t, Inr ()) \<and> vss_wf t
     \<and> vss_abs t = {#(30, 8, False, True), (10, 5, False, False), (10, 3, True, False), (20, 7, False, True)#}"
  using vss_insert_spec [OF vss_ex_wf, of 30 8 False True False] unfolding vss_ex_abs by force

text \<open>
  \<^verbatim>\<open>VSS::setVBFlag\<close> changes the flag of one row of the version it is given and nothing else, and
  throws without any change when the version is not in the table.
\<close>

theorem vss_setVBFlag_spec:
  assumes "vss_wf s"
  shows "(\<exists>vb0 lk t. (l, v, vb0, lk) \<in># vss_abs s \<and> vss_setVBFlag l v vb s = (t, Inr ()) \<and> vss_wf t
        \<and> vss_abs t = add_mset (l, v, vb, lk) (vss_abs s - {#(l, v, vb0, lk)#}) \<and> vss_hdr t = vss_hdr s)
    \<or> (\<forall>vb0 lk. (l, v, vb0, lk) \<notin># vss_abs s) \<and> vss_setVBFlag l v vb s = (s, Inl LogicError)"
  using assms by (rule vss_setVBFlag_wf)

theorem vss_setVBFlag_spec_witness: "vss_setVBFlag 10 4 True vss_ex = (vss_ex, Inl LogicError)"
  using vss_setVBFlag_spec [OF vss_ex_wf, of 10 4 True] by (simp add: vss_ex_abs)

text \<open>
  C17. \<^verbatim>\<open>VSS::removeEntry\<close> removes one row of the version it is given; when no other row of the block is
  locked or in the version buffer it removes the remaining rows of the block too and puts the
  block on the flush list. A version that is not in the table is ignored.
\<close>

theorem vss_removeEntry_spec:
  assumes "vss_wf s" "l \<noteq> -1"
  shows "(\<exists>vb lk t. (l, v, vb, lk) \<in># vss_abs s \<and> vss_wf t
        \<and> vss_abs t = remove_rows l (l, v, vb, lk) (vss_abs s)
        \<and> vss_removeEntry l v s = (t, Inr (if \<exists>(l', v', vb', lk') \<in># vss_abs s - {#(l, v, vb, lk)#}.
              l' = l \<and> (vb' \<or> lk') then [] else [l])))
    \<or> (\<forall>vb lk. (l, v, vb, lk) \<notin># vss_abs s) \<and> vss_removeEntry l v s = (s, Inr [])"
  using assms by (rule vss_removeEntry_wf)

theorem vss_removeEntry_spec_witness:
  "\<exists>t. vss_removeEntry 10 3 vss_ex = (t, Inr [10]) \<and> vss_wf t \<and> vss_abs t = {#(20, 7, False, True)#}"
proof -
  have "(10, 3, vb, lk) \<in># vss_abs vss_ex \<longleftrightarrow> vb \<and> \<not> lk" for vb lk by (auto simp: vss_ex_abs)
  with vss_removeEntry_spec [OF vss_ex_wf, of 10 3] obtain t where
    t: "vss_wf t" "vss_abs t = remove_rows 10 (10, 3, True, False) (vss_abs vss_ex)"
      "vss_removeEntry 10 3 vss_ex = (t, Inr (if \<exists>(l', v', vb', lk') \<in># vss_abs vss_ex - {#(10, 3, True, False)#}.
              l' = 10 \<and> (vb' \<or> lk') then [] else [10]))" by auto
  have d: "vss_abs vss_ex - {#(10, 3, True, False)#} = {#(10, 5, False, False), (20, 7, False, True)#}"
    by (simp add: vss_ex_abs)
  from t(1,2) t(3)[unfolded d] show ?thesis by (simp add: remove_rows_def d)
qed

text \<open>
  C20. \<^verbatim>\<open>VSS::commit\<close> clears the lock of every row of the transaction and touches no other row.
\<close>

theorem vss_commit_spec:
  assumes "vss_wf s"
  shows "vss_wf (vss_commit txnID s) \<and> vss_abs (vss_commit txnID s) =
    image_mset (\<lambda>(l, v, vb, lk). (l, v, vb, lk \<and> v \<noteq> txnID)) (vss_abs s)"
proof -
  have "commit_row txnID = (\<lambda>(l, v, vb, lk). (l, v, vb, lk \<and> v \<noteq> txnID))" by auto
  with vss_commit_wf [OF assms] show ?thesis by simp
qed

theorem vss_commit_spec_witness:
  "vss_abs (vss_commit 7 vss_ex) = {#(10, 5, False, False), (10, 3, True, False), (20, 7, False, False)#}"
  using vss_commit_spec [OF vss_ex_wf, of 7] by (simp add: vss_ex_abs)

section \<open>A new segment\<close>

lemma vss_initShmseg_wf:
  assumes "vss_attached s" "VSS_INITIAL_SIZE \<le> vss_alloc s"
  shows "vss_wf (vss_initShmseg s)" "vss_abs (vss_initShmseg s) = {#}"
proof -
  let ?t = "vss_initShmseg s"
  have pos: "0 < VSSTABLE_INITIAL_COUNT" "0 < VSSSTORAGE_INITIAL_COUNT" by (simp_all add: VSS_sizes)
  have "vss_struct ?t" "vss_count ?t = 0" "vss_abs ?t = {#}"
    by (rule vss_struct_fresh; use pos in \<open>simp add: vss_initShmseg_def\<close>)+
  with assms show "vss_wf ?t" "vss_abs ?t = {#}" by (simp_all add: vss_wf_def vss_initShmseg_def)
qed

section \<open>Undo, save and load on the example\<close>

theorem vss_undo_restores_witness:
  "vss_undoChanges (fold vss_exec [OpInsert 30 8 False True, OpRemoveEntry 10 3, OpSetVBFlag 10 4 True] vss_ex)
     = (vss_ex, Inr ())"
  by (rule vss_undo_restores) (simp_all add: vss_ex_def)

definition vss_ex_full :: VSS where
  "vss_ex_full = vss_ex\<lparr>vss_hdr := (vss_hdr vss_ex)\<lparr>capacity := 3\<rparr>,
     vss_storage := take 3 (vss_storage vss_ex), vss_undo := [(0x10001, CurrentSizeCell 2)]\<rparr>"

lemma vss_ex_full_wf: "vss_wf vss_ex_full"
proof -
  have "\<exists>xs. chain (vss_storage vss_ex_full) 2 xs \<and> set xs = members vss_hash 1 (vss_storage vss_ex_full) 0"
    by (rule exI [of _ "[2, 1, 0]"]) (auto simp: vss_ex_full_def vss_ex_def members_def less_Suc_eq used_def)
  then have "chains_ok vss_hash (vss_buckets vss_ex_full) (vss_storage vss_ex_full)"
    by (simp add: chains_ok_def vss_ex_full_def vss_ex_def)
  moreover have "int i < 3 \<Longrightarrow> used (vss_storage vss_ex_full ! i)" for i
    by (cases "i = 0 \<or> i = 1 \<or> i = 2") (auto simp: vss_ex_full_def vss_ex_def used_def)
  ultimately have "vss_struct vss_ex_full"
    by (intro vss_structI) (auto simp: vss_ex_full_def vss_ex_def)
  then show ?thesis
    by (simp add: vss_wf_def vss_ex_full_def vss_ex_def vss_count_def used_def)
qed

theorem vss_grow_breaks_undo_witness:
  "\<exists>t. vss_insert 30 8 False True False vss_ex_full = (t, Inr ()) \<and> vss_wf t
     \<and> snd (vss_undoChanges t) = Inl Undefined"
  by (rule vss_grow_breaks_undo [OF vss_ex_full_wf]) (simp_all add: vss_ex_full_def vss_ex_def)

theorem vss_commit_undo_header_witness:
  "vss_undoChanges (vss_commit 7 vss_ex) =
     (vss_ex\<lparr>vss_hdr := (vss_hdr vss_ex)\<lparr>lockedEntryCount := 0\<rparr>\<rparr>, Inr ())"
  using vss_commit_undo_header [OF _ vss_ex_wf, of 7]
  by (simp add: vss_ex_def vss_getUncommittedLBIDs_def vss_rows_def empty_entry_def)

theorem vss_load_save_witness:
  "\<exists>t. vss_load (vss_save vss_ex) vss_ex_full = (t, Inr ()) \<and> vss_wf t \<and> vss_abs t = vss_abs vss_ex"
  using vss_load_save [OF vss_ex_wf, of vss_ex_full] by blast

end
