(* ===== verification/VBBM.thy ===== *)
theory VBBM
  imports Chained_Table Undo_Log Hasher
begin

text \<open>
  The Version Buffer Block Map, \<^verbatim>\<open>versioning/BRM/vbbm.{h,cpp}\<close>: the table that says where in the version
  buffer files the old version \<^verbatim>\<open><lbid, verID>\<close> of a block lies, and the files with the position of
  the next block to use in each. The theory has the segment and every operation but \<^verbatim>\<open>getBlocks\<close>,
  which also changes the VSS and is in the theory \<open>Version_Buffer\<close>. The build without \<^verbatim>\<open>BRM_DEBUG\<close> is
  modelled. The parameter \<open>cfg\<close> is the value of \<^verbatim>\<open>VersionBuffer/VersionBufferFileSize\<close> in the
  configuration, \<open>None\<close> when the key is missing.
\<close>

section \<open>State\<close>

record VBFileMetadata =
  fileOID :: OID_t
  fileSize :: nat
  nextOffset :: nat

record VBBMEntry = table_entry +
  vbOID :: OID_t
  vbFBO :: nat

record VBShmsegHeader =
  nFiles :: int
  vbCapacity :: int
  vbCurrentSize :: int
  vbLWM :: int
  vbNumHashBuckets :: int

datatype vbbm_addr = VBHeaderAt | VBStorageAt nat | VBBucketAt nat | VBCurrentSizeAt | VBFileAt nat

datatype vbbm_cell =
    VBHeaderCell VBShmsegHeader
  | VBStorageCell nat VBBMEntry
  | VBBucketCell nat int
  | VBCurrentSizeCell int
  | VBFileCell nat VBFileMetadata

record VBBM =
  vb_hdr :: VBShmsegHeader
  vb_files :: "VBFileMetadata list"
  vb_buckets :: "int list"
  vb_storage :: "VBBMEntry list"
  vb_undo :: "(int \<times> vbbm_cell) list"
  vb_key :: int
  vb_alloc :: int
  vb_attached :: bool
  currentFileSize :: nat

fun vbbm_rd :: "VBBM \<Rightarrow> vbbm_addr \<Rightarrow> vbbm_cell" where
  "vbbm_rd s VBHeaderAt = VBHeaderCell (vb_hdr s)"
| "vbbm_rd s (VBStorageAt i) = VBStorageCell i (vb_storage s ! i)"
| "vbbm_rd s (VBBucketAt b) = VBBucketCell b (vb_buckets s ! b)"
| "vbbm_rd s VBCurrentSizeAt = VBCurrentSizeCell (vbCurrentSize (vb_hdr s))"
| "vbbm_rd s (VBFileAt i) = VBFileCell i (vb_files s ! i)"

fun vbbm_wr :: "vbbm_cell \<Rightarrow> VBBM \<Rightarrow> VBBM" where
  "vbbm_wr (VBHeaderCell h) s = s\<lparr>vb_hdr := h\<rparr>"
| "vbbm_wr (VBStorageCell i e) s = s\<lparr>vb_storage := (vb_storage s)[i := e]\<rparr>"
| "vbbm_wr (VBBucketCell b v) s = s\<lparr>vb_buckets := (vb_buckets s)[b := v]\<rparr>"
| "vbbm_wr (VBCurrentSizeCell n) s = s\<lparr>vb_hdr := (vb_hdr s)\<lparr>vbCurrentSize := n\<rparr>\<rparr>"
| "vbbm_wr (VBFileCell i x) s = s\<lparr>vb_files := (vb_files s)[i := x]\<rparr>"

fun vbbm_addr_of :: "vbbm_cell \<Rightarrow> vbbm_addr" where
  "vbbm_addr_of (VBHeaderCell h) = VBHeaderAt"
| "vbbm_addr_of (VBStorageCell i e) = VBStorageAt i"
| "vbbm_addr_of (VBBucketCell b v) = VBBucketAt b"
| "vbbm_addr_of (VBCurrentSizeCell n) = VBCurrentSizeAt"
| "vbbm_addr_of (VBFileCell i x) = VBFileAt i"

definition vbbm_makeUndoRecord :: "vbbm_addr \<Rightarrow> VBBM \<Rightarrow> VBBM" where
  "vbbm_makeUndoRecord a s = s\<lparr>vb_undo := vb_undo s @ [(vb_key s, vbbm_rd s a)]\<rparr>"

definition vbbm_undoChanges :: "VBBM \<Rightarrow> (VBBM, unit) outcome" where
  "vbbm_undoChanges s =
     (if \<forall>r \<in> set (vb_undo s). fst r = vb_key s
      then ((foldr vbbm_wr (map snd (vb_undo s)) s)\<lparr>vb_undo := []\<rparr>, Inr ())
      else (s, Inl Undefined))"

definition vbbm_confirmChanges :: "VBBM \<Rightarrow> VBBM" where
  "vbbm_confirmChanges s = s\<lparr>vb_undo := []\<rparr>"

section \<open>Segments\<close>

text \<open>\<^verbatim>\<open>sizeof(VBBMEntry) = 24\<close>, \<^verbatim>\<open>sizeof(VBFileMetadata) = 24\<close>, \<^verbatim>\<open>sizeof(VBShmsegHeader) = 20\<close>.\<close>

definition VBSTORAGE_INITIAL_COUNT :: int where "VBSTORAGE_INITIAL_COUNT = 100000"
definition VBSTORAGE_INCREMENT_COUNT :: int where "VBSTORAGE_INCREMENT_COUNT = 10000"
definition VBTABLE_INITIAL_COUNT :: int where "VBTABLE_INITIAL_COUNT = 25000"
definition VBTABLE_INCREMENT_COUNT :: int where "VBTABLE_INCREMENT_COUNT = 2500"

definition VBBM_INCREMENT :: int where
  "VBBM_INCREMENT = VBTABLE_INCREMENT_COUNT * 4 + VBSTORAGE_INCREMENT_COUNT * 24"

definition VBBM_SIZE :: "int \<Rightarrow> int \<Rightarrow> int" where
  "VBBM_SIZE files entries = entries * 24 + entries div 4 * 4 + files * 24 + 20"

definition vbbm_initial_alloc :: "int \<Rightarrow> int" where
  "vbbm_initial_alloc n = 20 + n * 24 + VBSTORAGE_INITIAL_COUNT * 24 + VBTABLE_INITIAL_COUNT * 4"

definition BLOCK_SIZE :: nat where "BLOCK_SIZE = 8192"
definition VBBM_CHUNK_SIZE :: nat where "VBBM_CHUNK_SIZE = 100"
definition KEYRANGE_VBBM_BASE :: int where "KEYRANGE_VBBM_BASE = 0x40000"
definition VBBM_KEYRANGE_SIZE :: int where "VBBM_KEYRANGE_SIZE = 0x10000"

definition vbbm_chooseShmkey :: "VBBM \<Rightarrow> int" where
  "vbbm_chooseShmkey s =
     (if vb_key s + 1 = KEYRANGE_VBBM_BASE + VBBM_KEYRANGE_SIZE - 1
         \<or> vb_key s mod 2 ^ 32 < KEYRANGE_VBBM_BASE
      then KEYRANGE_VBBM_BASE + 1 else vb_key s + 1)"

definition empty_vbbm_entry :: VBBMEntry where
  "empty_vbbm_entry = \<lparr>lbid = -1, verID = 0, next_ix = 0, vbOID = 0, vbFBO = 0\<rparr>"

definition empty_vbfile :: VBFileMetadata where
  "empty_vbfile = \<lparr>fileOID = 0, fileSize = 0, nextOffset = 0\<rparr>"

text \<open>\<^verbatim>\<open>VBBM::setCurrentFileSize\<close>: the default of 2 GB is stored before the configuration is read.\<close>

definition vbbm_setCurrentFileSize :: "int option \<Rightarrow> VBBM \<Rightarrow> (VBBM, unit) outcome" where
  "vbbm_setCurrentFileSize cfg s =
     (let s = s\<lparr>currentFileSize := 2147483648\<rparr> in
      case cfg of
        None \<Rightarrow> (s, Inl InvalidArgument)
      | Some ltmp \<Rightarrow> if ltmp < 1 then (s, Inl InvalidArgument)
                      else (s\<lparr>currentFileSize := nat ltmp\<rparr>, Inr ()))"

text \<open>\<^verbatim>\<open>VBBM::initShmseg\<close>, on a zero-filled segment with room for \<open>n\<close> files.\<close>

definition vbbm_initShmseg :: "int option \<Rightarrow> int \<Rightarrow> VBBM \<Rightarrow> (VBBM, unit) outcome" where
  "vbbm_initShmseg cfg n s =
     (let s = s\<lparr>vb_hdr := \<lparr>nFiles = 0, vbCapacity = VBSTORAGE_INITIAL_COUNT, vbCurrentSize = 0,
                  vbLWM = 0, vbNumHashBuckets = VBTABLE_INITIAL_COUNT\<rparr>\<rparr> in
      and_then (vbbm_setCurrentFileSize cfg s)
        (\<lambda>_ s. (s\<lparr>vb_hdr := (vb_hdr s)\<lparr>nFiles := n\<rparr>,
                  vb_files := replicate (nat n) empty_vbfile,
                  vb_buckets := replicate (nat VBTABLE_INITIAL_COUNT) (-1),
                  vb_storage := replicate (nat VBSTORAGE_INITIAL_COUNT) empty_vbbm_entry\<rparr>, Inr ())))"

section \<open>Insertion and growth\<close>

definition vbbm_bucket :: "VBBM \<Rightarrow> LBID_t \<Rightarrow> VER_t \<Rightarrow> nat" where
  "vbbm_bucket s l v = hash_bucket (int_bytes 8 l @ int_bytes 4 v) (vbNumHashBuckets (vb_hdr s))"

text \<open>\<^verbatim>\<open>VBBM::_insert\<close>\<close>

definition vbbm_insert_entry :: "VBBMEntry \<Rightarrow> bool \<Rightarrow> VBBM \<Rightarrow> (VBBM, unit) outcome" where
  "vbbm_insert_entry e loading d =
     (let hashIndex = vbbm_bucket d (lbid e) (verID e) in
      case find_empty (vb_storage d) (nat (vbLWM (vb_hdr d))) of
        None \<Rightarrow> (d, Inl Undefined)
      | Some insertIndex \<Rightarrow>
          let d = (if loading then d
                   else vbbm_makeUndoRecord (VBBucketAt hashIndex)
                          (vbbm_makeUndoRecord (VBStorageAt insertIndex)
                            (vbbm_makeUndoRecord VBHeaderAt d)));
              d = d\<lparr>vb_hdr := (vb_hdr d)\<lparr>vbLWM := int insertIndex\<rparr>\<rparr>;
              e = e\<lparr>next_ix := vb_buckets d ! hashIndex\<rparr>
          in (d\<lparr>vb_storage := (vb_storage d)[insertIndex := e],
                vb_buckets := (vb_buckets d)[hashIndex := int insertIndex]\<rparr>, Inr ()))"

text \<open>\<^verbatim>\<open>VBBM::copyVBBM\<close>; the file metadata are copied by the caller, see \<open>vbbm_growVBBM\<close>.\<close>

fun vbbm_copy_loop :: "VBBMEntry list \<Rightarrow> VBBM \<Rightarrow> (VBBM, unit) outcome" where
  "vbbm_copy_loop [] d = (d, Inr ())"
| "vbbm_copy_loop (e # es) d =
     (if lbid e \<noteq> -1
      then and_then (vbbm_insert_entry e True d) (\<lambda>_. vbbm_copy_loop es)
      else vbbm_copy_loop es d)"

text \<open>
  The metadata slot that \<^verbatim>\<open>growVBBM(true)\<close> adds: \<^verbatim>\<open>nFiles\<close> is already incremented when the metadata are
  copied, so the bytes of the new slot are those at the start of the bucket array.
\<close>

definition overlay_file :: "int list \<Rightarrow> VBFileMetadata" where
  "overlay_file bk =
     (let w = (\<lambda>k. nat ((if k < length bk then bk ! k else 0) mod 2 ^ 32))
      in \<lparr>fileOID = (if 0 < length bk then bk ! 0 else 0), fileSize = w 2 + w 3 * 2 ^ 32,
          nextOffset = w 4 + w 5 * 2 ^ 32\<rparr>)"

definition vbbm_copyVBBM :: "VBBM \<Rightarrow> VBBM \<Rightarrow> (VBBM, unit) outcome" where
  "vbbm_copyVBBM s dest =
     (let n = nat (nFiles (vb_hdr s));
          dest = dest\<lparr>
            vb_hdr := (vb_hdr dest)\<lparr>nFiles := nFiles (vb_hdr s),
                                    vbCurrentSize := vbCurrentSize (vb_hdr s)\<rparr>,
            vb_files := take n (vb_files s @ [overlay_file (vb_buckets s)]),
            vb_buckets := replicate (nat (vbNumHashBuckets (vb_hdr dest))) (-1),
            vb_storage := replicate (nat (vbCapacity (vb_hdr dest))) empty_vbbm_entry\<rparr>
      in vbbm_copy_loop (take (nat (vbCurrentSize (vb_hdr s))) (vb_storage s)) dest)"

text \<open>
  \<^verbatim>\<open>VBBM::growVBBM\<close>. As for the VSS, every new segment is granted and its size stays in the range of an \<^verbatim>\<open>int\<close>.
\<close>

definition vbbm_growVBBM :: "int option \<Rightarrow> bool \<Rightarrow> VBBM \<Rightarrow> (VBBM, unit) outcome" where
  "vbbm_growVBBM cfg addAFile s =
     (let created = (vb_alloc s = 0);
          n = (if addAFile then 1 else 0);
          s = (if \<not> created \<and> addAFile
               then s\<lparr>vb_hdr := (vb_hdr s)\<lparr>nFiles := nFiles (vb_hdr s) + 1\<rparr>\<rparr> else s);
          allocSize = (if created then vbbm_initial_alloc n
                       else if \<not> addAFile then vb_alloc s + VBBM_INCREMENT
                       else vb_alloc s + 24);
          newshmkey = vbbm_chooseShmkey s
      in and_then
           (if vb_attached s
            then and_then (vbbm_copyVBBM s (s\<lparr>
                   vb_hdr := (vb_hdr s)\<lparr>
                     vbCapacity := vbCapacity (vb_hdr s)
                       + (if addAFile then 0 else VBSTORAGE_INCREMENT_COUNT),
                     vbNumHashBuckets := vbNumHashBuckets (vb_hdr s)
                       + (if addAFile then 0 else VBTABLE_INCREMENT_COUNT),
                     vbLWM := 0\<rparr>\<rparr>))
                   (\<lambda>_ t. (t\<lparr>vb_undo := []\<rparr>, Inr ()))
            else (s\<lparr>vb_attached := True\<rparr>, Inr ()))
           (\<lambda>_ t. and_then (if created then vbbm_initShmseg cfg n t else (t, Inr ()))
             (\<lambda>_ t. (t\<lparr>vb_key := newshmkey, vb_alloc := allocSize\<rparr>, Inr ()))))"

text \<open>\<^verbatim>\<open>VBBM::insert\<close>\<close>

definition vbbm_insert :: "int option \<Rightarrow> LBID_t \<Rightarrow> VER_t \<Rightarrow> OID_t \<Rightarrow> nat \<Rightarrow> bool \<Rightarrow> VBBM \<Rightarrow> (VBBM, unit) outcome"
where
  "vbbm_insert cfg l v oid fbo loading s =
     (let entry = \<lparr>lbid = l, verID = v, next_ix = -1, vbOID = oid, vbFBO = fbo\<rparr> in
      and_then (if vbCurrentSize (vb_hdr s) = vbCapacity (vb_hdr s) then vbbm_growVBBM cfg False s
                else (s, Inr ()))
        (\<lambda>_ s. and_then (vbbm_insert_entry entry loading s)
          (\<lambda>_ s. let s = (if loading then s else vbbm_makeUndoRecord VBCurrentSizeAt s)
                 in (s\<lparr>vb_hdr := (vb_hdr s)\<lparr>vbCurrentSize := vbCurrentSize (vb_hdr s) + 1\<rparr>\<rparr>, Inr ()))))"

section \<open>Look-up and removal\<close>

text \<open>\<^verbatim>\<open>VBBM::getIndex\<close>: the index found or \<open>-1\<close>, with the out parameters \<^verbatim>\<open>prev\<close> and \<^verbatim>\<open>bucket\<close>.\<close>

definition vbbm_getIndex :: "VBBM \<Rightarrow> LBID_t \<Rightarrow> VER_t \<Rightarrow> (int \<times> int \<times> nat) option" where
  "vbbm_getIndex s l v =
     (let b = vbbm_bucket s l v in
      if length (vb_buckets s) \<le> b then None
      else if vb_buckets s ! b = -1 then Some (-1, -1, b)
      else case chain_walk (Suc (length (vb_storage s))) (vb_storage s)
                  (\<lambda>i e prev. if lbid e = l \<and> verID e = v then Inl (i, prev) else Inr i)
                  (vb_buckets s ! b) (-1) of
             None \<Rightarrow> None
           | Some (Inl (i, prev)) \<Rightarrow> Some (i, prev, b)
           | Some (Inr prev) \<Rightarrow> Some (-1, prev, b))"

text \<open>\<^verbatim>\<open>VBBM::lookup\<close>: the return code with the out parameters \<^verbatim>\<open>oid\<close> and \<^verbatim>\<open>fbo\<close> when it is \<open>0\<close>.\<close>

definition vbbm_lookup :: "VBBM \<Rightarrow> LBID_t \<Rightarrow> VER_t \<Rightarrow> brm_error + (int \<times> (OID_t \<times> nat) option)" where
  "vbbm_lookup s l v =
     (if l < 0 then Inl InvalidArgument
      else if v < 0 then Inl InvalidArgument
      else case vbbm_getIndex s l v of
             None \<Rightarrow> Inl Undefined
           | Some (index, prev, bucket) \<Rightarrow>
               if index = -1 then Inr (-1, None)
               else Inr (0, Some (vbOID (vb_storage s ! nat index), vbFBO (vb_storage s ! nat index))))"

text \<open>\<^verbatim>\<open>VBBM::removeEntry\<close>\<close>

definition vbbm_removeEntry :: "LBID_t \<Rightarrow> VER_t \<Rightarrow> VBBM \<Rightarrow> (VBBM, unit) outcome" where
  "vbbm_removeEntry l v s =
     (case vbbm_getIndex s l v of
        None \<Rightarrow> (s, Inl Undefined)
      | Some (i, prev, bucket) \<Rightarrow>
          if i = -1 then (s, Inr ())
          else
            let index = nat i;
                s = vbbm_makeUndoRecord (VBStorageAt index) s;
                s = s\<lparr>vb_storage := (vb_storage s)[index := (vb_storage s ! index)\<lparr>lbid := -1\<rparr>]\<rparr>;
                s = (if prev \<noteq> -1
                     then let s = vbbm_makeUndoRecord (VBStorageAt (nat prev)) s
                          in s\<lparr>vb_storage := (vb_storage s)[nat prev :=
                                 (vb_storage s ! nat prev)\<lparr>next_ix := next_ix (vb_storage s ! index)\<rparr>]\<rparr>
                     else let s = vbbm_makeUndoRecord (VBBucketAt bucket) s
                          in s\<lparr>vb_buckets := (vb_buckets s)[bucket := next_ix (vb_storage s ! index)]\<rparr>);
                s = vbbm_makeUndoRecord VBHeaderAt s;
                s = s\<lparr>vb_hdr := (vb_hdr s)\<lparr>vbCurrentSize := vbCurrentSize (vb_hdr s) - 1\<rparr>\<rparr>;
                s = (if vbLWM (vb_hdr s) > i then s\<lparr>vb_hdr := (vb_hdr s)\<lparr>vbLWM := i\<rparr>\<rparr> else s)
            in (s, Inr ()))"

text \<open>\<^verbatim>\<open>VBBM::size\<close>, \<^verbatim>\<open>VBBM::hashEmpty\<close>\<close>

definition vbbm_size :: "VBBM \<Rightarrow> int" where
  "vbbm_size s = vbCurrentSize (vb_hdr s)"

definition vbbm_hashEmpty :: "VBBM \<Rightarrow> bool" where
  "vbbm_hashEmpty s = list_all (\<lambda>h. h = -1) (take (nat (vbNumHashBuckets (vb_hdr s))) (vb_buckets s))"

text \<open>\<^verbatim>\<open>VBBM::addVBFileIfNotExists\<close>: the index of the file.\<close>

definition vbbm_addVBFileIfNotExists :: "int option \<Rightarrow> OID_t \<Rightarrow> VBBM \<Rightarrow> (VBBM, nat) outcome" where
  "vbbm_addVBFileIfNotExists cfg oid s =
     (case find (\<lambda>i. fileOID (vb_files s ! i) = oid) [0..<nat (nFiles (vb_hdr s))] of
        Some i \<Rightarrow> (s, Inr i)
      | None \<Rightarrow>
          let i = nat (nFiles (vb_hdr s)) in
          and_then (vbbm_setCurrentFileSize cfg s)
            (\<lambda>_ s. and_then (vbbm_growVBBM cfg True s)
              (\<lambda>_ s. (s\<lparr>vb_files := (vb_files s)[i :=
                          \<lparr>fileOID = oid, fileSize = currentFileSize s, nextOffset = 0\<rparr>]\<rparr>, Inr i))))"

section \<open>Clear, save and load\<close>

text \<open>\<^verbatim>\<open>VBBM::clear\<close>\<close>

definition vbbm_clear :: "int option \<Rightarrow> VBBM \<Rightarrow> (VBBM, unit) outcome" where
  "vbbm_clear cfg s =
     and_then (vbbm_setCurrentFileSize cfg s)
       (\<lambda>_ s. let n = nFiles (vb_hdr s);
                  newFiles = map (\<lambda>x. x\<lparr>fileSize := currentFileSize s, nextOffset := 0\<rparr>)
                               (take (nat n) (vb_files s));
                  newshmkey = vbbm_chooseShmkey s
              in if vb_key s = newshmkey then (s, Inl AssertFailed)
                 else and_then (vbbm_initShmseg cfg n s)
                   (\<lambda>_ s. (s\<lparr>vb_key := newshmkey, vb_alloc := vbbm_initial_alloc n,
                             vb_files := newFiles\<rparr>, Inr ())))"

text \<open>\<^verbatim>\<open>VBBM::growForLoad\<close>\<close>

definition vbbm_growForLoad :: "int \<Rightarrow> VBBM \<Rightarrow> VBBM" where
  "vbbm_growForLoad elementCount s =
     (let nf = (if vb_attached s then nFiles (vb_hdr s) else 0);
          n = (if elementCount < VBSTORAGE_INITIAL_COUNT then VBSTORAGE_INITIAL_COUNT
               else elementCount);
          n = (if n mod VBSTORAGE_INCREMENT_COUNT \<noteq> 0
               then (n div VBSTORAGE_INCREMENT_COUNT + 1) * VBSTORAGE_INCREMENT_COUNT else n)
      in s\<lparr>vb_key := vbbm_chooseShmkey s, vb_alloc := VBBM_SIZE nf n, vb_attached := True,
           vb_hdr := \<lparr>nFiles = nf, vbCapacity = n, vbCurrentSize = 0, vbLWM = 0,
                      vbNumHashBuckets = n div 4\<rparr>,
           vb_files := (if vb_attached s then take (nat nf) (vb_files s) else []),
           vb_undo := [],
           vb_buckets := replicate (nat (n div 4)) (-1),
           vb_storage := replicate (nat n) empty_vbbm_entry\<rparr>)"

record vbbm_file =
  vbbm_magic :: int
  vbbm_entries_count :: int
  vbbm_files_count :: int
  vbbm_file_files :: "VBFileMetadata list"
  vbbm_file_entries :: "VBBMEntry list"

definition VBBM_MAGIC_V2 :: int where "VBBM_MAGIC_V2 = 0x1fb58c7a"

definition vbbm_save :: "VBBM \<Rightarrow> vbbm_file" where
  "vbbm_save s = \<lparr>vbbm_magic = VBBM_MAGIC_V2, vbbm_entries_count = vbCurrentSize (vb_hdr s),
     vbbm_files_count = nFiles (vb_hdr s), vbbm_file_files = take (nat (nFiles (vb_hdr s))) (vb_files s),
     vbbm_file_entries = save_runs (vb_storage s) (nat (vbCapacity (vb_hdr s))) 0 None []\<rparr>"

fun vbbm_load_loop :: "int option \<Rightarrow> VBBMEntry list \<Rightarrow> VBBM \<Rightarrow> (VBBM, unit) outcome" where
  "vbbm_load_loop cfg [] s = (s, Inr ())"
| "vbbm_load_loop cfg (e # es) s =
     and_then (vbbm_insert cfg (lbid e) (verID e) (vbOID e) (vbFBO e) True s) (\<lambda>_. vbbm_load_loop cfg es)"

text \<open>\<^verbatim>\<open>while (vbbm->nFiles < nFiles) growVBBM(true);\<close>, with one round per missing file.\<close>

fun vbbm_addFiles :: "nat \<Rightarrow> int option \<Rightarrow> int \<Rightarrow> VBBM \<Rightarrow> (VBBM, unit) outcome" where
  "vbbm_addFiles 0 cfg n s = (if nFiles (vb_hdr s) < n then (s, Inl Undefined) else (s, Inr ()))"
| "vbbm_addFiles (Suc k) cfg n s =
     (if nFiles (vb_hdr s) < n
      then and_then (vbbm_growVBBM cfg True s) (\<lambda>_. vbbm_addFiles k cfg n)
      else (s, Inr ()))"

text \<open>
  \<^verbatim>\<open>VBBM::load\<close> and \<^verbatim>\<open>VBBM::loadVersion2\<close>. Negative counts in the file lead to allocations of a
  negative number of elements and have no result.
\<close>

definition vbbm_load :: "int option \<Rightarrow> vbbm_file \<Rightarrow> VBBM \<Rightarrow> (VBBM, unit) outcome" where
  "vbbm_load cfg f s =
     (if vbbm_magic f \<noteq> VBBM_MAGIC_V2 then (s, Inl RuntimeError)
      else if vbbm_entries_count f < 0 \<or> vbbm_files_count f < 0 then (s, Inl Undefined)
      else
        let n = vbbm_files_count f;
            s = (if nFiles (vb_hdr s) > n then s\<lparr>vb_hdr := (vb_hdr s)\<lparr>nFiles := n\<rparr>\<rparr> else s)
        in and_then (vbbm_clear cfg s)
          (\<lambda>_ s. and_then (vbbm_addFiles (nat n) cfg n s)
            (\<lambda>_ s. let s = vbbm_growForLoad (vbbm_entries_count f) s in
               if length (vbbm_file_files f) < nat n then (s, Inl RuntimeError)
               else
                 let s = s\<lparr>vb_files := take (nat n) (vbbm_file_files f)\<rparr> in
                 if length (vbbm_file_entries f) < nat (vbbm_entries_count f) then (s, Inl RuntimeError)
                 else vbbm_load_loop cfg (take (nat (vbbm_entries_count f)) (vbbm_file_entries f)) s)))"

end
