(* ===== verification/VBBM_Inv.thy ===== *)
theory VBBM_Inv
  imports VBBM
begin

text \<open>
  The invariant of the VBBM and what its operations do to the entries. The shape of the table
  (\<open>vbbm_struct\<close>) is that of the VSS. The recorded size is only an upper bound of the number of used
  entries: \<^verbatim>\<open>copyVBBM\<close> copies the elements below \<^verbatim>\<open>vbCurrentSize\<close>, and \<^verbatim>\<open>growVBBM\<close> is also called on tables
  with unused elements among them, so a growth can drop entries and keep the recorded size.
\<close>

section \<open>Interfaces provided\<close>

definition vbbm_hash :: "VBBMEntry \<Rightarrow> nat" where
  "vbbm_hash e = unat (hasher (int_bytes 8 (lbid e) @ int_bytes 4 (verID e)))"

interpretation vbbm_table: hashed_table vbbm_hash
  by unfold_locales (simp add: vbbm_hash_def)

lemma vbbm_wr_swap:
  "\<exists>d'. vbbm_addr_of d' = vbbm_addr_of d \<and> vbbm_wr c (vbbm_wr d s) = vbbm_wr d' (vbbm_wr c s)"
proof (cases "vbbm_addr_of c = vbbm_addr_of d")
  case True
  then have "vbbm_wr c (vbbm_wr d s) = vbbm_wr c (vbbm_wr c s)" by (cases c; cases d) simp_all
  with True show ?thesis by (intro exI [of _ c]) simp
next
  case False
  show ?thesis
  proof (cases "\<exists>h n. (c = VBHeaderCell h \<and> d = VBCurrentSizeCell n) \<or> (c = VBCurrentSizeCell n \<and> d = VBHeaderCell h)")
    case True
    then obtain h n where "(c = VBHeaderCell h \<and> d = VBCurrentSizeCell n) \<or> (c = VBCurrentSizeCell n \<and> d = VBHeaderCell h)"
      by blast
    then show ?thesis
    proof
      assume "c = VBHeaderCell h \<and> d = VBCurrentSizeCell n"
      then show ?thesis by (intro exI [of _ "VBCurrentSizeCell (vbCurrentSize h)"]) simp
    next
      assume "c = VBCurrentSizeCell n \<and> d = VBHeaderCell h"
      then show ?thesis by (intro exI [of _ "VBHeaderCell (h\<lparr>vbCurrentSize := n\<rparr>)"]) simp
    qed
  next
    case no: False
    from False no have "vbbm_wr c (vbbm_wr d s) = vbbm_wr d (vbbm_wr c s)"
      by (cases c; cases d) (simp_all add: list_update_swap)
    then show ?thesis by blast
  qed
qed

interpretation vbbm_mem: undo_memory vbbm_rd vbbm_wr vbbm_addr_of
proof unfold_locales
  fix s :: VBBM and a :: vbbm_addr
  show "vbbm_addr_of (vbbm_rd s a) = a" by (cases a) simp_all
  show "vbbm_wr (vbbm_rd s a) s = s" by (cases a) simp_all
next
  fix c d :: vbbm_cell and s :: VBBM
  assume "vbbm_addr_of c = vbbm_addr_of d"
  then show "vbbm_wr c (vbbm_wr d s) = vbbm_wr c s" by (cases c; cases d) simp_all
qed (rule vbbm_wr_swap)

section \<open>Invariant and abstraction\<close>

definition vbbm_struct :: "VBBM \<Rightarrow> bool" where
  "vbbm_struct s \<longleftrightarrow>
     chains_ok vbbm_hash (vb_buckets s) (vb_storage s) \<and>
     int (length (vb_buckets s)) = vbNumHashBuckets (vb_hdr s) \<and>
     int (length (vb_storage s)) = vbCapacity (vb_hdr s) \<and>
     0 \<le> vbLWM (vb_hdr s) \<and> vbLWM (vb_hdr s) \<le> vbCapacity (vb_hdr s) \<and>
     (\<forall>i < nat (vbLWM (vb_hdr s)). used (vb_storage s ! i))"

definition vbbm_count :: "VBBM \<Rightarrow> nat" where
  "vbbm_count s = length (filter used (vb_storage s))"

definition vbbm_inv :: "VBBM \<Rightarrow> bool" where
  "vbbm_inv s \<longleftrightarrow> vbbm_struct s \<and> vb_attached s \<and> 0 < vb_alloc s \<and>
     int (vbbm_count s) \<le> vbCurrentSize (vb_hdr s) \<and> vbCurrentSize (vb_hdr s) \<le> vbCapacity (vb_hdr s) \<and>
     int (length (vb_files s)) = nFiles (vb_hdr s)"

type_synonym vbbm_row = "LBID_t \<times> VER_t \<times> OID_t \<times> nat"

definition vbrow :: "VBBMEntry \<Rightarrow> vbbm_row" where
  "vbrow e = (lbid e, verID e, vbOID e, vbFBO e)"

definition vbbm_abs :: "VBBM \<Rightarrow> vbbm_row multiset" where
  "vbbm_abs s = image_mset vbrow (filter_mset used (mset (vb_storage s)))"

lemma vbrow_next [simp]: "vbrow (e\<lparr>next_ix := n\<rparr>) = vbrow e"
  by (simp add: vbrow_def)

lemma vbused_next [simp]: "used ((e :: VBBMEntry)\<lparr>next_ix := n\<rparr>) = used e"
  by (simp add: used_def)

lemma size_vbbm_abs: "size (vbbm_abs s) = vbbm_count s"
  by (simp add: vbbm_abs_def vbbm_count_def flip: mset_filter)

lemma mem_vbbm_abs:
  "r \<in># vbbm_abs s \<longleftrightarrow> (\<exists>i < length (vb_storage s). used (vb_storage s ! i) \<and> r = vbrow (vb_storage s ! i))"
  by (auto simp: vbbm_abs_def in_set_conv_nth)

lemma vbbm_abs_update:
  assumes "i < length (vb_storage s)"
  shows "image_mset vbrow (filter_mset used (mset ((vb_storage s)[i := e]))) =
    vbbm_abs s - (if used (vb_storage s ! i) then {#vbrow (vb_storage s ! i)#} else {#})
      + (if used e then {#vbrow e#} else {#})"
proof -
  have "used (vb_storage s ! i) \<Longrightarrow> vb_storage s ! i \<in># filter_mset used (mset (vb_storage s))"
    using assms by simp
  then show ?thesis
    by (auto simp: vbbm_abs_def filter_mset_upd [OF assms] image_mset_Diff)
qed

lemma vbbm_structD:
  assumes "vbbm_struct s"
  shows "chains_ok vbbm_hash (vb_buckets s) (vb_storage s)"
    "int (length (vb_buckets s)) = vbNumHashBuckets (vb_hdr s)"
    "int (length (vb_storage s)) = vbCapacity (vb_hdr s)"
    "0 \<le> vbLWM (vb_hdr s)" "vbLWM (vb_hdr s) \<le> vbCapacity (vb_hdr s)"
    "\<And>i. int i < vbLWM (vb_hdr s) \<Longrightarrow> used (vb_storage s ! i)"
    "nat (vbCapacity (vb_hdr s)) = length (vb_storage s)"
  using assms by (auto simp: vbbm_struct_def zless_nat_eq_int_zless)

lemma vbbm_structI:
  assumes "chains_ok vbbm_hash (vb_buckets s) (vb_storage s)"
    "int (length (vb_buckets s)) = vbNumHashBuckets (vb_hdr s)"
    "int (length (vb_storage s)) = vbCapacity (vb_hdr s)"
    "0 \<le> vbLWM (vb_hdr s)" "vbLWM (vb_hdr s) \<le> vbCapacity (vb_hdr s)"
    "\<And>i. int i < vbLWM (vb_hdr s) \<Longrightarrow> used (vb_storage s ! i)"
  shows "vbbm_struct s"
  using assms by (auto simp: vbbm_struct_def zless_nat_eq_int_zless)

lemma vbbm_bucket_hash:
  assumes "vbbm_struct s"
  shows "vbbm_bucket s (lbid e) (verID e) = vbbm_hash e mod length (vb_buckets s)"
proof -
  from assms have "nat (vbNumHashBuckets (vb_hdr s)) = length (vb_buckets s)"
    by (auto simp: vbbm_struct_def)
  then show ?thesis by (simp add: vbbm_bucket_def vbbm_hash_def hash_bucket_def)
qed

lemma vbbm_bucket_lt: "vbbm_struct s \<Longrightarrow> vbbm_bucket s l v < length (vb_buckets s)"
  using vbbm_bucket_hash [of s "\<lparr>lbid = l, verID = v, next_ix = 0, vbOID = 0, vbFBO = 0\<rparr>"]
  by (auto simp: vbbm_struct_def intro: vbbm_table.hash_bucket_lt)

lemma vbbm_makeUndoRecord_frame [simp]:
  "vb_hdr (vbbm_makeUndoRecord a s) = vb_hdr s"
  "vb_files (vbbm_makeUndoRecord a s) = vb_files s"
  "vb_buckets (vbbm_makeUndoRecord a s) = vb_buckets s"
  "vb_storage (vbbm_makeUndoRecord a s) = vb_storage s"
  "vb_key (vbbm_makeUndoRecord a s) = vb_key s"
  "vb_alloc (vbbm_makeUndoRecord a s) = vb_alloc s"
  "vb_attached (vbbm_makeUndoRecord a s) = vb_attached s"
  "currentFileSize (vbbm_makeUndoRecord a s) = currentFileSize s"
  by (simp_all add: vbbm_makeUndoRecord_def)

section \<open>Insertion\<close>

lemma vbbm_find_empty:
  assumes "vbbm_struct d" "vbbm_count d < length (vb_storage d)"
  obtains i where "find_empty (vb_storage d) (nat (vbLWM (vb_hdr d))) = Some i"
    "i < length (vb_storage d)" "\<not> used (vb_storage d ! i)"
    "\<forall>k < i. used (vb_storage d ! k)"
proof -
  note D = vbbm_structD [OF assms(1)]
  have below: "k < nat (vbLWM (vb_hdr d)) \<Longrightarrow> used (vb_storage d ! k)" for k
    using D(4,6) by (simp add: zless_nat_eq_int_zless)
  from assms(2) below obtain j where "nat (vbLWM (vb_hdr d)) \<le> j" "j < length (vb_storage d)"
      "\<not> used (vb_storage d ! j)"
    unfolding vbbm_count_def by (metis filter_hole)
  then obtain i where i: "find_empty (vb_storage d) (nat (vbLWM (vb_hdr d))) = Some i"
    using find_empty_exists by blast
  note F = find_empty_Some [OF i]
  have "used (vb_storage d ! k)" if "k < i" for k
    using F that below [of k] by (cases "k < nat (vbLWM (vb_hdr d))") auto
  with F show thesis by (intro that [OF i]) auto
qed

lemma vbbm_insert_entry_ok:
  assumes S: "vbbm_struct d" and u: "used e" and room: "vbbm_count d < length (vb_storage d)"
  obtains d' n where "vbbm_insert_entry e loading d = (d', Inr ())" "vbbm_struct d'"
    "vbbm_abs d' = add_mset (vbrow e) (vbbm_abs d)"
    "vb_hdr d' = (vb_hdr d)\<lparr>vbLWM := n\<rparr>" "vb_files d' = vb_files d" "vb_key d' = vb_key d"
    "vb_alloc d' = vb_alloc d" "vb_attached d' = vb_attached d" "currentFileSize d' = currentFileSize d"
    "loading \<longrightarrow> vb_undo d' = vb_undo d"
proof -
  from S room obtain i where i: "find_empty (vb_storage d) (nat (vbLWM (vb_hdr d))) = Some i"
    "i < length (vb_storage d)" "\<not> used (vb_storage d ! i)"
    "\<forall>k < i. used (vb_storage d ! k)" by (rule vbbm_find_empty)
  define h where "h = vbbm_bucket d (lbid e) (verID e)"
  define e' where "e' = e\<lparr>next_ix := vb_buckets d ! h\<rparr>"
  define d' where "d' = fst (vbbm_insert_entry e loading d)"
  have ins: "vbbm_insert_entry e loading d = (d', Inr ())"
    by (simp add: d'_def vbbm_insert_entry_def i(1) Let_def)
  have f: "vb_hdr d' = (vb_hdr d)\<lparr>vbLWM := int i\<rparr>"
    "vb_storage d' = (vb_storage d)[i := e']"
    "vb_buckets d' = (vb_buckets d)[h := int i]" "vb_files d' = vb_files d"
    "vb_key d' = vb_key d" "vb_alloc d' = vb_alloc d" "vb_attached d' = vb_attached d"
    "currentFileSize d' = currentFileSize d" "loading \<longrightarrow> vb_undo d' = vb_undo d"
    by (simp_all add: d'_def vbbm_insert_entry_def i(1) Let_def e'_def h_def)
  note D = vbbm_structD [OF S]
  have ok: "chains_ok vbbm_hash (vb_buckets d') (vb_storage d')"
    unfolding f e'_def using D(1) i(2,3) u vbbm_bucket_hash [OF S, of e]
    by (intro vbbm_table.chains_ok_insert) (simp_all add: h_def)
  have ue: "used e'" using u by (simp add: e'_def)
  have "vbbm_struct d'"
  proof (rule vbbm_structI)
    fix k assume "int k < vbLWM (vb_hdr d')"
    then have "k < i" by (simp add: f)
    with i show "used (vb_storage d' ! k)" by (simp add: f)
  qed (use ok D i(2) in \<open>auto simp: f\<close>)
  moreover have "vbbm_abs d' = add_mset (vbrow e) (vbbm_abs d)"
    using vbbm_abs_update [OF i(2), of e'] i(3) ue f(2)
    by (simp add: vbbm_abs_def [of d'] e'_def)
  ultimately show thesis using ins f by (intro that [of d' "int i"]) simp_all
qed

lemma vbbm_struct_fresh:
  assumes "int (length (vb_buckets d)) = vbNumHashBuckets (vb_hdr d)" "0 < vbNumHashBuckets (vb_hdr d)"
    "vb_buckets d = replicate (nat (vbNumHashBuckets (vb_hdr d))) (-1)"
    "vb_storage d = replicate (nat (vbCapacity (vb_hdr d))) empty_vbbm_entry"
    "0 \<le> vbCapacity (vb_hdr d)" "vbLWM (vb_hdr d) = 0"
  shows "vbbm_struct d" "vbbm_abs d = {#}"
proof -
  have e: "\<not> used empty_vbbm_entry" by (simp add: used_def empty_vbbm_entry_def)
  show "vbbm_struct d"
  proof (rule vbbm_structI)
    show "chains_ok vbbm_hash (vb_buckets d) (vb_storage d)"
      unfolding assms(3,4) using assms(2) e by (intro vbbm_table.chains_ok_empty) auto
  qed (use assms in simp_all)
  show "vbbm_abs d = {#}" using e by (simp add: vbbm_abs_def assms(4))
qed

section \<open>Growth\<close>

lemma vbbm_copy_loop_ok:
  "vbbm_struct d \<Longrightarrow> vbbm_count d + length (filter used es) \<le> length (vb_storage d) \<Longrightarrow>
   \<exists>d' n. vbbm_copy_loop es d = (d', Inr ()) \<and> vbbm_struct d'
      \<and> vbbm_abs d' = vbbm_abs d + image_mset vbrow (filter_mset used (mset es))
      \<and> vb_hdr d' = (vb_hdr d)\<lparr>vbLWM := n\<rparr> \<and> vb_files d' = vb_files d \<and> vb_key d' = vb_key d
      \<and> vb_alloc d' = vb_alloc d \<and> vb_attached d' = vb_attached d
      \<and> currentFileSize d' = currentFileSize d \<and> vb_undo d' = vb_undo d"
proof (induction es arbitrary: d)
  case Nil
  then show ?case by (intro exI [of _ d] exI [of _ "vbLWM (vb_hdr d)"]) simp
next
  case (Cons e es)
  show ?case
  proof (cases "used e")
    case True
    with Cons.prems have "vbbm_count d < length (vb_storage d)" by simp
    from Cons.prems(1) True this obtain d1 n1 where d1: "vbbm_insert_entry e True d = (d1, Inr ())"
      "vbbm_struct d1" "vbbm_abs d1 = add_mset (vbrow e) (vbbm_abs d)"
      "vb_hdr d1 = (vb_hdr d)\<lparr>vbLWM := n1\<rparr>" "vb_files d1 = vb_files d" "vb_key d1 = vb_key d"
      "vb_alloc d1 = vb_alloc d" "vb_attached d1 = vb_attached d" "currentFileSize d1 = currentFileSize d"
      "True \<longrightarrow> vb_undo d1 = vb_undo d" by (rule vbbm_insert_entry_ok)
    have c1: "vbbm_count d1 = Suc (vbbm_count d)" by (simp add: d1(3) flip: size_vbbm_abs)
    have "vbCapacity (vb_hdr d1) = vbCapacity (vb_hdr d)" by (simp add: d1(4))
    then have "length (vb_storage d1) = length (vb_storage d)"
      using vbbm_structD(7) [OF d1(2)] vbbm_structD(7) [OF Cons.prems(1)] by simp
    with Cons.prems(2) True c1 have "vbbm_count d1 + length (filter used es) \<le> length (vb_storage d1)"
      by simp
    from Cons.IH [OF d1(2) this] obtain d' n2 where d': "vbbm_copy_loop es d1 = (d', Inr ())" "vbbm_struct d'"
      "vbbm_abs d' = vbbm_abs d1 + image_mset vbrow (filter_mset used (mset es))"
      "vb_hdr d' = (vb_hdr d1)\<lparr>vbLWM := n2\<rparr>" "vb_files d' = vb_files d1" "vb_key d' = vb_key d1"
      "vb_alloc d' = vb_alloc d1" "vb_attached d' = vb_attached d1"
      "currentFileSize d' = currentFileSize d1" "vb_undo d' = vb_undo d1"
      by blast
    from d1 d' True have "vbbm_copy_loop (e # es) d = (d', Inr ())"
      "vbbm_abs d' = vbbm_abs d + image_mset vbrow (filter_mset used (mset (e # es)))"
      "vb_hdr d' = (vb_hdr d)\<lparr>vbLWM := n2\<rparr>"
      by (simp_all add: used_def)
    with d1(5-10) d'(2,5-10) show ?thesis by auto
  next
    case False
    then have "vbbm_copy_loop (e # es) d = vbbm_copy_loop es d" by (simp add: used_def)
    with Cons.IH [OF Cons.prems(1)] Cons.prems(2) False show ?thesis by simp
  qed
qed

end
