(* ===== verification/VBBM_Ops.thy ===== *)
theory VBBM_Ops
  imports VBBM_Inv
begin

text \<open>
  The operations of the VBBM on its rows: growth, insertion, look-up, removal and the list of version
  buffer files. Each keeps \<open>vbbm_inv\<close> and never ends in undefined behaviour.
\<close>

section \<open>Growth\<close>

abbreviation vbbm_kept :: "VBBM \<Rightarrow> vbbm_row multiset" where
  "vbbm_kept s \<equiv> image_mset vbrow (filter_mset used
     (mset (take (nat (vbCurrentSize (vb_hdr s))) (vb_storage s))))"

lemma vbbm_copyVBBM_ok:
  assumes "0 < vbNumHashBuckets (vb_hdr dest)" "vbCurrentSize (vb_hdr s) \<le> vbCapacity (vb_hdr dest)"
    and "0 \<le> vbCurrentSize (vb_hdr s)" "vbLWM (vb_hdr dest) = 0"
  shows "\<exists>d' n. vbbm_copyVBBM s dest = (d', Inr ()) \<and> vbbm_struct d' \<and> vbbm_abs d' = vbbm_kept s
      \<and> vb_hdr d' = (vb_hdr dest)\<lparr>nFiles := nFiles (vb_hdr s), vbCurrentSize := vbCurrentSize (vb_hdr s),
          vbLWM := n\<rparr>
      \<and> vb_files d' = take (nat (nFiles (vb_hdr s))) (vb_files s @ [overlay_file (vb_buckets s)])
      \<and> vb_key d' = vb_key dest \<and> vb_alloc d' = vb_alloc dest
      \<and> vb_attached d' = vb_attached dest \<and> currentFileSize d' = currentFileSize dest"
proof -
  let ?es = "take (nat (vbCurrentSize (vb_hdr s))) (vb_storage s)"
  define d where "d = dest\<lparr>
        vb_hdr := (vb_hdr dest)\<lparr>nFiles := nFiles (vb_hdr s), vbCurrentSize := vbCurrentSize (vb_hdr s)\<rparr>,
        vb_files := take (nat (nFiles (vb_hdr s))) (vb_files s @ [overlay_file (vb_buckets s)]),
        vb_buckets := replicate (nat (vbNumHashBuckets (vb_hdr dest))) (-1),
        vb_storage := replicate (nat (vbCapacity (vb_hdr dest))) empty_vbbm_entry\<rparr>"
  have d: "vbbm_struct d" "vbbm_abs d = {#}"
    by (rule vbbm_struct_fresh; use assms in \<open>simp add: d_def\<close>)+
  have "vbbm_count d = 0" by (simp add: d(2) flip: size_vbbm_abs)
  moreover have "length (filter used ?es) \<le> nat (vbCurrentSize (vb_hdr s))"
    by (rule order.trans [OF length_filter_le]) simp
  ultimately have "vbbm_count d + length (filter used ?es) \<le> length (vb_storage d)"
    using assms(2) by (simp add: d_def)
  moreover have "vbbm_copyVBBM s dest = vbbm_copy_loop ?es d"
    by (simp add: vbbm_copyVBBM_def d_def Let_def)
  ultimately show ?thesis using vbbm_copy_loop_ok [OF d(1), of ?es] d(2) by (auto simp: d_def)
qed

lemma VB_sizes:
  "VBBM_INCREMENT = 250000" "VBSTORAGE_INCREMENT_COUNT = 10000" "VBTABLE_INCREMENT_COUNT = 2500"
  "VBSTORAGE_INITIAL_COUNT = 100000" "VBTABLE_INITIAL_COUNT = 25000"
  by (simp_all add: VBBM_INCREMENT_def VBSTORAGE_INCREMENT_COUNT_def
      VBTABLE_INCREMENT_COUNT_def VBSTORAGE_INITIAL_COUNT_def VBTABLE_INITIAL_COUNT_def)

lemma vbbm_invD:
  assumes "vbbm_inv s"
  shows "vbbm_struct s" "vb_attached s" "0 < vb_alloc s"
    "int (vbbm_count s) \<le> vbCurrentSize (vb_hdr s)" "vbCurrentSize (vb_hdr s) \<le> vbCapacity (vb_hdr s)"
    "int (length (vb_files s)) = nFiles (vb_hdr s)" "0 \<le> vbCurrentSize (vb_hdr s)"
    "0 < vbNumHashBuckets (vb_hdr s)"
proof -
  show "vbbm_struct s" "vb_attached s" "0 < vb_alloc s"
    "int (vbbm_count s) \<le> vbCurrentSize (vb_hdr s)" "vbCurrentSize (vb_hdr s) \<le> vbCapacity (vb_hdr s)"
    "int (length (vb_files s)) = nFiles (vb_hdr s)" "0 \<le> vbCurrentSize (vb_hdr s)"
    using assms by (simp_all add: vbbm_inv_def)
  then have "vb_buckets s \<noteq> []" "int (length (vb_buckets s)) = vbNumHashBuckets (vb_hdr s)"
    by (simp_all add: vbbm_struct_def chains_ok_def)
  then show "0 < vbNumHashBuckets (vb_hdr s)" by (simp flip: length_greater_0_conv)
qed

lemma vbbm_growVBBM_ok:
  assumes inv: "vbbm_inv s"
  shows "\<exists>t n. vbbm_growVBBM cfg addAFile s = (t, Inr ()) \<and> vbbm_inv t \<and> vbbm_abs t = vbbm_kept s
      \<and> vb_hdr t = (vb_hdr s)\<lparr>
            nFiles := nFiles (vb_hdr s) + of_bool addAFile,
            vbCapacity := vbCapacity (vb_hdr s) + (if addAFile then 0 else VBSTORAGE_INCREMENT_COUNT),
            vbNumHashBuckets := vbNumHashBuckets (vb_hdr s) + (if addAFile then 0 else VBTABLE_INCREMENT_COUNT),
            vbLWM := n\<rparr>
      \<and> vb_files t = vb_files s @ (if addAFile then [overlay_file (vb_buckets s)] else [])
      \<and> vb_undo t = [] \<and> currentFileSize t = currentFileSize s"
proof -
  note D = vbbm_invD [OF inv]
  define s1 where "s1 = (if addAFile then s\<lparr>vb_hdr := (vb_hdr s)\<lparr>nFiles := nFiles (vb_hdr s) + 1\<rparr>\<rparr> else s)"
  define dest where "dest = s1\<lparr>vb_hdr := (vb_hdr s1)\<lparr>
       vbCapacity := vbCapacity (vb_hdr s1) + (if addAFile then 0 else VBSTORAGE_INCREMENT_COUNT),
       vbNumHashBuckets := vbNumHashBuckets (vb_hdr s1) + (if addAFile then 0 else VBTABLE_INCREMENT_COUNT),
       vbLWM := 0\<rparr>\<rparr>"
  have s1: "vbCurrentSize (vb_hdr s1) = vbCurrentSize (vb_hdr s)" "vb_storage s1 = vb_storage s"
    "vb_files s1 = vb_files s" "vb_buckets s1 = vb_buckets s" "vb_alloc s1 = vb_alloc s"
    "vb_attached s1 = vb_attached s" "currentFileSize s1 = currentFileSize s"
    "nFiles (vb_hdr s1) = nFiles (vb_hdr s) + of_bool addAFile"
    by (simp_all add: s1_def)
  have pre: "0 < vbNumHashBuckets (vb_hdr dest)" "vbCurrentSize (vb_hdr s1) \<le> vbCapacity (vb_hdr dest)"
    "0 \<le> vbCurrentSize (vb_hdr s1)" "vbLWM (vb_hdr dest) = 0"
    using D(5,7,8) by (simp_all add: dest_def s1_def VB_sizes)
  obtain d' n where d': "vbbm_copyVBBM s1 dest = (d', Inr ())" "vbbm_struct d'" "vbbm_abs d' = vbbm_kept s1"
      "vb_hdr d' = (vb_hdr dest)\<lparr>nFiles := nFiles (vb_hdr s1), vbCurrentSize := vbCurrentSize (vb_hdr s1),
          vbLWM := n\<rparr>"
      "vb_files d' = take (nat (nFiles (vb_hdr s1))) (vb_files s1 @ [overlay_file (vb_buckets s1)])"
      "vb_alloc d' = vb_alloc dest" "vb_attached d' = vb_attached dest"
      "currentFileSize d' = currentFileSize dest"
    using vbbm_copyVBBM_ok [OF pre] by blast
  have hdr: "vb_hdr d' = (vb_hdr s)\<lparr>nFiles := nFiles (vb_hdr s) + of_bool addAFile,
      vbCapacity := vbCapacity (vb_hdr s) + (if addAFile then 0 else VBSTORAGE_INCREMENT_COUNT),
      vbNumHashBuckets := vbNumHashBuckets (vb_hdr s) + (if addAFile then 0 else VBTABLE_INCREMENT_COUNT),
      vbLWM := n\<rparr>"
    by (simp add: d'(4) dest_def s1_def)
  have "nat (nFiles (vb_hdr s1)) = length (vb_files s) + of_bool addAFile"
    using s1(8) by (cases addAFile) (simp_all flip: D(6))
  then have files: "vb_files d' = vb_files s @ (if addAFile then [overlay_file (vb_buckets s)] else [])"
    by (simp add: d'(5) s1)
  have kept: "vbbm_abs d' = vbbm_kept s" by (simp add: d'(3) s1)
  have "vbbm_count d' \<le> nat (vbCurrentSize (vb_hdr s))"
    unfolding size_vbbm_abs [symmetric] kept
    by (simp flip: mset_filter) (rule order.trans [OF length_filter_le], simp)
  then have cnt: "int (vbbm_count d') \<le> vbCurrentSize (vb_hdr s)" using D(7) by simp
  define t where "t = d'\<lparr>vb_undo := [], vb_key := vbbm_chooseShmkey s1,
      vb_alloc := (if addAFile then vb_alloc s + 24 else vb_alloc s + VBBM_INCREMENT)\<rparr>"
  have "vbbm_growVBBM cfg addAFile s = (t, Inr ())"
    unfolding vbbm_growVBBM_def using D(2,3) d'(1)
    by (simp add: Let_def s1_def [symmetric] s1 t_def dest_def split del: if_split) (simp add: s1_def)
  moreover have "vbbm_inv t"
    using d'(2,7) cnt D hdr files
    by (auto simp: vbbm_inv_def t_def vbbm_struct_def vbbm_count_def dest_def s1 VB_sizes)
  moreover have "vbbm_abs t = vbbm_kept s" using kept by (simp add: t_def vbbm_abs_def)
  ultimately show ?thesis using hdr files d'(8) s1(7) by (auto simp: t_def dest_def)
qed

lemma vbbm_kept_full:
  assumes "vbbm_inv s" "vbCurrentSize (vb_hdr s) = vbCapacity (vb_hdr s)"
  shows "vbbm_kept s = vbbm_abs s"
  using assms(2) vbbm_structD(7) [OF vbbm_invD(1) [OF assms(1)]] by (simp add: vbbm_abs_def)

section \<open>Insertion\<close>

lemma vbbm_insert_ok:
  assumes inv: "vbbm_inv s" and l: "l \<noteq> -1"
  shows "\<exists>t. vbbm_insert cfg l v oid fbo loading s = (t, Inr ()) \<and> vbbm_inv t
      \<and> vbbm_abs t = add_mset (l, v, oid, fbo) (vbbm_abs s)
      \<and> vb_files t = vb_files s \<and> currentFileSize t = currentFileSize s
      \<and> vbCurrentSize (vb_hdr t) = vbCurrentSize (vb_hdr s) + 1 \<and> (loading \<and> vb_undo s = [] \<longrightarrow> vb_undo t = [])"
proof -
  define e where "e = \<lparr>lbid = l, verID = v, next_ix = -1, vbOID = oid, vbFBO = fbo\<rparr>"
  have e: "used e" "vbrow e = (l, v, oid, fbo)" using l by (simp_all add: e_def used_def vbrow_def)
  note D0 = vbbm_invD [OF inv]
  obtain s1 where s1: "(if vbCurrentSize (vb_hdr s) = vbCapacity (vb_hdr s) then vbbm_growVBBM cfg False s
        else (s, Inr ())) = (s1, Inr ())" "vbbm_inv s1" "vbbm_abs s1 = vbbm_abs s" "vb_files s1 = vb_files s"
      "vbCurrentSize (vb_hdr s1) < vbCapacity (vb_hdr s1)" "vbCurrentSize (vb_hdr s1) = vbCurrentSize (vb_hdr s)"
      "currentFileSize s1 = currentFileSize s" "vb_undo s = [] \<longrightarrow> vb_undo s1 = []"
  proof (cases "vbCurrentSize (vb_hdr s) = vbCapacity (vb_hdr s)")
    case True
    from vbbm_growVBBM_ok [OF inv, of cfg False] vbbm_kept_full [OF inv True] obtain t n where
      "vbbm_growVBBM cfg False s = (t, Inr ())" "vbbm_inv t" "vbbm_abs t = vbbm_abs s"
      "vb_files t = vb_files s" "vb_undo t = []" "currentFileSize t = currentFileSize s"
      "vb_hdr t = (vb_hdr s)\<lparr>nFiles := nFiles (vb_hdr s) + of_bool False,
            vbCapacity := vbCapacity (vb_hdr s) + VBSTORAGE_INCREMENT_COUNT,
            vbNumHashBuckets := vbNumHashBuckets (vb_hdr s) + VBTABLE_INCREMENT_COUNT, vbLWM := n\<rparr>"
      by auto
    with True show thesis by (intro that [of t]) (simp_all add: VB_sizes)
  next
    case False
    with inv D0(5) show thesis by (intro that [of s]) simp_all
  qed
  note D = vbbm_invD [OF s1(2)]
  from s1(5) D(4) have room: "vbbm_count s1 < length (vb_storage s1)"
    by (simp flip: vbbm_structD(3) [OF D(1)])
  from D(1) e(1) room obtain d n where d: "vbbm_insert_entry e loading s1 = (d, Inr ())" "vbbm_struct d"
    "vbbm_abs d = add_mset (vbrow e) (vbbm_abs s1)" "vb_hdr d = (vb_hdr s1)\<lparr>vbLWM := n\<rparr>"
    "vb_files d = vb_files s1" "vb_key d = vb_key s1"
    "vb_alloc d = vb_alloc s1" "vb_attached d = vb_attached s1" "currentFileSize d = currentFileSize s1"
    "loading \<longrightarrow> vb_undo d = vb_undo s1" by (rule vbbm_insert_entry_ok)
  define d1 where "d1 = (if loading then d else vbbm_makeUndoRecord VBCurrentSizeAt d)"
  define t where "t = d1\<lparr>vb_hdr := (vb_hdr d1)\<lparr>vbCurrentSize := vbCurrentSize (vb_hdr d1) + 1\<rparr>\<rparr>"
  have t: "vbbm_insert cfg l v oid fbo loading s = (t, Inr ())"
    unfolding vbbm_insert_def Let_def e_def [symmetric] s1(1) and_then_simps d(1) d1_def [symmetric]
    by (simp add: t_def)
  have f: "vb_buckets t = vb_buckets d" "vb_storage t = vb_storage d" "vb_files t = vb_files d"
      "vb_alloc t = vb_alloc d" "vb_attached t = vb_attached d" "currentFileSize t = currentFileSize d"
      "vb_hdr t = (vb_hdr d)\<lparr>vbCurrentSize := vbCurrentSize (vb_hdr d) + 1\<rparr>"
      "loading \<longrightarrow> vb_undo t = vb_undo d"
    by (simp_all add: t_def d1_def)
  have abs: "vbbm_abs t = vbbm_abs d" by (simp add: vbbm_abs_def f)
  then have cnt: "vbbm_count t = Suc (vbbm_count s1)" by (simp add: d(3) flip: size_vbbm_abs)
  have "vbbm_struct t" using d(2) by (simp add: vbbm_struct_def f)
  then have "vbbm_inv t" using D s1(5) cnt by (simp add: vbbm_inv_def f d)
  moreover have "vbbm_abs t = add_mset (l, v, oid, fbo) (vbbm_abs s)" by (simp add: abs d(3) e s1(3))
  ultimately show ?thesis using t s1(4,6,7,8) d(5,9,10) f by (auto simp: d(4))
qed

section \<open>Look-up\<close>

lemma vbbm_chain:
  assumes s: "vbbm_struct s"
  obtains xs where "chain (vb_storage s) (vb_buckets s ! vbbm_bucket s l v) xs"
    "\<forall>i \<in> set xs. i < length (vb_storage s) \<and> used (vb_storage s ! i)"
    "\<forall>i < length (vb_storage s). used (vb_storage s ! i) \<longrightarrow>
       lbid (vb_storage s ! i) = l \<longrightarrow> verID (vb_storage s ! i) = v \<longrightarrow> i \<in> set xs"
proof -
  from vbbm_structD(1) [OF s] vbbm_bucket_lt [OF s] obtain xs where
    xs: "chain (vb_storage s) (vb_buckets s ! vbbm_bucket s l v) xs"
      "set xs = members vbbm_hash (length (vb_buckets s)) (vb_storage s) (vbbm_bucket s l v)"
    by (rule chains_okE)
  have "i \<in> set xs" if "i < length (vb_storage s)" "used (vb_storage s ! i)" "lbid (vb_storage s ! i) = l"
    "verID (vb_storage s ! i) = v" for i
    using that vbbm_bucket_hash [OF s, of "vb_storage s ! i"] by (simp add: xs(2) members_def)
  with xs show thesis by (intro that [of xs]) (auto simp: members_def)
qed

lemma vbbm_getIndex_cases:
  assumes s: "vbbm_struct s"
  shows "(\<exists>ys x zs. chain (vb_storage s) (vb_buckets s ! vbbm_bucket s l v) (ys @ x # zs)
        \<and> x < length (vb_storage s) \<and> used (vb_storage s ! x)
        \<and> lbid (vb_storage s ! x) = l \<and> verID (vb_storage s ! x) = v
        \<and> vbbm_getIndex s l v = Some (int x, if ys = [] then -1 else int (last ys), vbbm_bucket s l v))
    \<or> (\<forall>i < length (vb_storage s). used (vb_storage s ! i) \<longrightarrow>
           \<not> (lbid (vb_storage s ! i) = l \<and> verID (vb_storage s ! i) = v))
        \<and> (\<exists>prev. vbbm_getIndex s l v = Some (-1, prev, vbbm_bucket s l v))"
proof -
  let ?st = "vb_storage s" and ?P = "\<lambda>e :: VBBMEntry. lbid e = l \<and> verID e = v" and ?b = "vbbm_bucket s l v"
  let ?body = "\<lambda>i e (prev :: int). if ?P e then Inl (i, prev) else Inr i"
  from s obtain xs where xs: "chain ?st (vb_buckets s ! ?b) xs"
    "\<forall>i \<in> set xs. i < length ?st \<and> used (?st ! i)"
    "\<forall>i < length ?st. used (?st ! i) \<longrightarrow> lbid (?st ! i) = l \<longrightarrow> verID (?st ! i) = v \<longrightarrow> i \<in> set xs"
    by (rule vbbm_chain)
  have blt: "\<not> length (vb_buckets s) \<le> ?b" using vbbm_bucket_lt [OF s] by (simp add: not_le)
  have "length xs < Suc (length ?st)" using chain_length [OF xs(1)] by simp
  note w = chain_walk_list [OF xs(1) this, of ?body "-1"]
  have g: "vbbm_getIndex s l v = (if vb_buckets s ! ?b = -1 then Some (-1, -1, ?b)
     else case list_walk ?body ?st xs (-1) of
             Inl (i, prev) \<Rightarrow> Some (i, prev, ?b) | Inr prev \<Rightarrow> Some (-1, prev, ?b))"
    unfolding vbbm_getIndex_def Let_def if_not_P [OF blt] w by simp
  show ?thesis
  proof (cases "list_walk ?body ?st xs (-1)")
    case (Inl r)
    from list_walk_prev [OF this] obtain ys x zs where
      *: "xs = ys @ x # zs" "?P (?st ! x)" "r = (int x, if ys = [] then -1 else int (last ys))" by blast
    with xs(1) have "vb_buckets s ! ?b \<noteq> -1" by (cases ys) auto
    then have "vbbm_getIndex s l v = Some (int x, if ys = [] then -1 else int (last ys), ?b)"
      unfolding g Inl *(3) by simp
    with * xs(1,2) show ?thesis by auto
  next
    case (Inr r)
    from list_walk_prev_None [OF this] xs(3) have "\<forall>i < length ?st. used (?st ! i) \<longrightarrow> \<not> ?P (?st ! i)"
      by blast
    moreover have "\<exists>prev. vbbm_getIndex s l v = Some (-1, prev, ?b)" unfolding g Inr by simp
    ultimately show ?thesis by blast
  qed
qed

lemma vbbm_lookup_struct:
  assumes "vbbm_struct s" "0 \<le> l" "0 \<le> v"
  shows "(\<exists>oid fbo. (l, v, oid, fbo) \<in># vbbm_abs s \<and> vbbm_lookup s l v = Inr (0, Some (oid, fbo)))
    \<or> (\<forall>oid fbo. (l, v, oid, fbo) \<notin># vbbm_abs s) \<and> vbbm_lookup s l v = Inr (-1, None)"
  using vbbm_getIndex_cases [OF assms(1), of l v]
proof (elim disjE exE conjE)
  fix ys x zs
  assume x: "x < length (vb_storage s)" "used (vb_storage s ! x)" "lbid (vb_storage s ! x) = l"
    "verID (vb_storage s ! x) = v"
    "vbbm_getIndex s l v = Some (int x, if ys = [] then -1 else int (last ys), vbbm_bucket s l v)"
  then have "(l, v, vbOID (vb_storage s ! x), vbFBO (vb_storage s ! x)) \<in># vbbm_abs s"
    by (auto simp: mem_vbbm_abs vbrow_def)
  moreover have "vbbm_lookup s l v = Inr (0, Some (vbOID (vb_storage s ! x), vbFBO (vb_storage s ! x)))"
    using assms(2,3) by (simp add: vbbm_lookup_def x(5))
  ultimately show ?thesis by blast
next
  fix prev
  assume "\<forall>i < length (vb_storage s). used (vb_storage s ! i) \<longrightarrow>
           \<not> (lbid (vb_storage s ! i) = l \<and> verID (vb_storage s ! i) = v)"
    "vbbm_getIndex s l v = Some (-1, prev, vbbm_bucket s l v)"
  then show ?thesis using assms(2,3) by (auto simp: vbbm_lookup_def mem_vbbm_abs vbrow_def)
qed

section \<open>Removal\<close>

text \<open>The state after a removal of the element \<open>x\<close> that comes after the elements \<open>ys\<close> of its list.\<close>

lemma vbbm_removeEntry_fields:
  assumes g: "vbbm_getIndex s l v = Some (int x, if ys = [] then -1 else int (last ys), b)"
    and x: "x < length (vb_storage s)" "ys \<noteq> [] \<longrightarrow> last ys \<noteq> x"
  defines "t \<equiv> fst (vbbm_removeEntry l v s)"
  shows "vbbm_removeEntry l v s = (t, Inr ())"
    "vb_storage t = (if ys = [] then (vb_storage s)[x := (vb_storage s ! x)\<lparr>lbid := -1\<rparr>]
      else (vb_storage s)[x := (vb_storage s ! x)\<lparr>lbid := -1\<rparr>,
             last ys := (vb_storage s ! last ys)\<lparr>next_ix := next_ix (vb_storage s ! x)\<rparr>])"
    "vb_buckets t = (if ys = [] then (vb_buckets s)[b := next_ix (vb_storage s ! x)] else vb_buckets s)"
    "vb_hdr t = (vb_hdr s)\<lparr>vbCurrentSize := vbCurrentSize (vb_hdr s) - 1, vbLWM := min (int x) (vbLWM (vb_hdr s))\<rparr>"
    "vb_files t = vb_files s" "vb_alloc t = vb_alloc s" "vb_attached t = vb_attached s" "vb_key t = vb_key s"
    "currentFileSize t = currentFileSize s"
proof -
  have i: "int x \<noteq> -1" by simp
  note op = vbbm_removeEntry_def [of l v s, unfolded g option.case prod.case if_not_P [OF i] Let_def nat_int]
  show "vbbm_removeEntry l v s = (t, Inr ())" by (simp only: t_def) (simp add: op)
  show "vb_storage t = (if ys = [] then (vb_storage s)[x := (vb_storage s ! x)\<lparr>lbid := -1\<rparr>]
      else (vb_storage s)[x := (vb_storage s ! x)\<lparr>lbid := -1\<rparr>,
             last ys := (vb_storage s ! last ys)\<lparr>next_ix := next_ix (vb_storage s ! x)\<rparr>])"
    unfolding t_def op using x by (cases "ys = []") simp_all
  show "vb_buckets t = (if ys = [] then (vb_buckets s)[b := next_ix (vb_storage s ! x)] else vb_buckets s)"
    unfolding t_def op using x by (cases "ys = []") simp_all
  show "vb_hdr t = (vb_hdr s)\<lparr>vbCurrentSize := vbCurrentSize (vb_hdr s) - 1, vbLWM := min (int x) (vbLWM (vb_hdr s))\<rparr>"
    unfolding t_def op by (cases "ys = []") simp_all
  show "vb_files t = vb_files s" "vb_alloc t = vb_alloc s" "vb_attached t = vb_attached s" "vb_key t = vb_key s"
    "currentFileSize t = currentFileSize s"
    unfolding t_def op by (cases "ys = []"; simp)+
qed

lemma vbbm_abs_cleared:
  assumes "x < length st" "used (st ! x)"
  shows "image_mset vbrow (filter_mset used (mset (st[x := (st ! x)\<lparr>lbid := -1\<rparr>]))) =
      image_mset vbrow (filter_mset used (mset st)) - {#vbrow (st ! x)#}"
proof -
  have "st ! x \<in># filter_mset used (mset st)" "\<not> used ((st ! x)\<lparr>lbid := -1\<rparr>)"
    using assms by (simp_all add: used_def)
  then show ?thesis using assms by (simp add: filter_mset_upd image_mset_Diff)
qed

lemma vbbm_abs_relinked:
  assumes "p < length st"
  shows "image_mset vbrow (filter_mset used (mset (st[p := (st ! p)\<lparr>next_ix := n\<rparr>]))) =
      image_mset vbrow (filter_mset used (mset st))"
proof -
  have "used (st ! p) \<Longrightarrow> st ! p \<in># filter_mset used (mset st)" using assms by simp
  then show ?thesis using assms by (simp add: filter_mset_upd image_mset_Diff)
qed

lemma vbbm_removeEntry_cases:
  assumes inv: "vbbm_inv s"
  shows "(\<exists>x t. x < length (vb_storage s) \<and> used (vb_storage s ! x)
        \<and> lbid (vb_storage s ! x) = l \<and> verID (vb_storage s ! x) = v
        \<and> vbbm_removeEntry l v s = (t, Inr ()) \<and> vbbm_inv t
        \<and> vbbm_abs t = vbbm_abs s - {#vbrow (vb_storage s ! x)#} \<and> \<not> used (vb_storage t ! x)
        \<and> length (vb_storage t) = length (vb_storage s)
        \<and> (\<forall>i < length (vb_storage s). i \<noteq> x \<longrightarrow> vbrow (vb_storage t ! i) = vbrow (vb_storage s ! i))
        \<and> vb_files t = vb_files s \<and> vbCapacity (vb_hdr t) = vbCapacity (vb_hdr s)
        \<and> vb_key t = vb_key s \<and> currentFileSize t = currentFileSize s)
    \<or> (\<forall>i < length (vb_storage s). used (vb_storage s ! i) \<longrightarrow>
           \<not> (lbid (vb_storage s ! i) = l \<and> verID (vb_storage s ! i) = v))
        \<and> vbbm_removeEntry l v s = (s, Inr ())"
  using vbbm_getIndex_cases [OF vbbm_invD(1) [OF inv], of l v]
proof (elim disjE exE conjE)
  fix ys x zs
  let ?st = "vb_storage s" and ?b = "vbbm_bucket s l v"
  assume c: "chain ?st (vb_buckets s ! ?b) (ys @ x # zs)"
    and x: "x < length ?st" "used (?st ! x)" "lbid (?st ! x) = l" "verID (?st ! x) = v"
    and g: "vbbm_getIndex s l v = Some (int x, if ys = [] then -1 else int (last ys), ?b)"
  note I = vbbm_invD [OF inv] note D = vbbm_structD [OF I(1)]
  have yx: "ys \<noteq> [] \<longrightarrow> last ys \<noteq> x" "ys \<noteq> [] \<longrightarrow> last ys < length ?st"
    using chain_distinct [OF c] chain_in_range [OF c, of "last ys"] by auto
  define t where "t = fst (vbbm_removeEntry l v s)"
  note F = vbbm_removeEntry_fields [OF g x(1) yx(1), folded t_def]
  have nu: "\<not> used (vb_storage t ! x)" using x yx by (simp add: F(2) nth_upd used_def)
  have rows: "\<forall>i < length ?st. i \<noteq> x \<longrightarrow> vbrow (vb_storage t ! i) = vbrow (?st ! i)"
    using yx by (simp add: F(2) nth_upd)
  have ok: "chains_ok vbbm_hash (vb_buckets t) (vb_storage t)"
    unfolding F(2,3) using vbbm_table.chains_ok_delete_head [OF D(1) vbbm_bucket_lt [OF I(1)], of l v x zs]
      vbbm_table.chains_ok_delete_mid [OF D(1) vbbm_bucket_lt [OF I(1)] c] c by (cases "ys = []") simp_all
  have abs: "vbbm_abs t = vbbm_abs s - {#vbrow (?st ! x)#}"
    using vbbm_abs_cleared [OF x(1,2)] yx
      vbbm_abs_relinked [of "last ys" "?st[x := (?st ! x)\<lparr>lbid := -1\<rparr>]" "next_ix (?st ! x)"]
    by (cases "ys = []") (simp_all add: vbbm_abs_def F(2))
  have "vbrow (?st ! x) \<in># vbbm_abs s" using x by (auto simp: mem_vbbm_abs)
  then have cnt: "vbbm_count s = Suc (vbbm_count t)"
    unfolding size_vbbm_abs [symmetric] abs by (rule size_Suc_Diff1 [symmetric])
  have len: "length (vb_storage t) = length ?st" by (simp add: F(2))
  have "vbbm_struct t"
  proof (rule vbbm_structI)
    fix k assume "int k < vbLWM (vb_hdr t)"
    then have k: "k \<noteq> x" "int k < vbLWM (vb_hdr s)" by (simp_all add: F(4))
    with D(3,5,6) rows have "used (?st ! k)" "vbrow (vb_storage t ! k) = vbrow (?st ! k)" by auto
    then show "used (vb_storage t ! k)" by (simp add: vbrow_def used_def)
  qed (use ok D in \<open>auto simp: F\<close>)
  then have "vbbm_inv t" using I cnt by (simp add: vbbm_inv_def F)
  with x F abs nu rows len show ?thesis by (intro disjI1 exI [of _ x] exI [of _ t]) simp
next
  fix prev
  assume "\<forall>i < length (vb_storage s). used (vb_storage s ! i) \<longrightarrow>
           \<not> (lbid (vb_storage s ! i) = l \<and> verID (vb_storage s ! i) = v)"
    "vbbm_getIndex s l v = Some (-1, prev, vbbm_bucket s l v)"
  then show ?thesis by (simp add: vbbm_removeEntry_def)
qed

end
