(* ===== verification/Version_Buffer.thy ===== *)
theory Version_Buffer
  imports VSS_Contract VBBM_Ops
begin

text \<open>
  \<^verbatim>\<open>VBBM::getBlocks\<close>, which works on the VBBM and the VSS together: it hands out blocks of a version buffer file in circular
  order and first ages out the versions that still lie there. The version buffer is the pair of a VBBM and
  a VSS; flushing the caches of the primitive processors is seen as the list of blocks to flush.
\<close>

section \<open>Allocation of version buffer blocks\<close>

record VBRange =
  vbr_OID :: OID_t
  vbr_FBO :: nat
  vbr_size :: nat

type_synonym version_buffer = "VBBM \<times> VSS"

definition u32 :: "nat \<Rightarrow> nat" where
  "u32 n = n mod 2 ^ 32"

definition i32 :: "nat \<Rightarrow> int" where
  "i32 n = (int n + 2 ^ 31) mod 2 ^ 32 - 2 ^ 31"

text \<open>\<^verbatim>\<open>while ((vbbm->vbCurrentSize + num) > vbbm->vbCapacity) growVBBM();\<close>\<close>

fun vb_growLoop :: "nat \<Rightarrow> int option \<Rightarrow> int \<Rightarrow> VBBM \<Rightarrow> (VBBM, unit) outcome" where
  "vb_growLoop 0 cfg num s = (s, Inl Undefined)"
| "vb_growLoop (Suc fuel) cfg num s =
     (if vbCurrentSize (vb_hdr s) + num > vbCapacity (vb_hdr s)
      then and_then (vbbm_growVBBM cfg False s) (\<lambda>_. vb_growLoop fuel cfg num)
      else (s, Inr ()))"

text \<open>
  One round of the loop that gathers ranges until \<^verbatim>\<open>num\<close> blocks are found, and the loop; \<open>left\<close> is
  \<^verbatim>\<open>num - blocksGathered\<close>.
\<close>

definition vb_gatherStep :: "int \<Rightarrow> VBFileMetadata \<Rightarrow> VBRange \<times> VBFileMetadata" where
  "vb_gatherStep left x =
     (let blocksLeftInFile =
            i32 (nat ((int (fileSize x) - int (nextOffset x)) mod 2 ^ 64) div BLOCK_SIZE);
          size = nat ((if blocksLeftInFile \<ge> left then left else blocksLeftInFile) mod 2 ^ 32)
      in (\<lparr>vbr_OID = fileOID x, vbr_FBO = u32 (nextOffset x div BLOCK_SIZE), vbr_size = size\<rparr>,
          if size = nat (blocksLeftInFile mod 2 ^ 32) then x\<lparr>nextOffset := 0\<rparr>
          else x\<lparr>nextOffset := (nextOffset x + size * BLOCK_SIZE) mod 2 ^ 64\<rparr>))"

fun vb_gather :: "nat \<Rightarrow> nat \<Rightarrow> int \<Rightarrow> VBRange list \<Rightarrow> VBBM \<Rightarrow> (VBBM, VBRange list) outcome" where
  "vb_gather 0 fileIndex left ranges s = (s, Inl Undefined)"
| "vb_gather (Suc fuel) fileIndex left ranges s =
     (if left \<le> 0 then (s, Inr ranges)
      else
        let (range, x) = vb_gatherStep left (vb_files s ! fileIndex);
            s = vbbm_makeUndoRecord (VBFileAt fileIndex) s
        in vb_gather fuel fileIndex (left - int (vbr_size range)) (ranges @ [range])
             (s\<lparr>vb_files := (vb_files s)[fileIndex := x]\<rparr>))"

text \<open>The block numbers to age out for a range, \<open>None\<close> when there is nothing to do.\<close>

definition vb_ageBounds :: "nat \<Rightarrow> VBRange \<Rightarrow> (nat \<times> nat) option" where
  "vb_ageBounds fsize r =
     (let firstFBO = vbr_FBO r;
          lastFBO = u32 (vbr_FBO r + vbr_size r + (2 ^ 32 - 1));
          firstChunk = firstFBO div VBBM_CHUNK_SIZE;
          lastChunk = lastFBO div VBBM_CHUNK_SIZE
      in if firstFBO mod VBBM_CHUNK_SIZE \<noteq> 0 \<and> firstChunk = lastChunk then None
         else
           let firstFBO = (if firstFBO mod VBBM_CHUNK_SIZE \<noteq> 0
                           then u32 ((firstChunk + 1) * VBBM_CHUNK_SIZE) else firstFBO);
               lastFBO = u32 ((lastChunk + 1) * VBBM_CHUNK_SIZE + (2 ^ 32 - 1));
               lastFBO = (if lastFBO > fsize div BLOCK_SIZE then u32 (fsize div BLOCK_SIZE) else lastFBO)
           in Some (firstFBO, lastFBO))"

text \<open>The walk over the storage that ages out the entries of a file in the given bounds.\<close>

fun vb_ageLoop :: "OID_t \<Rightarrow> nat \<Rightarrow> nat \<Rightarrow> nat list \<Rightarrow> LBID_t list \<Rightarrow> version_buffer \<Rightarrow>
    (version_buffer, LBID_t list) outcome" where
  "vb_ageLoop oid lo hi [] flush s = (s, Inr flush)"
| "vb_ageLoop oid lo hi (i # is) flush (b, v) =
     (let e = vb_storage b ! i in
      if lbid e \<noteq> -1 \<and> vbOID e = oid \<and> lo \<le> vbFBO e \<and> vbFBO e \<le> hi
      then case vss_isEntryLocked v (lbid e) (verID e) of
             None \<Rightarrow> ((b, v), Inl Undefined)
           | Some True \<Rightarrow> ((b, v), Inl VBBMBufferOverFlowExcept)
           | Some False \<Rightarrow>
               (case vss_removeEntry (lbid e) (verID e) v of
                  (v', Inl err) \<Rightarrow> ((b, v'), Inl err)
                | (v', Inr fl) \<Rightarrow>
                    (case vbbm_removeEntry (lbid e) (verID e) b of
                       (b', Inl err) \<Rightarrow> ((b', v'), Inl err)
                     | (b', Inr _) \<Rightarrow> vb_ageLoop oid lo hi is (flush @ fl) (b', v')))
      else vb_ageLoop oid lo hi is flush (b, v))"

fun vb_ageRanges :: "nat \<Rightarrow> VBRange list \<Rightarrow> LBID_t list \<Rightarrow> version_buffer \<Rightarrow>
    (version_buffer, LBID_t list) outcome" where
  "vb_ageRanges fileIndex [] flush s = (s, Inr flush)"
| "vb_ageRanges fileIndex (r # rs) flush s =
     (case vb_ageBounds (fileSize (vb_files (fst s) ! fileIndex)) r of
        None \<Rightarrow> vb_ageRanges fileIndex rs flush s
      | Some (lo, hi) \<Rightarrow>
          and_then (vb_ageLoop (vbr_OID r) lo hi [0..<nat (vbCapacity (vb_hdr (fst s)))] flush s)
            (\<lambda>flush. vb_ageRanges fileIndex rs flush))"

text \<open>
  \<^verbatim>\<open>VBBM::getBlocks\<close>: the free ranges and the blocks to flush. The bounds of the loops: a growth
  adds \<open>10000\<close> elements, and at most every second range is empty.
\<close>

definition vb_getBlocks :: "int option \<Rightarrow> int \<Rightarrow> OID_t \<Rightarrow> bool \<Rightarrow> version_buffer \<Rightarrow>
    (version_buffer, VBRange list \<times> LBID_t list) outcome" where
  "vb_getBlocks cfg num oid flushPMCache s =
     (case vbbm_addVBFileIfNotExists cfg oid (fst s) of
        (b, Inl err) \<Rightarrow> ((b, snd s), Inl err)
      | (b, Inr fileIndex) \<Rightarrow>
          if nat (num mod 2 ^ 32) > fileSize (vb_files b ! fileIndex) div BLOCK_SIZE
          then ((b, snd s), Inl VBBMBufferOverFlowExcept)
          else (case and_then (vb_growLoop (Suc (nat (vbCurrentSize (vb_hdr b) + num - vbCapacity (vb_hdr b)))) cfg num b)
                      (\<lambda>_. vb_gather (2 * nat num + 2) fileIndex num []) of
                 (b, Inl err) \<Rightarrow> ((b, snd s), Inl err)
               | (b, Inr ranges) \<Rightarrow>
                   and_then (vb_ageRanges fileIndex ranges [] (b, snd s))
                     (\<lambda>flush s. (s, Inr (ranges, if flushPMCache then flush else [])))))"

section \<open>The blocks handed out\<close>

text \<open>
  Circular allocation: from position \<open>k\<close> of a file of \<open>N\<close> blocks, \<open>num\<close> blocks are taken in at most
  two ranges, and the position moves to \<open>(k + num) mod N\<close>.
\<close>

definition ring_ranges :: "OID_t \<Rightarrow> nat \<Rightarrow> nat \<Rightarrow> nat \<Rightarrow> VBRange list" where
  "ring_ranges oid N k num =
     (if num = 0 then []
      else if k + num \<le> N then [\<lparr>vbr_OID = oid, vbr_FBO = k, vbr_size = num\<rparr>]
      else [\<lparr>vbr_OID = oid, vbr_FBO = k, vbr_size = N - k\<rparr>,
            \<lparr>vbr_OID = oid, vbr_FBO = 0, vbr_size = num - (N - k)\<rparr>])"

definition vbr_blocks :: "VBRange \<Rightarrow> nat set" where
  "vbr_blocks r = {vbr_FBO r..<vbr_FBO r + vbr_size r}"

definition vbfile_at :: "VBFileMetadata \<Rightarrow> nat \<Rightarrow> nat \<Rightarrow> bool" where
  "vbfile_at x N k \<longleftrightarrow> fileSize x div BLOCK_SIZE = N \<and> N < 2 ^ 31 \<and> nextOffset x = k * BLOCK_SIZE \<and> k < N"

lemma vbfile_at_left:
  assumes "vbfile_at x N k"
  shows "i32 (nat ((int (fileSize x) - int (nextOffset x)) mod 2 ^ 64) div BLOCK_SIZE) = int (N - k)"
    "u32 (nextOffset x div BLOCK_SIZE) = k"
proof -
  from assms have x: "fileSize x div BLOCK_SIZE = N" "N < 2 ^ 31" "nextOffset x = k * BLOCK_SIZE" "k < N"
    by (simp_all add: vbfile_at_def)
  have B: "0 < BLOCK_SIZE" "BLOCK_SIZE = 8192" by (simp_all add: BLOCK_SIZE_def)
  have "fileSize x < 2 ^ 31 * BLOCK_SIZE"
    using x(1,2) by (metis B(1) div_less_iff_less_mult)
  then have le: "fileSize x < 2 ^ 64" by (simp add: B)
  have "N * BLOCK_SIZE \<le> fileSize x" using x(1) by (metis div_times_less_eq_dividend)
  with x(4) have ge: "k * BLOCK_SIZE \<le> fileSize x" by (meson less_imp_le mult_le_mono1 order.trans)
  then have "int (fileSize x) - int (nextOffset x) = int (fileSize x - k * BLOCK_SIZE)"
    by (simp add: x(3) of_nat_diff)
  moreover have "int (fileSize x - k * BLOCK_SIZE) mod 2 ^ 64 = int (fileSize x - k * BLOCK_SIZE)"
    by (rule mod_pos_pos_trivial) (use le in simp_all)
  ultimately have "nat ((int (fileSize x) - int (nextOffset x)) mod 2 ^ 64) = fileSize x - k * BLOCK_SIZE"
    by simp
  moreover have "fileSize x - k * BLOCK_SIZE = (N - k) * BLOCK_SIZE + fileSize x mod BLOCK_SIZE"
    using x(4) div_mult_mod_eq [of "fileSize x" BLOCK_SIZE]
    by (simp add: x(1) diff_mult_distrib)
  then have "(fileSize x - k * BLOCK_SIZE) div BLOCK_SIZE = N - k" using B(1) by simp
  ultimately show "i32 (nat ((int (fileSize x) - int (nextOffset x)) mod 2 ^ 64) div BLOCK_SIZE) = int (N - k)"
    using x(2) by (simp add: i32_def)
  show "u32 (nextOffset x div BLOCK_SIZE) = k" using x(2,3,4) B(1) by (simp add: u32_def)
qed

lemma vb_gatherStep_at:
  assumes x: "vbfile_at x N k" and left: "0 < left" "left \<le> N"
  shows "vb_gatherStep (int left) x =
    (\<lparr>vbr_OID = fileOID x, vbr_FBO = k, vbr_size = min left (N - k)\<rparr>,
     x\<lparr>nextOffset := ((k + min left (N - k)) mod N) * BLOCK_SIZE\<rparr>)"
proof -
  from x have N: "N < 2 ^ 31" "k < N" "nextOffset x = k * BLOCK_SIZE" by (simp_all add: vbfile_at_def)
  have m: "int n mod 2 ^ 32 = int n" if "n \<le> N" for n using that N(1) by simp
  have size: "nat ((if int left \<le> int (N - k) then int left else int (N - k)) mod 2 ^ 32) = min left (N - k)"
    using m [of left] m [of "N - k"] left by simp
  have le: "nat (int (N - k) mod 2 ^ 32) = N - k" using m [of "N - k"] by simp
  have off: "(if min left (N - k) = N - k then x\<lparr>nextOffset := 0\<rparr>
      else x\<lparr>nextOffset := (nextOffset x + min left (N - k) * BLOCK_SIZE) mod 2 ^ 64\<rparr>)
    = x\<lparr>nextOffset := ((k + min left (N - k)) mod N) * BLOCK_SIZE\<rparr>"
  proof (cases "min left (N - k) = N - k")
    case True
    with N(2) show ?thesis by simp
  next
    case False
    then have lt: "left < N - k" by (simp add: min_def split: if_splits)
    have "(k + left) * BLOCK_SIZE < 2 ^ 64"
      using lt N(1) by (simp add: BLOCK_SIZE_def)
    with lt N(3) show ?thesis by (simp add: add_mult_distrib)
  qed
  show ?thesis
    unfolding vb_gatherStep_def vbfile_at_left [OF x] Let_def size le off ..
qed

text \<open>The file record after the position has moved.\<close>

lemma vbfile_at_moved:
  assumes "vbfile_at x N k"
  shows "vbfile_at (x\<lparr>nextOffset := (n mod N) * BLOCK_SIZE\<rparr>) N (n mod N)"
  using assms by (simp add: vbfile_at_def)

lemma vb_gather_ring:
  assumes x: "vbfile_at (vb_files s ! f) N k" and f: "f < length (vb_files s)"
    and num: "num \<le> N" and fuel: "2 * num + 2 \<le> fuel"
  shows "\<exists>u. vb_gather fuel f (int num) [] s =
     (s\<lparr>vb_undo := u, vb_files := (vb_files s)[f := (vb_files s ! f)
          \<lparr>nextOffset := ((k + num) mod N) * BLOCK_SIZE\<rparr>]\<rparr>, Inr (ring_ranges (fileOID (vb_files s ! f)) N k num))"
proof -
  let ?x = "vb_files s ! f"
  define n where "n = fuel - 2"
  then have n: "fuel = Suc (Suc n)" using fuel by simp
  from x have k: "k < N" "nextOffset ?x = k * BLOCK_SIZE" by (simp_all add: vbfile_at_def)
  consider "num = 0" | "0 < num" "k + num \<le> N" | "0 < num" "N < k + num" by linarith
  then show ?thesis
  proof cases
    case 1
    have "(vb_files s)[f := ?x\<lparr>nextOffset := nextOffset ?x\<rparr>] = vb_files s" by simp
    with 1 n k show ?thesis by (intro exI [of _ "vb_undo s"]) (simp add: ring_ranges_def)
  next
    case 2
    then have "min num (N - k) = num" by simp
    with 2 n vb_gatherStep_at [OF x 2(1) num] show ?thesis
      by (simp add: ring_ranges_def vbbm_makeUndoRecord_def) blast
  next
    case 3
    let ?x1 = "?x\<lparr>nextOffset := ((k + (N - k)) mod N) * BLOCK_SIZE\<rparr>" and ?l = "num - (N - k)"
    have m: "min num (N - k) = N - k" using 3 by simp
    have s1: "vb_gatherStep (int num) ?x = (\<lparr>vbr_OID = fileOID ?x, vbr_FBO = k, vbr_size = N - k\<rparr>, ?x1)"
      using vb_gatherStep_at [OF x 3(1) num] by (simp only: m)
    have x1: "vbfile_at ?x1 N 0" using vbfile_at_moved [OF x, of "k + (N - k)"] k by simp
    have l: "0 < ?l" "?l \<le> N" "?l \<le> k" using 3 num k by auto
    have s2: "vb_gatherStep (int ?l) ?x1 = (\<lparr>vbr_OID = fileOID ?x, vbr_FBO = 0, vbr_size = ?l\<rparr>,
        ?x\<lparr>nextOffset := (?l mod N) * BLOCK_SIZE\<rparr>)"
      using vb_gatherStep_at [OF x1 l(1,2)] l by simp
    have "int num - int (N - k) = int ?l" using 3 by (simp add: of_nat_diff)
    moreover have "k + num = ?l + N" using 3 k by simp
    then have "(k + num) mod N = ?l mod N" by (simp only: mod_add_self2)
    moreover obtain n' where "n = Suc n'" using fuel n 3(1) by (cases n) auto
    ultimately show ?thesis using 3 n s1 s2 f l(1)
      by (simp add: ring_ranges_def vbbm_makeUndoRecord_def) blast
  qed
qed

end
