(* ===== verification/VB_Aging.thy ===== *)
theory VB_Aging
  imports Version_Buffer
begin

text \<open>
  What \<^verbatim>\<open>getBlocks\<close> does to the tables: it never ends in undefined behaviour, and when it returns, no
  entry of the VBBM lies in the blocks it hands out. The code ages out whole chunks of
  \<^verbatim>\<open>VBBM_CHUNK_SIZE\<close> blocks when it enters them, and relies on the rest of the current chunk to be
  clear; \<open>chunk_clear\<close> is that assumption.
\<close>

section \<open>Keys and bounds\<close>

definition unique_keys :: "(LBID_t \<times> VER_t \<times> 'a) multiset \<Rightarrow> bool" where
  "unique_keys R \<longleftrightarrow> (\<forall>l v. size {#r \<in># R. fst r = l \<and> fst (snd r) = v#} \<le> 1)"

lemma unique_keys_mono: "unique_keys R \<Longrightarrow> R' \<subseteq># R \<Longrightarrow> unique_keys R'"
  unfolding unique_keys_def by (meson multiset_filter_mono order.trans size_mset_mono)

lemma unique_keys_index:
  assumes "unique_keys (vbbm_abs s)" "i < length (vb_storage s)" "j < length (vb_storage s)"
    "used (vb_storage s ! i)" "used (vb_storage s ! j)"
    "lbid (vb_storage s ! i) = lbid (vb_storage s ! j)" "verID (vb_storage s ! i) = verID (vb_storage s ! j)"
  shows "i = j"
proof (rule ccontr)
  assume "i \<noteq> j"
  let ?st = "vb_storage s"
  let ?P = "\<lambda>e. used e \<and> lbid e = lbid (?st ! j) \<and> verID e = verID (?st ! j)"
  have "{#r \<in># vbbm_abs s. fst r = lbid (?st ! j) \<and> fst (snd r) = verID (?st ! j)#}
      = image_mset vbrow (filter_mset ?P (mset ?st))"
    by (simp add: vbbm_abs_def filter_mset_image_mset filter_filter_mset vbrow_def conj_commute)
  then have "size {#r \<in># vbbm_abs s. fst r = lbid (?st ! j) \<and> fst (snd r) = verID (?st ! j)#}
      = length (filter ?P ?st)" by (simp flip: mset_filter)
  then have "length (filter ?P ?st) \<le> 1"
    using assms(1) [unfolded unique_keys_def, THEN spec, THEN spec, of "lbid (?st ! j)" "verID (?st ! j)"]
    by (simp only:)
  moreover have "card {i, j} \<le> length (filter ?P ?st)"
    unfolding length_filter_conv_card using assms by (intro card_mono) auto
  ultimately show False using \<open>i \<noteq> j\<close> by simp
qed

definition age_hit :: "OID_t \<Rightarrow> nat \<Rightarrow> nat \<Rightarrow> VBBMEntry \<Rightarrow> bool" where
  "age_hit oid lo hi e \<longleftrightarrow> used e \<and> vbOID e = oid \<and> lo \<le> vbFBO e \<and> vbFBO e \<le> hi"

text \<open>Nothing is added: the entries of \<open>t\<close> are entries of \<open>s\<close> at the same place.\<close>

definition thinned :: "VBBM \<Rightarrow> VBBM \<Rightarrow> bool" where
  "thinned s t \<longleftrightarrow> length (vb_storage t) = length (vb_storage s) \<and> vb_files t = vb_files s
     \<and> vbCapacity (vb_hdr t) = vbCapacity (vb_hdr s) \<and> vbbm_abs t \<subseteq># vbbm_abs s
     \<and> (\<forall>i < length (vb_storage s). used (vb_storage t ! i) \<longrightarrow> vbrow (vb_storage t ! i) = vbrow (vb_storage s ! i))"

lemma thinned_refl [simp]: "thinned s s"
  by (simp add: thinned_def)

lemma vbrow_used: "vbrow e = vbrow e' \<Longrightarrow> used e = used e'"
  by (simp add: vbrow_def used_def)

lemma thinned_trans: "thinned s t \<Longrightarrow> thinned t u \<Longrightarrow> thinned s u"
  unfolding thinned_def by (metis vbrow_used subset_mset.trans)

lemma thinned_hit:
  assumes "thinned s t" "i < length (vb_storage s)" "age_hit oid lo hi (vb_storage t ! i)"
  shows "age_hit oid lo hi (vb_storage s ! i)"
proof -
  have "vbrow (vb_storage t ! i) = vbrow (vb_storage s ! i)"
    using assms by (simp add: thinned_def age_hit_def)
  with assms(3) show ?thesis by (simp add: age_hit_def vbrow_def used_def)
qed

lemma thinned_remove:
  assumes "vbbm_inv s" "unique_keys (vbbm_abs s)" "i < length (vb_storage s)" "used (vb_storage s ! i)"
  obtains t where "vbbm_removeEntry (lbid (vb_storage s ! i)) (verID (vb_storage s ! i)) s = (t, Inr ())"
    "vbbm_inv t" "thinned s t" "\<not> used (vb_storage t ! i)"
  using vbbm_removeEntry_cases [OF assms(1), of "lbid (vb_storage s ! i)" "verID (vb_storage s ! i)"]
proof (elim disjE exE conjE)
  fix x t
  assume x: "x < length (vb_storage s)" "used (vb_storage s ! x)" "lbid (vb_storage s ! x) = lbid (vb_storage s ! i)"
    "verID (vb_storage s ! x) = verID (vb_storage s ! i)"
    and t: "vbbm_removeEntry (lbid (vb_storage s ! i)) (verID (vb_storage s ! i)) s = (t, Inr ())" "vbbm_inv t"
    "vbbm_abs t = vbbm_abs s - {#vbrow (vb_storage s ! x)#}" "\<not> used (vb_storage t ! x)"
    "length (vb_storage t) = length (vb_storage s)"
    "\<forall>k < length (vb_storage s). k \<noteq> x \<longrightarrow> vbrow (vb_storage t ! k) = vbrow (vb_storage s ! k)"
    "vb_files t = vb_files s" "vbCapacity (vb_hdr t) = vbCapacity (vb_hdr s)"
  have xi: "x = i" using unique_keys_index [OF assms(2) x(1) assms(3) x(2) assms(4) x(3,4)] .
  have "thinned s t" unfolding thinned_def using t by (auto simp: xi)
  with t xi show thesis by (intro that [of t]) simp_all
next
  assume "\<forall>k < length (vb_storage s). used (vb_storage s ! k) \<longrightarrow>
           \<not> (lbid (vb_storage s ! k) = lbid (vb_storage s ! i) \<and> verID (vb_storage s ! k) = verID (vb_storage s ! i))"
  with assms(3,4) show thesis by blast
qed

section \<open>The walks\<close>

lemma vss_isEntryLocked_total:
  assumes "vss_struct s" "l \<noteq> -1"
  shows "\<exists>b. vss_isEntryLocked s l v = Some b"
proof -
  let ?f = "\<lambda>(l :: LBID_t, v, vb :: bool, lk) (h, m). (h \<or> lk, if \<not> lk \<and> v > m then v else (m :: VER_t))"
  let ?b = "\<lambda>i (e :: VSSEntry) acc. case acc of (hasALockedEntry, rollbackVersion) \<Rightarrow>
                if lbid e = l then
                  if locked e then Inr (True, rollbackVersion)
                  else if rollbackVersion < verID e then Inr (hasALockedEntry, verID e)
                  else Inr acc
                else (Inr acc :: unit + bool \<times> VER_t)"
  have "?b i e a = Inr (if lbid e = l then ?f (row e) a else a)" for i e a
    by (cases a) (simp add: row_def)
  from vss_walk_fold [OF assms this, of "(False, 0)"] obtain rs where
    "vss_walk s l ?b (False, 0) = Some (Inr (fold ?f rs (False, 0)))" by blast
  then show ?thesis unfolding vss_isEntryLocked_def using assms(2)
    by (simp split: prod.splits)
qed

lemma vb_ageLoop_Cons:
  "vb_ageLoop oid lo hi (i # is) flush (b, v) =
     (if age_hit oid lo hi (vb_storage b ! i)
      then case vss_isEntryLocked v (lbid (vb_storage b ! i)) (verID (vb_storage b ! i)) of
             None \<Rightarrow> ((b, v), Inl Undefined)
           | Some True \<Rightarrow> ((b, v), Inl VBBMBufferOverFlowExcept)
           | Some False \<Rightarrow>
               (case vss_removeEntry (lbid (vb_storage b ! i)) (verID (vb_storage b ! i)) v of
                  (v', Inl err) \<Rightarrow> ((b, v'), Inl err)
                | (v', Inr fl) \<Rightarrow>
                    (case vbbm_removeEntry (lbid (vb_storage b ! i)) (verID (vb_storage b ! i)) b of
                       (b', Inl err) \<Rightarrow> ((b', v'), Inl err)
                     | (b', Inr _) \<Rightarrow> vb_ageLoop oid lo hi is (flush @ fl) (b', v')))
      else vb_ageLoop oid lo hi is flush (b, v))"
  unfolding vb_ageLoop.simps Let_def age_hit_def used_def ..

lemma vb_ageLoop_ok:
  assumes "vbbm_inv b" "vss_wf v" "unique_keys (vbbm_abs b)" "\<forall>i \<in> set is. i < length (vb_storage b)"
  shows "\<exists>b' v' r. vb_ageLoop oid lo hi is flush (b, v) = ((b', v'), r)
     \<and> vbbm_inv b' \<and> vss_wf v' \<and> thinned b b'
     \<and> (r = Inl VBBMBufferOverFlowExcept
        \<or> (\<exists>fl. r = Inr fl) \<and> (\<forall>i \<in> set is. \<not> age_hit oid lo hi (vb_storage b' ! i)))"
  using assms
proof (induction "is" arbitrary: b v flush)
  case Nil
  then show ?case by simp
next
  case (Cons i "is")
  let ?e = "vb_storage b ! i"
  have i: "i < length (vb_storage b)" and rng: "\<forall>i \<in> set is. i < length (vb_storage b)"
    using Cons.prems(4) by simp_all
  show ?case
  proof (cases "age_hit oid lo hi ?e")
    case False
    then have step: "vb_ageLoop oid lo hi (i # is) flush (b, v) = vb_ageLoop oid lo hi is flush (b, v)"
      by (simp only: vb_ageLoop_Cons if_False)
    from Cons.IH [OF Cons.prems(1-3) rng, of flush] obtain b' v' r where
      "vb_ageLoop oid lo hi is flush (b, v) = ((b', v'), r)" "vbbm_inv b'" "vss_wf v'" "thinned b b'"
      and r: "r = Inl VBBMBufferOverFlowExcept \<or> (\<exists>fl. r = Inr fl) \<and> (\<forall>i \<in> set is. \<not> age_hit oid lo hi (vb_storage b' ! i))"
      by blast
    moreover have "\<not> age_hit oid lo hi (vb_storage b' ! i)"
      using thinned_hit [OF \<open>thinned b b'\<close> i] False by blast
    ultimately show ?thesis unfolding step by auto
  next
    case True
    then have u: "used ?e" and l: "lbid ?e \<noteq> -1" by (simp_all add: age_hit_def used_def)
    have S: "vss_struct v" using Cons.prems(2) by (simp add: vss_wf_def)
    from vss_isEntryLocked_total [OF S l] obtain lk where lk: "vss_isEntryLocked v (lbid ?e) (verID ?e) = Some lk" ..
    show ?thesis
    proof (cases lk)
      case True
      then have "vb_ageLoop oid lo hi (i # is) flush (b, v) = ((b, v), Inl VBBMBufferOverFlowExcept)"
        using \<open>age_hit oid lo hi ?e\<close> lk by (simp only: vb_ageLoop_Cons if_True option.case bool.case)
      with Cons.prems show ?thesis by simp
    next
      case False
      obtain v1 fl where v1: "vss_removeEntry (lbid ?e) (verID ?e) v = (v1, Inr fl)" "vss_wf v1"
        using vss_removeEntry_wf [OF Cons.prems(2) l, of "verID ?e"] Cons.prems(2) by blast
      obtain b1 where b1: "vbbm_removeEntry (lbid ?e) (verID ?e) b = (b1, Inr ())" "vbbm_inv b1"
        "thinned b b1" "\<not> used (vb_storage b1 ! i)"
        using thinned_remove [OF Cons.prems(1,3) i u] .
      have step: "vb_ageLoop oid lo hi (i # is) flush (b, v) = vb_ageLoop oid lo hi is (flush @ fl) (b1, v1)"
        using \<open>age_hit oid lo hi ?e\<close> lk False v1(1) b1(1)
        by (simp only: vb_ageLoop_Cons if_True option.case bool.case prod.case sum.case)
      have uk: "unique_keys (vbbm_abs b1)" and len: "length (vb_storage b1) = length (vb_storage b)"
        using Cons.prems(3) b1(3) unique_keys_mono by (auto simp: thinned_def)
      from Cons.IH [OF b1(2) v1(2) uk, of "flush @ fl"] rng len obtain b' v' r where
        "vb_ageLoop oid lo hi is (flush @ fl) (b1, v1) = ((b', v'), r)" "vbbm_inv b'" "vss_wf v'" "thinned b1 b'"
        "r = Inl VBBMBufferOverFlowExcept \<or> (\<exists>fl. r = Inr fl) \<and> (\<forall>i \<in> set is. \<not> age_hit oid lo hi (vb_storage b' ! i))"
        by auto
      moreover have "\<not> age_hit oid lo hi (vb_storage b' ! i)"
        using thinned_hit [OF \<open>thinned b1 b'\<close>, of i oid lo hi] b1(4) i len by (auto simp: age_hit_def)
      ultimately show ?thesis unfolding step using thinned_trans [OF b1(3)] by auto
    qed
  qed
qed

section \<open>Chunks\<close>

definition chunk_up :: "nat \<Rightarrow> nat" where
  "chunk_up k = (if k mod VBBM_CHUNK_SIZE = 0 then k else (k div VBBM_CHUNK_SIZE + 1) * VBBM_CHUNK_SIZE)"

definition blocks_clear :: "vbbm_row multiset \<Rightarrow> OID_t \<Rightarrow> nat set \<Rightarrow> bool" where
  "blocks_clear R oid B \<longleftrightarrow> (\<forall>(l, v, o', f) \<in># R. o' = oid \<longrightarrow> f \<notin> B)"

text \<open>No entry in the rest of the chunk that position \<open>k\<close> of a file of \<open>N\<close> blocks is in.\<close>

definition chunk_clear :: "vbbm_row multiset \<Rightarrow> OID_t \<Rightarrow> nat \<Rightarrow> nat \<Rightarrow> bool" where
  "chunk_clear R oid N k \<longleftrightarrow> blocks_clear R oid {k..<min (chunk_up k) N}"

lemma blocks_clear_mono: "blocks_clear R oid B \<Longrightarrow> R' \<subseteq># R \<Longrightarrow> B' \<subseteq> B \<Longrightarrow> blocks_clear R' oid B'"
  unfolding blocks_clear_def by (fastforce dest: mset_subset_eqD)

lemma blocks_clear_Un: "blocks_clear R oid (A \<union> B) \<longleftrightarrow> blocks_clear R oid A \<and> blocks_clear R oid B"
  unfolding blocks_clear_def by fastforce

lemma blocks_clear_empty [simp]: "blocks_clear R oid {}"
  by (simp add: blocks_clear_def)

lemma vb_ageBounds_range:
  assumes N: "fsize div BLOCK_SIZE = N" "N < 2 ^ 31" and n: "0 < n" "k + n \<le> N"
  shows "vb_ageBounds fsize \<lparr>vbr_OID = oid, vbr_FBO = k, vbr_size = n\<rparr> =
    (if k mod VBBM_CHUNK_SIZE \<noteq> 0 \<and> k div VBBM_CHUNK_SIZE = (k + n - 1) div VBBM_CHUNK_SIZE then None
     else Some (chunk_up k, min (((k + n - 1) div VBBM_CHUNK_SIZE + 1) * VBBM_CHUNK_SIZE - 1) N))"
proof -
  let ?C = VBBM_CHUNK_SIZE
  have C: "?C = 100" by (simp add: VBBM_CHUNK_SIZE_def)
  have s: "u32 m = m" if "m \<le> N + 200" for m using that N(2) by (simp add: u32_def)
  have w: "u32 (m + (2 ^ 32 - 1)) = m - 1" if "0 < m" "m \<le> N + 200" for m
  proof -
    have "m + (2 ^ 32 - 1) = (m - 1) + 2 ^ 32" using that(1) by simp
    then show ?thesis using s [of "m - 1"] that(2) by (simp only: u32_def mod_add_self2)
  qed
  have last: "u32 (k + n + (2 ^ 32 - 1)) = k + n - 1" using n by (intro w) simp_all
  have up: "m div ?C * ?C \<le> m" "m < (m div ?C + 1) * ?C" for m
    by (simp_all add: C)
  have b: "(m div ?C + 1) * ?C \<le> N + 100" if "m \<le> N" for m
    using up(1) [of m] that by (simp add: C)
  have "k + n - 1 \<le> N" using n by simp
  note b [OF this]
  moreover have "0 < ((k + n - 1) div ?C + 1) * ?C" by (simp add: C)
  ultimately have hi: "u32 (((k + n - 1) div ?C + 1) * ?C + (2 ^ 32 - 1)) = ((k + n - 1) div ?C + 1) * ?C - 1"
    by (intro w) simp_all
  have lo: "u32 ((k div ?C + 1) * ?C) = (k div ?C + 1) * ?C"
    using b [of k] n by (intro s) simp
  show ?thesis
    unfolding vb_ageBounds_def Let_def VBRange.simps last hi lo N(1) s [of N, simplified]
    by (simp add: chunk_up_def min_def)
qed

lemma chunk_up_facts:
  "k \<le> chunk_up k" "m < (m div VBBM_CHUNK_SIZE + 1) * VBBM_CHUNK_SIZE"
  "m mod VBBM_CHUNK_SIZE \<noteq> 0 \<Longrightarrow> (m - 1) div VBBM_CHUNK_SIZE = m div VBBM_CHUNK_SIZE"
  "j div VBBM_CHUNK_SIZE < m div VBBM_CHUNK_SIZE \<Longrightarrow> (j div VBBM_CHUNK_SIZE + 1) * VBBM_CHUNK_SIZE \<le> m"
proof -
  have C: "VBBM_CHUNK_SIZE = 100" by (simp add: VBBM_CHUNK_SIZE_def)
  show lt: "m < (m div VBBM_CHUNK_SIZE + 1) * VBBM_CHUNK_SIZE" for m by (simp add: C)
  then show "k \<le> chunk_up k" by (simp add: chunk_up_def less_imp_le)
  show "(m - 1) div VBBM_CHUNK_SIZE = m div VBBM_CHUNK_SIZE" if "m mod VBBM_CHUNK_SIZE \<noteq> 0"
  proof -
    have "m - 1 = (m mod 100 - 1) + m div 100 * 100"
      using that div_mult_mod_eq [of m 100] unfolding C by simp
    moreover have "(m mod 100 - 1) div 100 = 0" by (rule div_less) (simp add: less_imp_diff_less)
    ultimately show ?thesis unfolding C by (simp only: div_mult_self1 zero_neq_numeral not_False_eq_True add_0_right)
  qed
  show "(j div VBBM_CHUNK_SIZE + 1) * VBBM_CHUNK_SIZE \<le> m" if "j div VBBM_CHUNK_SIZE < m div VBBM_CHUNK_SIZE"
  proof -
    have "(j div VBBM_CHUNK_SIZE + 1) * VBBM_CHUNK_SIZE \<le> m div VBBM_CHUNK_SIZE * VBBM_CHUNK_SIZE"
      using that by (intro mult_le_mono1) simp
    also have "\<dots> \<le> m" by simp
    finally show ?thesis .
  qed
qed

text \<open>The blocks of a range and the rest of the chunk after it are covered by what is clear already and what is aged out.\<close>

lemma chunk_cover:
  assumes n: "0 < n" "k + n \<le> N"
  defines "same \<equiv> k mod VBBM_CHUNK_SIZE \<noteq> 0 \<and> k div VBBM_CHUNK_SIZE = (k + n - 1) div VBBM_CHUNK_SIZE"
    and "hi \<equiv> min (((k + n - 1) div VBBM_CHUNK_SIZE + 1) * VBBM_CHUNK_SIZE - 1) N"
  shows "same \<Longrightarrow> {k..<k + n} \<union> {k + n..<min (chunk_up (k + n)) N} \<subseteq> {k..<min (chunk_up k) N}"
    "\<not> same \<Longrightarrow> {k..<k + n} \<subseteq> {k..<min (chunk_up k) N} \<union> {chunk_up k..hi}"
    "\<not> same \<Longrightarrow> {k + n..<min (chunk_up (k + n)) N} \<subseteq> {chunk_up k..hi}"
proof -
  let ?C = VBBM_CHUNK_SIZE and ?last = "k + n - 1"
  note F = chunk_up_facts
  have last: "?last < (?last div ?C + 1) * ?C" by (rule F(2))
  have next_up: "chunk_up (k + n) = (?last div ?C + 1) * ?C" if "(k + n) mod ?C \<noteq> 0"
    using F(3) [OF that] that by (simp add: chunk_up_def)
  have next_empty: "{k + n..<min (chunk_up (k + n)) N} = {}" if "(k + n) mod ?C = 0"
    using that by (simp add: chunk_up_def)
  show "{k..<k + n} \<union> {k + n..<min (chunk_up (k + n)) N} \<subseteq> {k..<min (chunk_up k) N}" if same
  proof -
    have up: "chunk_up k = (?last div ?C + 1) * ?C" using that by (simp add: same_def chunk_up_def)
    show ?thesis
    proof (cases "(k + n) mod ?C = 0")
      case True
      show ?thesis unfolding next_empty [OF True] up using last n by auto
    next
      case False
      show ?thesis unfolding next_up [OF False] up using last n by auto
    qed
  qed
  have lo: "chunk_up k \<le> ?last" if "\<not> same"
  proof (cases "k mod ?C = 0")
    case True
    then show ?thesis using n by (simp add: chunk_up_def)
  next
    case False
    with that have "k div ?C \<noteq> ?last div ?C" by (simp add: same_def)
    moreover have "k div ?C \<le> ?last div ?C" using n by (intro div_le_mono) simp
    ultimately show ?thesis using False F(4) [of k ?last] by (simp add: chunk_up_def)
  qed
  show "{k..<k + n} \<subseteq> {k..<min (chunk_up k) N} \<union> {chunk_up k..hi}" if "\<not> same"
    using last n by (auto simp: hi_def)
  show "{k + n..<min (chunk_up (k + n)) N} \<subseteq> {chunk_up k..hi}" if "\<not> same"
  proof (cases "(k + n) mod ?C = 0")
    case True
    then show ?thesis by (simp only: next_empty empty_subsetI)
  next
    case False
    show ?thesis unfolding next_up [OF False] using lo [OF that] by (auto simp: hi_def)
  qed
qed

section \<open>Aging out the ranges\<close>

lemma no_hit_clear:
  assumes "\<forall>i \<in> {..<length (vb_storage b)}. \<not> age_hit oid lo hi (vb_storage b ! i)"
  shows "blocks_clear (vbbm_abs b) oid {lo..hi}"
  using assms by (fastforce simp: blocks_clear_def mem_vbbm_abs age_hit_def vbrow_def)

lemma vb_ageRanges_one:
  assumes "vbbm_inv b" "vss_wf v" "unique_keys (vbbm_abs b)"
    and N: "fileSize (vb_files b ! f) div BLOCK_SIZE = N" "N < 2 ^ 31" and n: "0 < n" "k + n \<le> N"
    and clear: "chunk_clear (vbbm_abs b) oid N k"
  shows "\<exists>b' v'. vbbm_inv b' \<and> vss_wf v' \<and> thinned b b' \<and>
     (vb_ageRanges f (\<lparr>vbr_OID = oid, vbr_FBO = k, vbr_size = n\<rparr> # rs) flush (b, v)
          = ((b', v'), Inl VBBMBufferOverFlowExcept)
      \<or> (\<exists>fl. vb_ageRanges f (\<lparr>vbr_OID = oid, vbr_FBO = k, vbr_size = n\<rparr> # rs) flush (b, v)
              = vb_ageRanges f rs fl (b', v'))
        \<and> blocks_clear (vbbm_abs b') oid {k..<k + n} \<and> chunk_clear (vbbm_abs b') oid N (k + n))"
proof -
  let ?r = "\<lparr>vbr_OID = oid, vbr_FBO = k, vbr_size = n\<rparr>"
  let ?same = "k mod VBBM_CHUNK_SIZE \<noteq> 0 \<and> k div VBBM_CHUNK_SIZE = (k + n - 1) div VBBM_CHUNK_SIZE"
  note B = vb_ageBounds_range [OF N n, of oid] note K = chunk_cover [OF n]
  show ?thesis
  proof (cases ?same)
    case True
    have "vb_ageRanges f (?r # rs) flush (b, v) = vb_ageRanges f rs flush (b, v)"
      using B True by simp
    moreover from clear have "blocks_clear (vbbm_abs b) oid ({k..<k + n} \<union> {k + n..<min (chunk_up (k + n)) N})"
      unfolding chunk_clear_def by (rule blocks_clear_mono) (simp_all only: subset_mset.order_refl K(1) [OF True])
    ultimately show ?thesis using assms(1,2)
      by (intro exI [of _ b] exI [of _ v]) (auto simp: blocks_clear_Un chunk_clear_def)
  next
    case False
    let ?lo = "chunk_up k" and ?hi = "min (((k + n - 1) div VBBM_CHUNK_SIZE + 1) * VBBM_CHUNK_SIZE - 1) N"
    have cap: "nat (vbCapacity (vb_hdr b)) = length (vb_storage b)"
      using vbbm_structD(7) [OF vbbm_invD(1) [OF assms(1)]] .
    from vb_ageLoop_ok [OF assms(1-3), of "[0..<length (vb_storage b)]" oid ?lo ?hi flush] obtain b' v' r where
      *: "vb_ageLoop oid ?lo ?hi [0..<length (vb_storage b)] flush (b, v) = ((b', v'), r)"
        "vbbm_inv b'" "vss_wf v'" "thinned b b'"
        "r = Inl VBBMBufferOverFlowExcept \<or> (\<exists>fl. r = Inr fl) \<and>
          (\<forall>i \<in> {..<length (vb_storage b')}. \<not> age_hit oid ?lo ?hi (vb_storage b' ! i))"
      by (auto simp: thinned_def)
    have step: "vb_ageRanges f (?r # rs) flush (b, v) = and_then ((b', v'), r) (\<lambda>flush. vb_ageRanges f rs flush)"
      unfolding vb_ageRanges.simps fst_conv B if_not_P [OF False] option.case prod.case VBRange.simps cap *(1) ..
    from *(5) show ?thesis
    proof
      assume "r = Inl VBBMBufferOverFlowExcept"
      then have "vb_ageRanges f (?r # rs) flush (b, v) = ((b', v'), Inl VBBMBufferOverFlowExcept)"
        unfolding step by simp
      with *(2-4) show ?thesis by blast
    next
      assume r: "(\<exists>fl. r = Inr fl) \<and> (\<forall>i \<in> {..<length (vb_storage b')}. \<not> age_hit oid ?lo ?hi (vb_storage b' ! i))"
      then have hi: "blocks_clear (vbbm_abs b') oid {?lo..?hi}" by (intro no_hit_clear) blast
      have "blocks_clear (vbbm_abs b') oid {k..<min (chunk_up k) N}"
        using clear unfolding chunk_clear_def
        by (rule blocks_clear_mono) (use *(4) in \<open>simp_all add: thinned_def\<close>)
      with hi have "blocks_clear (vbbm_abs b') oid ({k..<min (chunk_up k) N} \<union> {?lo..?hi})"
        by (simp only: blocks_clear_Un simp_thms)
      from blocks_clear_mono [OF this subset_mset.order_refl K(2) [OF False]]
        blocks_clear_mono [OF hi subset_mset.order_refl K(3) [OF False]]
      have "blocks_clear (vbbm_abs b') oid {k..<k + n} \<and> chunk_clear (vbbm_abs b') oid N (k + n)"
        unfolding chunk_clear_def by (rule conjI)
      moreover from r step have "\<exists>fl. vb_ageRanges f (?r # rs) flush (b, v) = vb_ageRanges f rs fl (b', v')"
        unfolding step by auto
      ultimately show ?thesis using *(2-4) by blast
    qed
  qed
qed

lemma ring_ranges_blocks:
  assumes "k < N" "num \<le> N"
  shows "\<Union> (vbr_blocks ` set (ring_ranges oid N k num)) =
    (if k + num \<le> N then {k..<k + num} else {k..<N} \<union> {0..<k + num - N})"
  using assms by (auto simp: ring_ranges_def vbr_blocks_def)

lemma chunk_clear_mod:
  "chunk_clear R oid N n \<Longrightarrow> n \<le> N \<Longrightarrow> chunk_clear R oid N (n mod N)"
  by (cases "n = N") (simp_all add: chunk_clear_def chunk_up_def)

lemma vb_ageRanges_ring:
  assumes "vbbm_inv b" "vss_wf v" "unique_keys (vbbm_abs b)"
    and N: "fileSize (vb_files b ! f) div BLOCK_SIZE = N" "N < 2 ^ 31" and num: "k < N" "num \<le> N"
    and clear: "chunk_clear (vbbm_abs b) oid N k"
  shows "\<exists>b' v' r. vb_ageRanges f (ring_ranges oid N k num) [] (b, v) = ((b', v'), r)
     \<and> vbbm_inv b' \<and> vss_wf v' \<and> thinned b b' \<and>
     (r = Inl VBBMBufferOverFlowExcept \<or> (\<exists>fl. r = Inr fl)
        \<and> blocks_clear (vbbm_abs b') oid (\<Union> (vbr_blocks ` set (ring_ranges oid N k num)))
        \<and> chunk_clear (vbbm_abs b') oid N ((k + num) mod N))"
proof -
  consider "num = 0" | "0 < num" "k + num \<le> N" | "0 < num" "N < k + num" by linarith
  then show ?thesis
  proof cases
    case 1
    with assms(1,2) clear num show ?thesis
      by (intro exI [of _ b] exI [of _ v] exI [of _ "Inr []"]) (simp add: ring_ranges_def)
  next
    case 2
    have r: "ring_ranges oid N k num = [\<lparr>vbr_OID = oid, vbr_FBO = k, vbr_size = num\<rparr>]"
      using 2 by (simp add: ring_ranges_def)
    from vb_ageRanges_one [OF assms(1-3) N 2 clear, of "[]" "[]"] chunk_clear_mod [OF _ 2(2)]
    show ?thesis unfolding r by (auto simp: vbr_blocks_def)
  next
    case 3
    let ?r1 = "\<lparr>vbr_OID = oid, vbr_FBO = k, vbr_size = N - k\<rparr>"
      and ?r2 = "\<lparr>vbr_OID = oid, vbr_FBO = 0, vbr_size = num - (N - k)\<rparr>"
    have r: "ring_ranges oid N k num = [?r1, ?r2]" using 3 by (simp add: ring_ranges_def)
    have n1: "0 < N - k" "k + (N - k) \<le> N" and n2: "0 < num - (N - k)" "0 + (num - (N - k)) \<le> N"
      using 3 num by simp_all
    have "(k + num) mod N = num - (N - k)"
    proof -
      have "k + num = (num - (N - k)) + N" "num - (N - k) < N" using 3 num by simp_all
      then show ?thesis by (metis mod_add_self2 mod_less)
    qed
    note mod = this
    from vb_ageRanges_one [OF assms(1-3) N n1 clear, of "[?r2]" "[]"] obtain b1 v1 where
      1: "vbbm_inv b1" "vss_wf v1" "thinned b b1" and
      2: "vb_ageRanges f [?r1, ?r2] [] (b, v) = ((b1, v1), Inl VBBMBufferOverFlowExcept)
      \<or> (\<exists>fl. vb_ageRanges f [?r1, ?r2] [] (b, v) = vb_ageRanges f [?r2] fl (b1, v1))
        \<and> blocks_clear (vbbm_abs b1) oid {k..<k + (N - k)}" by blast
    from 2 show ?thesis
    proof (elim disjE exE conjE)
      assume "vb_ageRanges f [?r1, ?r2] [] (b, v) = ((b1, v1), Inl VBBMBufferOverFlowExcept)"
      with 1 show ?thesis unfolding r by blast
    next
      fix fl
      assume s1: "vb_ageRanges f [?r1, ?r2] [] (b, v) = vb_ageRanges f [?r2] fl (b1, v1)"
        and c1: "blocks_clear (vbbm_abs b1) oid {k..<k + (N - k)}"
      have uk: "unique_keys (vbbm_abs b1)" and fs: "fileSize (vb_files b1 ! f) div BLOCK_SIZE = N"
        using 1(3) unique_keys_mono [OF assms(3)] N(1) by (simp_all add: thinned_def)
      have c0: "chunk_clear (vbbm_abs b1) oid N 0" by (simp add: chunk_clear_def chunk_up_def)
      from vb_ageRanges_one [OF 1(1,2) uk fs N(2) n2 c0, of "[]" fl] obtain b2 v2 where
        3: "vbbm_inv b2" "vss_wf v2" "thinned b1 b2" and
        4: "vb_ageRanges f [?r2] fl (b1, v1) = ((b2, v2), Inl VBBMBufferOverFlowExcept)
        \<or> (\<exists>fl'. vb_ageRanges f [?r2] fl (b1, v1) = ((b2, v2), Inr fl'))
          \<and> blocks_clear (vbbm_abs b2) oid {0..<num - (N - k)}
          \<and> chunk_clear (vbbm_abs b2) oid N (num - (N - k))" by auto
      have "blocks_clear (vbbm_abs b2) oid {k..<k + (N - k)}"
        using c1 by (rule blocks_clear_mono) (use 3(3) in \<open>simp_all add: thinned_def\<close>)
      with 4 3 thinned_trans [OF 1(3) 3(3)] show ?thesis
        unfolding r s1 mod by (auto simp: vbr_blocks_def blocks_clear_Un)
    qed
  qed
qed

end
