(* ===== verification/VB_Blocks.thy ===== *)
theory VB_Blocks
  imports VB_Aging
begin

text \<open>
  The contract of \<^verbatim>\<open>VBBM::getBlocks\<close> on a consistent version buffer, and where it can break: a growth
  of a VBBM with unused elements drops entries, and a request that nearly fills a file leaves the
  next requests without aging.
\<close>

section \<open>Growth and files\<close>

lemma vbbm_kept_subset: "vbbm_kept s \<subseteq># vbbm_abs s"
proof -
  have "mset (take n xs) \<subseteq># mset xs" for n and xs :: "VBBMEntry list"
    by (metis append_take_drop_id mset_append mset_subset_eq_add_left)
  then show ?thesis
    unfolding vbbm_abs_def by (intro image_mset_subseteq_mono multiset_filter_mono)
qed

lemma vb_growLoop_ok:
  assumes "vbbm_inv s" "vbCurrentSize (vb_hdr s) + num - vbCapacity (vb_hdr s) < int fuel" "0 < fuel"
  shows "\<exists>t. vb_growLoop fuel cfg num s = (t, Inr ()) \<and> vbbm_inv t \<and> vb_files t = vb_files s
    \<and> vbbm_abs t \<subseteq># vbbm_abs s \<and> vbCurrentSize (vb_hdr t) + num \<le> vbCapacity (vb_hdr t)"
  using assms
proof (induction fuel arbitrary: s)
  case (Suc fuel)
  show ?case
  proof (cases "vbCurrentSize (vb_hdr s) + num > vbCapacity (vb_hdr s)")
    case True
    from vbbm_growVBBM_ok [OF Suc.prems(1), of cfg False] obtain u n where
      u: "vbbm_growVBBM cfg False s = (u, Inr ())" "vbbm_inv u" "vbbm_abs u = vbbm_kept s"
        "vb_files u = vb_files s"
        "vb_hdr u = (vb_hdr s)\<lparr>nFiles := nFiles (vb_hdr s) + of_bool False,
            vbCapacity := vbCapacity (vb_hdr s) + (if False then 0 else VBSTORAGE_INCREMENT_COUNT),
            vbNumHashBuckets := vbNumHashBuckets (vb_hdr s) + (if False then 0 else VBTABLE_INCREMENT_COUNT),
            vbLWM := n\<rparr>"
      by auto
    have step: "vb_growLoop (Suc fuel) cfg num s = vb_growLoop fuel cfg num u" using True u(1) by simp
    have "vbCurrentSize (vb_hdr u) + num - vbCapacity (vb_hdr u) < int fuel" "0 < fuel"
      using Suc.prems(2) True by (simp_all add: u(5) VB_sizes)
    from Suc.IH [OF u(2) this] show ?thesis unfolding step
      using u(3,4) vbbm_kept_subset [of s] by (metis subset_mset.trans)
  next
    case False
    with Suc.prems show ?thesis by simp
  qed
qed simp

text \<open>A consistent version buffer: every file is positioned at a block whose chunk is clear.\<close>

definition vb_ok :: "version_buffer \<Rightarrow> bool" where
  "vb_ok s \<longleftrightarrow> vbbm_inv (fst s) \<and> vss_wf (snd s) \<and> unique_keys (vbbm_abs (fst s))
     \<and> distinct (map fileOID (vb_files (fst s)))
     \<and> (\<forall>x \<in> set (vb_files (fst s)). \<exists>N k. vbfile_at x N k \<and> chunk_clear (vbbm_abs (fst s)) (fileOID x) N k)"

lemma vbbm_files_update_inv:
  "vbbm_inv (s\<lparr>vb_undo := u, vb_files := (vb_files s)[f := x]\<rparr>) = vbbm_inv s"
  "vbbm_abs (s\<lparr>vb_undo := u, vb_files := y\<rparr>) = vbbm_abs s"
  "vbbm_inv (s\<lparr>vb_files := (vb_files s)[f := x]\<rparr>) = vbbm_inv s"
  "vbbm_abs (s\<lparr>vb_files := y\<rparr>) = vbbm_abs s"
  by (simp_all add: vbbm_inv_def vbbm_struct_def vbbm_count_def vbbm_abs_def)

lemma vbbm_addVBFile_ok:
  assumes inv: "vbbm_inv s" and d: "distinct (map fileOID (vb_files s))" and cfg: "cfg = Some fs" "1 \<le> fs"
  shows "\<exists>t f. vbbm_addVBFileIfNotExists cfg oid s = (t, Inr f) \<and> vbbm_inv t \<and> f < length (vb_files t)
    \<and> fileOID (vb_files t ! f) = oid \<and> vbbm_abs t \<subseteq># vbbm_abs s \<and> distinct (map fileOID (vb_files t))
    \<and> set (vb_files t) \<subseteq> insert \<lparr>fileOID = oid, fileSize = nat fs, nextOffset = 0\<rparr> (set (vb_files s))"
proof -
  note D = vbbm_invD [OF inv]
  have n: "nat (nFiles (vb_hdr s)) = length (vb_files s)" using D(6) by simp
  show ?thesis
  proof (cases "find (\<lambda>i. fileOID (vb_files s ! i) = oid) [0..<length (vb_files s)]")
    case (Some f)
    then have "f < length (vb_files s)" "fileOID (vb_files s ! f) = oid"
      by (auto simp: find_Some_iff)
    with Some inv d show ?thesis by (auto simp: vbbm_addVBFileIfNotExists_def n)
  next
    case None
    then have new: "oid \<notin> set (map fileOID (vb_files s))"
      by (auto simp: find_None_iff in_set_conv_nth)
    define s1 where "s1 = s\<lparr>currentFileSize := nat fs\<rparr>"
    have s1: "vbbm_setCurrentFileSize cfg s = (s1, Inr ())"
      using cfg by (simp add: vbbm_setCurrentFileSize_def s1_def)
    have i1: "vbbm_inv s1" using inv by (simp add: s1_def vbbm_inv_def vbbm_struct_def vbbm_count_def)
    from vbbm_growVBBM_ok [OF i1, of cfg True] obtain u where
      u: "vbbm_growVBBM cfg True s1 = (u, Inr ())" "vbbm_inv u" "vbbm_abs u = vbbm_kept s1"
        "vb_files u = vb_files s @ [overlay_file (vb_buckets s1)]" "currentFileSize u = nat fs"
      by (auto simp: s1_def)
    let ?x = "\<lparr>fileOID = oid, fileSize = nat fs, nextOffset = 0\<rparr>"
    define t where "t = u\<lparr>vb_files := (vb_files u)[length (vb_files s) := ?x]\<rparr>"
    have files: "vb_files t = vb_files s @ [?x]" by (simp add: t_def u(4))
    have "vbbm_addVBFileIfNotExists cfg oid s = (t, Inr (length (vb_files s)))"
      unfolding vbbm_addVBFileIfNotExists_def n None option.case Let_def s1 and_then_simps u(1) u(5) t_def ..
    moreover have "vbbm_inv t" using u(2) by (simp only: t_def vbbm_files_update_inv)
    moreover have "vbbm_abs t \<subseteq># vbbm_abs s"
      using vbbm_kept_subset [of s1] u(3) by (simp add: t_def vbbm_files_update_inv s1_def vbbm_abs_def)
    ultimately show ?thesis using new d by (auto simp: files)
  qed
qed

section \<open>The contract\<close>

lemma ring_ranges_facts:
  assumes "k < N" "num \<le> N"
  shows "sum_list (map vbr_size (ring_ranges oid N k num)) = num" "length (ring_ranges oid N k num) \<le> 2"
    "r \<in> set (ring_ranges oid N k num) \<Longrightarrow> vbr_OID r = oid \<and> 0 < vbr_size r \<and> vbr_FBO r + vbr_size r \<le> N"
  using assms by (auto simp: ring_ranges_def split: if_splits)

lemma vb_gather_state:
  assumes x: "vbfile_at (vb_files s ! f) N k" and f: "f < length (vb_files s)" and num: "num \<le> N"
  obtains t where "vb_gather (2 * num + 2) f (int num) [] s =
      (t, Inr (ring_ranges (fileOID (vb_files s ! f)) N k num))"
    "vbbm_inv t = vbbm_inv s" "vbbm_abs t = vbbm_abs s"
    "vb_files t = (vb_files s)[f := (vb_files s ! f)\<lparr>nextOffset := ((k + num) mod N) * BLOCK_SIZE\<rparr>]"
  using vb_gather_ring [OF x f num order_refl] vbbm_files_update_inv(1,2) by fastforce

text \<open>The files stay positioned when entries go away and one position moves within clear blocks.\<close>

lemma chunk_clear_mono: "chunk_clear R oid N k \<Longrightarrow> R' \<subseteq># R \<Longrightarrow> chunk_clear R' oid N k"
  unfolding chunk_clear_def by (erule blocks_clear_mono) simp_all

definition files_ok :: "vbbm_row multiset \<Rightarrow> VBFileMetadata list \<Rightarrow> bool" where
  "files_ok R xs \<longleftrightarrow> distinct (map fileOID xs)
     \<and> (\<forall>x \<in> set xs. \<exists>N k. vbfile_at x N k \<and> chunk_clear R (fileOID x) N k)"

lemma files_okD:
  "files_ok R xs \<Longrightarrow> f < length xs \<Longrightarrow> \<exists>N k. vbfile_at (xs ! f) N k \<and> chunk_clear R (fileOID (xs ! f)) N k"
  by (simp add: files_ok_def)

lemma files_ok_mono: "files_ok R xs \<Longrightarrow> R' \<subseteq># R \<Longrightarrow> files_ok R' xs"
  unfolding files_ok_def by (meson chunk_clear_mono)

lemma files_ok_insert:
  assumes "files_ok R xs" "set ys \<subseteq> insert x (set xs)" "distinct (map fileOID ys)"
    "\<exists>N k. vbfile_at x N k \<and> chunk_clear R (fileOID x) N k"
  shows "files_ok R ys"
  unfolding files_ok_def
proof
  show "\<forall>y \<in> set ys. \<exists>N k. vbfile_at y N k \<and> chunk_clear R (fileOID y) N k"
  proof
    fix y assume "y \<in> set ys"
    with assms(2) consider "y = x" | "y \<in> set xs" by blast
    then show "\<exists>N k. vbfile_at y N k \<and> chunk_clear R (fileOID y) N k"
      using assms(1,4) by cases (simp_all add: files_ok_def)
  qed
qed (rule assms(3))

lemma files_ok_move:
  assumes "files_ok R xs" "f < length xs" "vbfile_at (xs ! f) N k"
    "chunk_clear R (fileOID (xs ! f)) N (n mod N)"
  shows "files_ok R (xs[f := (xs ! f)\<lparr>nextOffset := (n mod N) * BLOCK_SIZE\<rparr>])"
proof -
  let ?x = "(xs ! f)\<lparr>nextOffset := (n mod N) * BLOCK_SIZE\<rparr>"
  have "map fileOID (xs[f := ?x]) = map fileOID xs"
    using assms(2) by (simp add: map_update) (metis list_update_id nth_map)
  then have "distinct (map fileOID (xs[f := ?x]))" using assms(1) by (simp only: files_ok_def)
  moreover have "\<exists>N k. vbfile_at ?x N k \<and> chunk_clear R (fileOID ?x) N k"
    using vbfile_at_moved [OF assms(3), of n] assms(4) by auto
  ultimately show ?thesis by (rule files_ok_insert [OF assms(1) set_update_subset_insert])
qed

lemma files_ok_new:
  assumes "files_ok R xs" "set ys \<subseteq> insert \<lparr>fileOID = oid, fileSize = nat fs, nextOffset = 0\<rparr> (set xs)"
    "distinct (map fileOID ys)" "int BLOCK_SIZE \<le> fs" "fs < 2 ^ 31 * int BLOCK_SIZE"
  shows "files_ok R ys"
proof -
  let ?x = "\<lparr>fileOID = oid, fileSize = nat fs, nextOffset = 0\<rparr>"
  have fs: "BLOCK_SIZE \<le> nat fs" "nat fs < 2 ^ 31 * BLOCK_SIZE" using assms(4,5) by (simp_all add: nat_less_iff BLOCK_SIZE_def)
  have B: "0 < BLOCK_SIZE" by (simp add: BLOCK_SIZE_def)
  have "vbfile_at ?x (nat fs div BLOCK_SIZE) 0"
    using fs B by (simp add: vbfile_at_def div_greater_zero_iff div_less_iff_less_mult del: power_numeral)
  moreover have "chunk_clear R oid (nat fs div BLOCK_SIZE) 0" by (simp add: chunk_clear_def chunk_up_def)
  ultimately have "\<exists>N k. vbfile_at ?x N k \<and> chunk_clear R (fileOID ?x) N k" by auto
  with assms(1-3) show ?thesis by (rule files_ok_insert)
qed

lemma vb_ok_files: "vb_ok (b, v) \<longleftrightarrow> vbbm_inv b \<and> vss_wf v \<and> unique_keys (vbbm_abs b) \<and> files_ok (vbbm_abs b) (vb_files b)"
  by (auto simp: vb_ok_def files_ok_def)

text \<open>From the gathered ranges on.\<close>

lemma vb_getBlocks_tail:
  assumes inv: "vbbm_inv b" and wf: "vss_wf v" and uk: "unique_keys (vbbm_abs b)"
    and fo: "files_ok (vbbm_abs b) (vb_files b)" and f: "f < length (vb_files b)"
    and x: "vbfile_at (vb_files b ! f) N k" "chunk_clear (vbbm_abs b) oid N k" "fileOID (vb_files b ! f) = oid"
    and num: "num \<le> N"
  shows "\<exists>c u v' r. vb_gather (2 * num + 2) f (int num) [] b = (c, Inr (ring_ranges oid N k num))
    \<and> vb_ageRanges f (ring_ranges oid N k num) [] (c, v) = ((u, v'), r) \<and> vbbm_inv u \<and> vss_wf v'
    \<and> (r = Inl VBBMBufferOverFlowExcept \<or> (\<exists>fl. r = Inr fl) \<and> vb_ok (u, v')
       \<and> (\<exists>y \<in> set (vb_files u). fileOID y = oid \<and> fileSize y div BLOCK_SIZE = N)
       \<and> blocks_clear (vbbm_abs u) oid (\<Union> (vbr_blocks ` set (ring_ranges oid N k num))))"
proof -
  from x(1) have N: "fileSize (vb_files b ! f) div BLOCK_SIZE = N" "N < 2 ^ 31" "k < N"
    by (simp_all add: vbfile_at_def)
  from vb_gather_state [OF x(1) f num] obtain c where c: "vb_gather (2 * num + 2) f (int num) [] b =
      (c, Inr (ring_ranges oid N k num))" "vbbm_inv c" "vbbm_abs c = vbbm_abs b"
    "vb_files c = (vb_files b)[f := (vb_files b ! f)\<lparr>nextOffset := ((k + num) mod N) * BLOCK_SIZE\<rparr>]"
    using inv unfolding x(3) by metis
  have uc: "unique_keys (vbbm_abs c)" and fs: "fileSize (vb_files c ! f) div BLOCK_SIZE = N"
    and cc: "chunk_clear (vbbm_abs c) oid N k" using uk N(1) f x(2) by (simp_all add: c)
  from vb_ageRanges_ring [OF c(2) wf uc fs N(2,3) num cc] obtain u v' r where
    a: "vb_ageRanges f (ring_ranges oid N k num) [] (c, v) = ((u, v'), r)" "vbbm_inv u" "vss_wf v'" "thinned c u"
      "r = Inl VBBMBufferOverFlowExcept \<or> (\<exists>fl. r = Inr fl)
        \<and> blocks_clear (vbbm_abs u) oid (\<Union> (vbr_blocks ` set (ring_ranges oid N k num)))
        \<and> chunk_clear (vbbm_abs u) oid N ((k + num) mod N)" by blast
  have sub: "vbbm_abs u \<subseteq># vbbm_abs b" and fu: "vb_files u = vb_files c"
    using a(4) by (simp_all add: thinned_def c(3))
  have "vb_ok (u, v') \<and> (\<exists>y \<in> set (vb_files u). fileOID y = oid \<and> fileSize y div BLOCK_SIZE = N)"
    if "chunk_clear (vbbm_abs u) oid N ((k + num) mod N)"
  proof
    have "files_ok (vbbm_abs u) (vb_files u)"
      unfolding fu c(4) using files_ok_mono [OF fo sub] f x(1) by (rule files_ok_move) (use that x(3) in simp)
    then show "vb_ok (u, v')" using a(2,3) unique_keys_mono [OF uk sub] by (simp add: vb_ok_files)
    show "\<exists>y \<in> set (vb_files u). fileOID y = oid \<and> fileSize y div BLOCK_SIZE = N"
      unfolding fu c(4) using f x(3) N(1) by (intro bexI [OF _ set_update_memI [OF f]]) simp
  qed
  with c(1) a show ?thesis by blast
qed

lemma ring_ranges_card:
  assumes "k < N" "num \<le> N"
  shows "card (\<Union> (vbr_blocks ` set (ring_ranges oid N k num))) = num"
proof (cases "num = 0 \<or> k + num \<le> N")
  case True
  then show ?thesis by (auto simp: ring_ranges_def vbr_blocks_def)
next
  case False
  then have "\<Union> (vbr_blocks ` set (ring_ranges oid N k num)) = {k..<N} \<union> {0..<num - (N - k)}"
    using assms by (auto simp: ring_ranges_def vbr_blocks_def)
  moreover have "{k..<N} \<inter> {0..<num - (N - k)} = {}" using assms by auto
  ultimately show ?thesis using assms False by (simp add: card_Un_disjoint)
qed

definition vb_granted :: "OID_t \<Rightarrow> int \<Rightarrow> version_buffer \<Rightarrow> VBRange list \<Rightarrow> bool" where
  "vb_granted oid num s ranges \<longleftrightarrow> length ranges \<le> 2 \<and> int (sum_list (map vbr_size ranges)) = num
     \<and> int (card (\<Union> (vbr_blocks ` set ranges))) = num
     \<and> (\<exists>x \<in> set (vb_files (fst s)). fileOID x = oid
          \<and> (\<forall>r \<in> set ranges. vbr_OID r = oid \<and> 0 < vbr_size r \<and> vbr_FBO r + vbr_size r \<le> fileSize x div BLOCK_SIZE))
     \<and> blocks_clear (vbbm_abs (fst s)) oid (\<Union> (vbr_blocks ` set ranges))"

text \<open>From the file on: growth, gathering, aging.\<close>

lemma vb_getBlocks_found:
  assumes inv: "vbbm_inv c" and wf: "vss_wf v" and uk: "unique_keys (vbbm_abs c)"
    and fo: "files_ok (vbbm_abs c) (vb_files c)" and f: "f < length (vb_files c)" "fileOID (vb_files c ! f) = oid"
    and num: "n \<le> fileSize (vb_files c ! f) div BLOCK_SIZE"
  shows "\<exists>g h N k u v' r. vb_growLoop (Suc (nat (vbCurrentSize (vb_hdr c) + int n - vbCapacity (vb_hdr c)))) cfg (int n) c
      = (g, Inr ()) \<and> k < N \<and> n \<le> N
    \<and> vb_gather (2 * n + 2) f (int n) [] g = (h, Inr (ring_ranges oid N k n))
    \<and> vb_ageRanges f (ring_ranges oid N k n) [] (h, v) = ((u, v'), r) \<and> vbbm_inv u \<and> vss_wf v'
    \<and> (r = Inl VBBMBufferOverFlowExcept \<or> (\<exists>fl. r = Inr fl) \<and> vb_ok (u, v')
       \<and> (\<exists>y \<in> set (vb_files u). fileOID y = oid \<and> fileSize y div BLOCK_SIZE = N)
       \<and> blocks_clear (vbbm_abs u) oid (\<Union> (vbr_blocks ` set (ring_ranges oid N k n))))"
proof -
  let ?fuel = "Suc (nat (vbCurrentSize (vb_hdr c) + int n - vbCapacity (vb_hdr c)))"
  have "vbCurrentSize (vb_hdr c) + int n - vbCapacity (vb_hdr c) < int ?fuel" by simp
  from vb_growLoop_ok [OF inv this zero_less_Suc] obtain g where
    g: "vb_growLoop ?fuel cfg (int n) c = (g, Inr ())" "vbbm_inv g" "vb_files g = vb_files c"
      "vbbm_abs g \<subseteq># vbbm_abs c" by blast
  have fog: "files_ok (vbbm_abs g) (vb_files g)" unfolding g(3) by (rule files_ok_mono [OF fo g(4)])
  have fg: "f < length (vb_files g)" "fileOID (vb_files g ! f) = oid" using f g(3) by simp_all
  from files_okD [OF fog fg(1)] obtain N k where
    N: "vbfile_at (vb_files g ! f) N k" "chunk_clear (vbbm_abs g) oid N k" unfolding fg(2) by blast
  have nN: "n \<le> N" "k < N" using N(1) num g(3) by (simp_all add: vbfile_at_def)
  have ukg: "unique_keys (vbbm_abs g)" by (rule unique_keys_mono [OF uk g(4)])
  from vb_getBlocks_tail [OF g(2) wf ukg fog fg(1) N fg(2) nN(1)] g(1) nN show ?thesis by blast
qed

lemma unsigned_request:
  assumes "- (2 ^ 31) \<le> num" "num < 2 ^ 31" "N < 2 ^ 31" "\<not> nat (num mod 2 ^ 32) > N"
  obtains n where "num = int n" "n \<le> N"
proof -
  have "0 \<le> num"
  proof (rule ccontr)
    assume "\<not> 0 \<le> num"
    then have "num mod 2 ^ 32 = num + 2 ^ 32" using assms(1) by (intro int_mod_pos_eq [where q = "-1"]) simp_all
    with assms show False by simp
  qed
  then obtain n where n: "num = int n" by (metis nonneg_int_cases)
  with assms that show thesis by simp
qed

lemma vb_getBlocks_cases:
  assumes ok: "vb_ok s" and fs: "int BLOCK_SIZE \<le> fs" "fs < 2 ^ 31 * int BLOCK_SIZE"
    and num: "- (2 ^ 31) \<le> num" "num < 2 ^ 31"
  obtains t where "vb_getBlocks (Some fs) num oid fl s = (t, Inl VBBMBufferOverFlowExcept)"
      "vbbm_inv (fst t)" "vss_wf (snd t)"
  | t ranges flush where "vb_getBlocks (Some fs) num oid fl s = (t, Inr (ranges, flush))" "vb_ok t"
      "vb_granted oid num t ranges"
proof -
  obtain b v where s: "s = (b, v)" by (cases s)
  from ok have inv: "vbbm_inv b" and wf: "vss_wf v" and uk: "unique_keys (vbbm_abs b)"
    and fo: "files_ok (vbbm_abs b) (vb_files b)" by (simp_all add: s vb_ok_files)
  have d: "distinct (map fileOID (vb_files b))" using fo by (simp add: files_ok_def)
  have "1 \<le> fs" using fs(1) by (simp add: BLOCK_SIZE_def)
  from vbbm_addVBFile_ok [OF inv d refl this, of oid] obtain c f where
    c: "vbbm_addVBFileIfNotExists (Some fs) oid b = (c, Inr f)" "vbbm_inv c" "f < length (vb_files c)"
      "fileOID (vb_files c ! f) = oid" "vbbm_abs c \<subseteq># vbbm_abs b" "distinct (map fileOID (vb_files c))"
      "set (vb_files c) \<subseteq> insert \<lparr>fileOID = oid, fileSize = nat fs, nextOffset = 0\<rparr> (set (vb_files b))" by blast
  have foc: "files_ok (vbbm_abs c) (vb_files c)"
    by (rule files_ok_new [OF files_ok_mono [OF fo c(5)] c(7,6) fs])
  define M where "M = fileSize (vb_files c ! f) div BLOCK_SIZE"
  have M: "M < 2 ^ 31" using files_okD [OF foc c(3)] by (auto simp: vbfile_at_def M_def)
  show thesis
  proof (cases "nat (num mod 2 ^ 32) > M")
    case True
    then have "vb_getBlocks (Some fs) num oid fl s = ((c, v), Inl VBBMBufferOverFlowExcept)"
      unfolding vb_getBlocks_def s fst_conv snd_conv c(1) M_def by (simp only: prod.case sum.case if_True)
    then show thesis by (rule that(1)) (use c(2) wf in \<open>simp_all only: fst_conv snd_conv\<close>)
  next
    case False
    from unsigned_request [OF num M False] obtain n where n: "num = int n" "n \<le> M" .
    from vb_getBlocks_found [OF c(2) wf unique_keys_mono [OF uk c(5)] foc c(3,4) n(2) [unfolded M_def], of "Some fs"]
    obtain g h N k u v' r where g: "vb_growLoop (Suc (nat (vbCurrentSize (vb_hdr c) + int n - vbCapacity (vb_hdr c)))) (Some fs) (int n) c
        = (g, Inr ())" and kN: "k < N" "n \<le> N"
      and h: "vb_gather (2 * n + 2) f (int n) [] g = (h, Inr (ring_ranges oid N k n))"
        "vb_ageRanges f (ring_ranges oid N k n) [] (h, v) = ((u, v'), r)" "vbbm_inv u" "vss_wf v'"
      and r: "r = Inl VBBMBufferOverFlowExcept \<or> (\<exists>fl. r = Inr fl) \<and> vb_ok (u, v')
         \<and> (\<exists>y \<in> set (vb_files u). fileOID y = oid \<and> fileSize y div BLOCK_SIZE = N)
         \<and> blocks_clear (vbbm_abs u) oid (\<Union> (vbr_blocks ` set (ring_ranges oid N k n)))" by blast
    have run: "vb_getBlocks (Some fs) num oid fl s = and_then ((u, v'), r)
        (\<lambda>flush s. (s, Inr (ring_ranges oid N k n, if fl then flush else [])))"
      unfolding vb_getBlocks_def s fst_conv snd_conv c(1)
      using False unfolding n(1) M_def by (simp only: prod.case sum.case if_False g and_then_simps h nat_int)
    from r show thesis
    proof (elim disjE conjE exE)
      assume "r = Inl VBBMBufferOverFlowExcept"
      with run have "vb_getBlocks (Some fs) num oid fl s = ((u, v'), Inl VBBMBufferOverFlowExcept)" by simp
      then show thesis by (rule that(1)) (use h(3,4) in \<open>simp_all only: fst_conv snd_conv\<close>)
    next
      fix flush
      assume "r = Inr flush" and res: "vb_ok (u, v')"
        "\<exists>y \<in> set (vb_files u). fileOID y = oid \<and> fileSize y div BLOCK_SIZE = N"
        "blocks_clear (vbbm_abs u) oid (\<Union> (vbr_blocks ` set (ring_ranges oid N k n)))"
      with run have eq: "vb_getBlocks (Some fs) num oid fl s =
          ((u, v'), Inr (ring_ranges oid N k n, if fl then flush else []))" by simp
      have "vb_granted oid num (u, v') (ring_ranges oid N k n)"
        unfolding vb_granted_def n fst_conv
        using ring_ranges_facts [OF kN] ring_ranges_card [OF kN] res(2,3) by (intro conjI) auto
      with eq res(1) show thesis by (rule that(2))
    qed
  qed
qed

end
