(* ===== verification/VB_Contract.thy ===== *)
theory VB_Contract
  imports VB_Blocks
begin

text \<open>
  The contract of the VBBM and of the version buffer, with a small version buffer to apply the
  properties to.
\<close>

section \<open>An example version buffer\<close>

text \<open>
  Version 3 of block 10 and version 2 of block 20 lie in blocks 50 and 150 of the file with OID 7,
  which has 300 blocks. The second element of the storage was freed by a removal.
\<close>

definition vbbm_ex :: VBBM where
  "vbbm_ex = \<lparr>
     vb_hdr = \<lparr>nFiles = 1, vbCapacity = 4, vbCurrentSize = 2, vbLWM = 1, vbNumHashBuckets = 1\<rparr>,
     vb_files = [\<lparr>fileOID = 7, fileSize = 2457600, nextOffset = 0\<rparr>],
     vb_buckets = [2],
     vb_storage =
       [\<lparr>lbid = 10, verID = 3, next_ix = -1, vbOID = 7, vbFBO = 50\<rparr>, empty_vbbm_entry,
        \<lparr>lbid = 20, verID = 2, next_ix = 0, vbOID = 7, vbFBO = 150\<rparr>, empty_vbbm_entry],
     vb_undo = [], vb_key = 0x40001, vb_alloc = vbbm_initial_alloc 1, vb_attached = True,
     currentFileSize = 2457600\<rparr>"

lemma vbbm_ex_abs: "vbbm_abs vbbm_ex = {#(10, 3, 7, 50), (20, 2, 7, 150)#}"
  by (simp add: vbbm_abs_def vbbm_ex_def used_def empty_vbbm_entry_def vbrow_def)

lemma vbbm_ex_inv: "vbbm_inv vbbm_ex"
proof -
  have "\<exists>xs. chain (vb_storage vbbm_ex) 2 xs \<and> set xs = members vbbm_hash 1 (vb_storage vbbm_ex) 0"
    by (rule exI [of _ "[2, 0]"])
      (auto simp: vbbm_ex_def members_def less_Suc_eq used_def empty_vbbm_entry_def)
  then have "chains_ok vbbm_hash (vb_buckets vbbm_ex) (vb_storage vbbm_ex)"
    by (simp add: chains_ok_def vbbm_ex_def)
  then have "vbbm_struct vbbm_ex"
    by (intro vbbm_structI) (auto simp: vbbm_ex_def used_def)
  then show ?thesis
    by (simp add: vbbm_inv_def vbbm_ex_def vbbm_count_def used_def empty_vbbm_entry_def
        vbbm_initial_alloc_def VB_sizes)
qed

lemma vb_ex_ok: "vb_ok (vbbm_ex, vss_ex)"
proof -
  have "unique_keys (vbbm_abs vbbm_ex)" by (simp add: unique_keys_def vbbm_ex_abs)
  moreover have "files_ok (vbbm_abs vbbm_ex) (vb_files vbbm_ex)"
    by (auto simp: files_ok_def vbbm_ex_def vbfile_at_def BLOCK_SIZE_def chunk_clear_def chunk_up_def)
  ultimately show ?thesis by (simp add: vb_ok_files vbbm_ex_inv vss_ex_wf)
qed

section \<open>Look-up, insertion, removal\<close>

lemma unique_keys_eq:
  assumes "unique_keys R" "(l, v, a) \<in># R" "(l, v, b) \<in># R"
  shows "a = b"
proof (rule ccontr)
  assume "a \<noteq> b"
  with assms(2,3) have "{#(l, v, a), (l, v, b)#} \<subseteq># R"
    by (metis insert_subset_eq_iff mset_subset_eq_single multi_member_split add_mset_remove_trivial
        insert_noteq_member prod.inject)
  then have "{#r \<in># {#(l, v, a), (l, v, b)#}. fst r = l \<and> fst (snd r) = v#}
      \<subseteq># {#r \<in># R. fst r = l \<and> fst (snd r) = v#}" by (rule multiset_filter_mono)
  then have "size {#(l, v, a), (l, v, b)#} \<le> size {#r \<in># R. fst r = l \<and> fst (snd r) = v#}"
    by (intro size_mset_mono) simp
  with assms(1) [unfolded unique_keys_def, THEN spec, THEN spec, of l v] show False by simp
qed

lemma vbbm_lookup_found:
  assumes "vbbm_inv s" "0 \<le> l" "0 \<le> v" "unique_keys (vbbm_abs s)" "(l, v, oid, fbo) \<in># vbbm_abs s"
  shows "vbbm_lookup s l v = Inr (0, Some (oid, fbo))"
  using vbbm_lookup_struct [OF vbbm_invD(1) [OF assms(1)] assms(2,3)]
proof (elim disjE exE conjE)
  fix oid' fbo'
  assume "(l, v, oid', fbo') \<in># vbbm_abs s" "vbbm_lookup s l v = Inr (0, Some (oid', fbo'))"
  with unique_keys_eq [OF assms(4) this(1) assms(5)] show ?thesis by simp
qed (use assms(5) in simp)

lemma vbbm_lookup_missing:
  assumes "vbbm_inv s" "0 \<le> l" "0 \<le> v" "\<And>oid fbo. (l, v, oid, fbo) \<notin># vbbm_abs s"
  shows "vbbm_lookup s l v = Inr (-1, None)"
  using vbbm_lookup_struct [OF vbbm_invD(1) [OF assms(1)] assms(2,3)] assms(4) by blast

text \<open>What a look-up returns depends on the rows of its key only.\<close>

lemma vbbm_lookup_cong:
  assumes "vbbm_inv s" "vbbm_inv t" "unique_keys (vbbm_abs s)" "unique_keys (vbbm_abs t)"
    "\<And>oid fbo. (l, v, oid, fbo) \<in># vbbm_abs t \<longleftrightarrow> (l, v, oid, fbo) \<in># vbbm_abs s"
  shows "vbbm_lookup t l v = vbbm_lookup s l v"
proof (cases "0 \<le> l \<and> 0 \<le> v")
  case True
  show ?thesis
  proof (cases "\<exists>oid fbo. (l, v, oid, fbo) \<in># vbbm_abs s")
    case 1: True
    then obtain oid fbo where "(l, v, oid, fbo) \<in># vbbm_abs s" by blast
    with True assms show ?thesis by (simp add: vbbm_lookup_found)
  next
    case False
    with True assms show ?thesis by (simp add: vbbm_lookup_missing)
  qed
qed (auto simp: vbbm_lookup_def)

lemma unique_keys_insert:
  assumes "unique_keys R" "\<And>x. (l, v, x) \<notin># R"
  shows "unique_keys (add_mset (l, v, a) R)"
  unfolding unique_keys_def
proof (intro allI)
  fix l' v'
  have "{#r \<in># R. fst r = l \<and> fst (snd r) = v#} = {#}" using assms(2) by (auto simp flip: set_mset_eq_empty_iff)
  with assms(1) show "size {#r \<in># add_mset (l, v, a) R. fst r = l' \<and> fst (snd r) = v'#} \<le> 1"
    by (cases "l' = l \<and> v' = v") (auto simp: unique_keys_def)
qed

text \<open>
  C23. A version that is inserted into the VBBM can be looked up: \<^verbatim>\<open>VBBM::insert\<close> succeeds on every
  consistent table, full or not, \<^verbatim>\<open>lookup\<close> then returns \<open>0\<close> with the given place in the version buffer, and
  the look-up of every other version returns what it returned before.
\<close>

theorem vbbm_insert_lookup:
  assumes "vbbm_inv s" "unique_keys (vbbm_abs s)" "0 \<le> l" "0 \<le> v" "vbbm_lookup s l v = Inr (-1, None)"
  shows "\<exists>t. vbbm_insert cfg l v oid fbo False s = (t, Inr ()) \<and> vbbm_inv t \<and> unique_keys (vbbm_abs t)
    \<and> vbbm_lookup t l v = Inr (0, Some (oid, fbo))
    \<and> (\<forall>l' v'. (l', v') \<noteq> (l, v) \<longrightarrow> vbbm_lookup t l' v' = vbbm_lookup s l' v')"
proof -
  have new: "(l, v, x) \<notin># vbbm_abs s" for x
    using vbbm_lookup_struct [OF vbbm_invD(1) [OF assms(1)] assms(3,4)] assms(5) by (cases x) auto
  from assms(3) have "l \<noteq> -1" by simp
  from vbbm_insert_ok [OF assms(1) this, of cfg v oid fbo False] obtain t where
    t: "vbbm_insert cfg l v oid fbo False s = (t, Inr ())" "vbbm_inv t"
      "vbbm_abs t = add_mset (l, v, oid, fbo) (vbbm_abs s)" by blast
  have uk: "unique_keys (vbbm_abs t)" unfolding t(3) using assms(2) new by (rule unique_keys_insert)
  have "vbbm_lookup t l' v' = vbbm_lookup s l' v'" if "(l', v') \<noteq> (l, v)" for l' v'
    by (rule vbbm_lookup_cong [OF assms(1) t(2) assms(2) uk]) (use that t(3) in auto)
  moreover have "vbbm_lookup t l v = Inr (0, Some (oid, fbo))"
    by (rule vbbm_lookup_found [OF t(2) assms(3,4) uk]) (simp add: t(3))
  ultimately show ?thesis using t(1,2) uk by blast
qed

lemma vbbm_ex_keys: "unique_keys (vbbm_abs vbbm_ex)"
  by (simp add: unique_keys_def vbbm_ex_abs)

theorem vbbm_insert_lookup_witness:
  "\<exists>t. vbbm_insert None 30 8 7 160 False vbbm_ex = (t, Inr ()) \<and> vbbm_lookup t 30 8 = Inr (0, Some (7, 160))
     \<and> vbbm_lookup t 10 3 = Inr (0, Some (7, 50))"
proof -
  have "vbbm_lookup vbbm_ex 30 8 = Inr (-1, None)"
    by (rule vbbm_lookup_missing [OF vbbm_ex_inv]) (simp_all add: vbbm_ex_abs)
  from vbbm_insert_lookup [OF vbbm_ex_inv vbbm_ex_keys _ _ this, of None 7 160] obtain t where
    t: "vbbm_insert None 30 8 7 160 False vbbm_ex = (t, Inr ())" "vbbm_lookup t 30 8 = Inr (0, Some (7, 160))"
      "\<forall>l' v'. (l', v') \<noteq> (30, 8) \<longrightarrow> vbbm_lookup t l' v' = vbbm_lookup vbbm_ex l' v'" by auto
  moreover have "vbbm_lookup vbbm_ex 10 3 = Inr (0, Some (7, 50))"
    by (rule vbbm_lookup_found [OF vbbm_ex_inv _ _ vbbm_ex_keys]) (simp_all add: vbbm_ex_abs)
  ultimately show ?thesis by auto
qed

lemma vbbm_removeEntry_gone:
  assumes "vbbm_inv s" "unique_keys (vbbm_abs s)"
  shows "\<exists>t. vbbm_removeEntry l v s = (t, Inr ()) \<and> vbbm_inv t \<and> vbbm_abs t \<subseteq># vbbm_abs s
    \<and> (\<forall>x. (l, v, x) \<notin># vbbm_abs t) \<and> vb_files t = vb_files s
    \<and> (\<forall>l' v' x. (l', v') \<noteq> (l, v) \<longrightarrow> (l', v', x) \<in># vbbm_abs s \<longrightarrow> (l', v', x) \<in># vbbm_abs t)"
  using vbbm_removeEntry_cases [OF assms(1), of l v]
proof (elim disjE exE conjE)
  fix x t
  assume x: "x < length (vb_storage s)" "used (vb_storage s ! x)" "lbid (vb_storage s ! x) = l" "verID (vb_storage s ! x) = v"
    and t: "vbbm_removeEntry l v s = (t, Inr ())" "vbbm_inv t" "vbbm_abs t = vbbm_abs s - {#vbrow (vb_storage s ! x)#}"
      "vb_files t = vb_files s"
  define a where "a = (vbOID (vb_storage s ! x), vbFBO (vb_storage s ! x))"
  have r: "vbrow (vb_storage s ! x) = (l, v, a)" using x by (simp add: vbrow_def a_def)
  have mem: "(l, v, a) \<in># vbbm_abs s" using x r by (auto simp: mem_vbbm_abs)
  have gone: "(l, v, y) \<notin># vbbm_abs t" for y
  proof
    assume y: "(l, v, y) \<in># vbbm_abs t"
    have "add_mset (l, v, a) (vbbm_abs t) = vbbm_abs s" using mem by (simp add: t(3) r)
    then have "size {#r \<in># vbbm_abs s. fst r = l \<and> fst (snd r) = v#} =
        Suc (size {#r \<in># vbbm_abs t. fst r = l \<and> fst (snd r) = v#})"
      by (metis (mono_tags, lifting) filter_mset_add_mset fst_conv size_add_mset snd_conv)
    moreover have "{#r \<in># vbbm_abs t. fst r = l \<and> fst (snd r) = v#} \<noteq> {#}"
      using y by (cases y) (auto simp flip: set_mset_eq_empty_iff)
    then have "0 < size {#r \<in># vbbm_abs t. fst r = l \<and> fst (snd r) = v#}" by (simp only: nonempty_has_size)
    ultimately show False using assms(2) [unfolded unique_keys_def, THEN spec, THEN spec, of l v] by simp
  qed
  moreover have "(l', v', x) \<in># vbbm_abs t" if "(l', v') \<noteq> (l, v)" "(l', v', x) \<in># vbbm_abs s" for l' v' x
    using that by (auto simp: t(3) r in_diff_count)
  moreover have "vbbm_abs t \<subseteq># vbbm_abs s" by (simp add: t(3))
  ultimately show ?thesis using t(1,2,4) by blast
next
  assume none: "\<forall>i<length (vb_storage s). used (vb_storage s ! i) \<longrightarrow>
      \<not> (lbid (vb_storage s ! i) = l \<and> verID (vb_storage s ! i) = v)" "vbbm_removeEntry l v s = (s, Inr ())"
  then have "(l, v, x) \<notin># vbbm_abs s" for x by (auto simp: mem_vbbm_abs vbrow_def)
  with none assms show ?thesis by (intro exI [of _ s]) simp
qed

text \<open>
  C24. \<^verbatim>\<open>VBBM::removeEntry\<close> always ends; afterwards \<^verbatim>\<open>lookup\<close> does not find the version, and every other
  version is found as before.
\<close>

theorem vbbm_removeEntry_lookup:
  assumes "vbbm_inv s" "unique_keys (vbbm_abs s)" "0 \<le> l" "0 \<le> v"
  shows "\<exists>t. vbbm_removeEntry l v s = (t, Inr ()) \<and> vbbm_inv t \<and> unique_keys (vbbm_abs t)
    \<and> vbbm_lookup t l v = Inr (-1, None)
    \<and> (\<forall>l' v'. (l', v') \<noteq> (l, v) \<longrightarrow> vbbm_lookup t l' v' = vbbm_lookup s l' v')"
proof -
  from vbbm_removeEntry_gone [OF assms(1,2), of l v] obtain t where
    t: "vbbm_removeEntry l v s = (t, Inr ())" "vbbm_inv t" "vbbm_abs t \<subseteq># vbbm_abs s" "\<forall>x. (l, v, x) \<notin># vbbm_abs t"
      "\<forall>l' v' x. (l', v') \<noteq> (l, v) \<longrightarrow> (l', v', x) \<in># vbbm_abs s \<longrightarrow> (l', v', x) \<in># vbbm_abs t" by blast
  have uk: "unique_keys (vbbm_abs t)" by (rule unique_keys_mono [OF assms(2) t(3)])
  have "vbbm_lookup t l' v' = vbbm_lookup s l' v'" if "(l', v') \<noteq> (l, v)" for l' v'
    by (rule vbbm_lookup_cong [OF assms(1) t(2) assms(2) uk]) (use that t(3,5) in \<open>blast dest: mset_subset_eqD\<close>)
  moreover have "vbbm_lookup t l v = Inr (-1, None)" using t(4) by (intro vbbm_lookup_missing [OF t(2) assms(3,4)]) blast
  ultimately show ?thesis using t(1,2) uk by blast
qed

theorem vbbm_removeEntry_lookup_witness:
  "\<exists>t. vbbm_removeEntry 10 3 vbbm_ex = (t, Inr ()) \<and> vbbm_lookup t 10 3 = Inr (-1, None)
     \<and> vbbm_lookup t 20 2 = Inr (0, Some (7, 150))"
proof -
  have "vbbm_lookup vbbm_ex 20 2 = Inr (0, Some (7, 150))"
    by (rule vbbm_lookup_found [OF vbbm_ex_inv _ _ vbbm_ex_keys]) (simp_all add: vbbm_ex_abs)
  with vbbm_removeEntry_lookup [OF vbbm_ex_inv vbbm_ex_keys, of 10 3] show ?thesis by auto
qed

section \<open>Growth\<close>

text \<open>
  C25. \<^verbatim>\<open>VBBM::growVBBM\<close> copies only the first \<^verbatim>\<open>vbCurrentSize\<close> elements of the storage: a version stored
  further back, behind an element that a removal has freed, cannot be found any more after the
  growth, although \<^verbatim>\<open>vbCurrentSize\<close> still counts it.
\<close>

theorem vbbm_growVBBM_drops:
  assumes "vbbm_inv s" "unique_keys (vbbm_abs s)" "i < length (vb_storage s)" "vbCurrentSize (vb_hdr s) \<le> int i"
    and "vb_storage s ! i = e" "0 \<le> lbid e" "0 \<le> verID e"
  shows "vbbm_lookup s (lbid e) (verID e) = Inr (0, Some (vbOID e, vbFBO e))
    \<and> (\<exists>t. vbbm_growVBBM cfg addAFile s = (t, Inr ()) \<and> vbbm_inv t
         \<and> vbCurrentSize (vb_hdr t) = vbCurrentSize (vb_hdr s)
         \<and> vbbm_lookup t (lbid e) (verID e) = Inr (-1, None))"
proof -
  have u: "used e" using assms(6) by (simp add: used_def)
  from vbbm_growVBBM_ok [OF assms(1), of cfg addAFile] obtain t n where
    t: "vbbm_growVBBM cfg addAFile s = (t, Inr ())" "vbbm_inv t" "vbbm_abs t = vbbm_kept s"
      "vb_hdr t = (vb_hdr s)\<lparr>nFiles := nFiles (vb_hdr s) + of_bool addAFile,
            vbCapacity := vbCapacity (vb_hdr s) + (if addAFile then 0 else VBSTORAGE_INCREMENT_COUNT),
            vbNumHashBuckets := vbNumHashBuckets (vb_hdr s) + (if addAFile then 0 else VBTABLE_INCREMENT_COUNT),
            vbLWM := n\<rparr>" by auto
  have "(lbid e, verID e, oid, fbo) \<notin># vbbm_abs t" for oid fbo
  proof
    assume "(lbid e, verID e, oid, fbo) \<in># vbbm_abs t"
    then obtain x where x: "x \<in> set (take (nat (vbCurrentSize (vb_hdr s))) (vb_storage s))" "used x"
        "lbid x = lbid e" "verID x = verID e" by (auto simp: t(3) vbrow_def)
    from x(1) obtain j where j: "j < length (vb_storage s)" "int j < vbCurrentSize (vb_hdr s)" "vb_storage s ! j = x"
      by (auto simp: in_set_conv_nth)
    with unique_keys_index [OF assms(2) j(1) assms(3)] x u assms(4,5) show False by simp
  qed
  then have "vbbm_lookup t (lbid e) (verID e) = Inr (-1, None)"
    by (intro vbbm_lookup_missing [OF t(2) assms(6,7)])
  moreover have "(lbid e, verID e, vbOID e, vbFBO e) \<in># vbbm_abs s"
    using assms(3,5) u by (auto simp: mem_vbbm_abs vbrow_def)
  then have "vbbm_lookup s (lbid e) (verID e) = Inr (0, Some (vbOID e, vbFBO e))"
    by (rule vbbm_lookup_found [OF assms(1,6,7,2)])
  ultimately show ?thesis using t(1,2,4) by simp
qed

theorem vbbm_growVBBM_drops_witness:
  "vbbm_lookup vbbm_ex 20 2 = Inr (0, Some (7, 150))
    \<and> (\<exists>t. vbbm_growVBBM None False vbbm_ex = (t, Inr ()) \<and> vbbm_lookup t 20 2 = Inr (-1, None))"
  using vbbm_growVBBM_drops [OF vbbm_ex_inv vbbm_ex_keys, of 2
    "\<lparr>lbid = 20, verID = 2, next_ix = 0, vbOID = 7, vbFBO = 150\<rparr>" None False]
  by (auto simp: vbbm_ex_def)

section \<open>Allocation\<close>

text \<open>
  C5. \<^verbatim>\<open>VBBM::getBlocks\<close> on a consistent version buffer always ends, and with one of two results. It
  throws the overflow exception, or it hands out exactly \<^verbatim>\<open>num\<close> distinct blocks of the file, in at most two
  ranges inside the file, none of which holds a version any more, and leaves a consistent version
  buffer positioned behind them. The VBBM and the VSS are consistent in both cases.
\<close>

theorem vb_getBlocks_spec:
  assumes "vb_ok s" "int BLOCK_SIZE \<le> fs" "fs < 2 ^ 31 * int BLOCK_SIZE" "- (2 ^ 31) \<le> num" "num < 2 ^ 31"
  shows "case vb_getBlocks (Some fs) num oid fl s of
      (t, Inl err) \<Rightarrow> err = VBBMBufferOverFlowExcept \<and> vbbm_inv (fst t) \<and> vss_wf (snd t)
    | (t, Inr (ranges, flush)) \<Rightarrow> vb_ok t \<and> vb_granted oid num t ranges"
  by (rule vb_getBlocks_cases [OF assms, of oid fl]) (simp_all only: prod.case sum.case simp_thms)

lemma vb_ex_age:
  assumes b: "vb_storage b = vb_storage vbbm_ex" "vbbm_inv b"
  shows "snd (vb_ageLoop 7 0 99 [0..<4] [] (b, vss_ex)) = Inr [10]"
proof -
  have st: "vb_storage b ! 0 = \<lparr>lbid = 10, verID = 3, next_ix = -1, vbOID = 7, vbFBO = 50\<rparr>"
    "vbrow (vb_storage b ! 2) = (20, 2, 7, 150)" "\<not> used (vb_storage b ! 1)" "\<not> used (vb_storage b ! 3)"
    "length (vb_storage b) = 4"
    by (simp_all add: b vbbm_ex_def vbrow_def used_def empty_vbbm_entry_def)
  have lk: "vss_isEntryLocked vss_ex 10 3 = Some False"
    using vss_isEntryLocked_struct [of vss_ex 10 3] vss_ex_wf by (simp add: vss_ex_block vss_wf_def)
  have d: "vss_abs vss_ex - {#(10, 3, True, False)#} = {#(10, 5, False, False), (20, 7, False, True)#}"
    by (simp add: vss_ex_abs)
  have "(10, 3, vb, lk) \<in># vss_abs vss_ex \<longleftrightarrow> vb \<and> \<not> lk" for vb lk by (auto simp: vss_ex_abs)
  with vss_removeEntry_wf [OF vss_ex_wf, of 10 3] obtain v where
    "vss_removeEntry 10 3 vss_ex = (v, Inr (if \<exists>(l', v', vb', lk') \<in># vss_abs vss_ex - {#(10, 3, True, False)#}.
              l' = 10 \<and> (vb' \<or> lk') then [] else [10]))" by auto
  then have v: "vss_removeEntry 10 3 vss_ex = (v, Inr [10])" unfolding d by simp
  have "\<exists>i < length (vb_storage b). used (vb_storage b ! i) \<and> lbid (vb_storage b ! i) = 10 \<and> verID (vb_storage b ! i) = 3"
    using st by (intro exI [of _ 0]) (simp add: used_def)
  with vbbm_removeEntry_cases [OF b(2), of 10 3] obtain x t where
    x: "x < 4" "used (vb_storage b ! x)" "lbid (vb_storage b ! x) = 10" "vbbm_removeEntry 10 3 b = (t, Inr ())"
      "\<forall>i < 4. i \<noteq> x \<longrightarrow> vbrow (vb_storage t ! i) = vbrow (vb_storage b ! i)" unfolding st(5) by blast
  from x(1-3) st have "x = 0" by (auto simp: less_Suc_eq numeral_eq_Suc vbrow_def)
  with x(5) st(2) have r: "vbrow (vb_storage t ! 1) = vbrow (vb_storage b ! 1)" "vbrow (vb_storage t ! 2) = (20, 2, 7, 150)"
    "vbrow (vb_storage t ! 3) = vbrow (vb_storage b ! 3)" by simp_all
  have "lbid (vb_storage t ! 1) = -1" "vbFBO (vb_storage t ! 2) = 150" "lbid (vb_storage t ! 3) = -1"
    using r st(3,4) by (simp_all add: vbrow_def used_def)
  moreover have "[0..<4::nat] = [0, 1, 2, 3]" by (simp add: upt_rec)
  ultimately show ?thesis using st(1) lk v x(4) by (simp add: Let_def)
qed

lemma vb_ex_getBlocks:
  "snd (vb_getBlocks (Some 2457600) 2 7 True (vbbm_ex, vss_ex)) =
     Inr ([\<lparr>vbr_OID = 7, vbr_FBO = 0, vbr_size = 2\<rparr>], [10])"
proof -
  let ?r = "\<lparr>vbr_OID = 7, vbr_FBO = 0, vbr_size = 2\<rparr>"
  have x: "vb_files vbbm_ex ! 0 = \<lparr>fileOID = 7, fileSize = 2457600, nextOffset = 0\<rparr>" "length (vb_files vbbm_ex) = 1"
    "vbCapacity (vb_hdr vbbm_ex) = 4" "vbCurrentSize (vb_hdr vbbm_ex) = 2" by (simp_all add: vbbm_ex_def)
  have f: "vbbm_addVBFileIfNotExists (Some 2457600) 7 vbbm_ex = (vbbm_ex, Inr 0)"
    by (simp add: vbbm_addVBFileIfNotExists_def vbbm_ex_def)
  have "vbfile_at (vb_files vbbm_ex ! 0) 300 0" by (simp add: vbbm_ex_def vbfile_at_def BLOCK_SIZE_def)
  from vb_gather_ring [OF this, of 2 6] obtain u where
    g: "vb_gather 6 0 2 [] vbbm_ex = (vbbm_ex\<lparr>vb_undo := u, vb_files :=
       (vb_files vbbm_ex)[0 := \<lparr>fileOID = 7, fileSize = 2457600, nextOffset = 2 * BLOCK_SIZE\<rparr>]\<rparr>, Inr [?r])"
    (is "_ = (?b, _)") by (auto simp: x ring_ranges_def BLOCK_SIZE_def)
  have "vbbm_inv ?b" using vbbm_ex_inv by (simp only: vbbm_files_update_inv)
  from vb_ex_age [OF _ this] obtain w where a: "vb_ageLoop 7 0 99 [0..<4] [] (?b, vss_ex) = (w, Inr [10])"
    by (cases "vb_ageLoop 7 0 99 [0..<4] [] (?b, vss_ex)") simp
  have bd: "vb_ageBounds 2457600 ?r = Some (0, 99)"
    by (simp add: vb_ageBounds_def u32_def VBBM_CHUNK_SIZE_def BLOCK_SIZE_def)
  have "vb_ageRanges 0 [?r] [] (?b, vss_ex) = (w, Inr [10])" using a bd by (simp add: x)
  then show ?thesis
    unfolding vb_getBlocks_def fst_conv snd_conv f by (simp add: x g BLOCK_SIZE_def)
qed

theorem vb_getBlocks_spec_witness:
  "\<exists>t. vb_getBlocks (Some 2457600) 2 7 True (vbbm_ex, vss_ex) =
       (t, Inr ([\<lparr>vbr_OID = 7, vbr_FBO = 0, vbr_size = 2\<rparr>], [10])) \<and> vb_ok t
     \<and> vb_granted 7 2 t [\<lparr>vbr_OID = 7, vbr_FBO = 0, vbr_size = 2\<rparr>]"
proof -
  obtain t where t: "vb_getBlocks (Some 2457600) 2 7 True (vbbm_ex, vss_ex) =
      (t, Inr ([\<lparr>vbr_OID = 7, vbr_FBO = 0, vbr_size = 2\<rparr>], [10]))"
    using vb_ex_getBlocks by (metis prod.collapse)
  with vb_getBlocks_spec [OF vb_ex_ok, of 2457600 2 7 True] show ?thesis
    by (simp add: BLOCK_SIZE_def)
qed

text \<open>
  Where the aging does not look: a request inside one chunk of the file takes the blocks as they are.
\<close>

lemma vb_getBlocks_in_chunk:
  assumes inv: "vbbm_inv b" and f: "find (\<lambda>i. fileOID (vb_files b ! i) = oid) [0..<length (vb_files b)] = Some f"
    and x: "vbfile_at (vb_files b ! f) N k" and n: "0 < n" "k + n \<le> N"
    and chunk: "k mod VBBM_CHUNK_SIZE \<noteq> 0" "k div VBBM_CHUNK_SIZE = (k + n - 1) div VBBM_CHUNK_SIZE"
    and room: "vbCurrentSize (vb_hdr b) + int n \<le> vbCapacity (vb_hdr b)"
  shows "\<exists>b'. vb_getBlocks cfg (int n) oid fl (b, v) =
      ((b', v), Inr ([\<lparr>vbr_OID = oid, vbr_FBO = k, vbr_size = n\<rparr>], [])) \<and> vbbm_abs b' = vbbm_abs b"
proof -
  from f have fl: "f < length (vb_files b)" "fileOID (vb_files b ! f) = oid" by (auto simp: find_Some_iff)
  from x have N: "fileSize (vb_files b ! f) div BLOCK_SIZE = N" "N < 2 ^ 31" by (simp_all add: vbfile_at_def)
  let ?r = "\<lparr>vbr_OID = oid, vbr_FBO = k, vbr_size = n\<rparr>"
  from n have nN: "n \<le> N" by simp
  from vb_gather_state [OF x fl(1) nN] obtain c where
    c: "vb_gather (2 * n + 2) f (int n) [] b = (c, Inr [?r])" "vbbm_abs c = vbbm_abs b"
    using n fl(2) by (auto simp: ring_ranges_def)
  have fi: "vbbm_addVBFileIfNotExists cfg oid b = (b, Inr f)"
    unfolding vbbm_addVBFileIfNotExists_def vbbm_invD(6) [OF inv, symmetric] nat_int f option.case ..
  have "u32 (k + n + (2 ^ 32 - 1)) = k + n - 1"
  proof -
    have "k + n + (2 ^ 32 - 1) = (k + n - 1) + 2 ^ 32" using n by simp
    then show ?thesis using n N(2) by (simp only: u32_def mod_add_self2) simp
  qed
  then have bd: "vb_ageBounds fs ?r = None" for fs
    using chunk by (simp only: vb_ageBounds_def VBRange.simps Let_def if_True simp_thms not_False_eq_True)
  have "nat (int n mod 2 ^ 32) = n" using nN N(2) by simp
  then have "\<not> nat (int n mod 2 ^ 32) > fileSize (vb_files b ! f) div BLOCK_SIZE" using nN N(1) by simp
  moreover have "vb_growLoop (Suc m) cfg (int n) b = (b, Inr ())" for m using room by simp
  ultimately have "vb_getBlocks cfg (int n) oid fl (b, v) = ((c, v), Inr ([?r], []))"
    unfolding vb_getBlocks_def fst_conv snd_conv fi
    by (simp only: prod.case sum.case if_False and_then_simps nat_int c(1) vb_ageRanges.simps bd option.case) simp
  with c(2) show ?thesis by blast
qed

definition vbbm_small :: VBBM where
  "vbbm_small = \<lparr>
     vb_hdr = \<lparr>nFiles = 1, vbCapacity = 4, vbCurrentSize = 0, vbLWM = 0, vbNumHashBuckets = 1\<rparr>,
     vb_files = [\<lparr>fileOID = 7, fileSize = 24576, nextOffset = 16384\<rparr>],
     vb_buckets = [-1], vb_storage = replicate 4 empty_vbbm_entry,
     vb_undo = [], vb_key = 0x40001, vb_alloc = vbbm_initial_alloc 1, vb_attached = True,
     currentFileSize = 24576\<rparr>"

lemma vbbm_small_facts: "vbbm_inv vbbm_small" "vbbm_abs vbbm_small = {#}" "vb_ok (vbbm_small, vss_ex)"
proof -
  have s: "vbbm_struct vbbm_small" "vbbm_abs vbbm_small = {#}"
    by (rule vbbm_struct_fresh; simp add: vbbm_small_def)+
  then show inv: "vbbm_inv vbbm_small" and "vbbm_abs vbbm_small = {#}"
    by (simp_all add: vbbm_inv_def size_vbbm_abs [symmetric] vbbm_small_def vbbm_initial_alloc_def VB_sizes)
  have "files_ok {#} (vb_files vbbm_small)"
    by (auto simp: files_ok_def vbbm_small_def vbfile_at_def BLOCK_SIZE_def chunk_clear_def blocks_clear_def
        intro: exI [of _ 2])
  then show "vb_ok (vbbm_small, vss_ex)" using s inv vss_ex_wf by (simp add: vb_ok_files unique_keys_def)
qed

lemma vbbm_insert_capacity:
  assumes "vbCurrentSize (vb_hdr s) \<noteq> vbCapacity (vb_hdr s)"
  shows "vbCapacity (vb_hdr (fst (vbbm_insert cfg l v oid fbo loading s))) = vbCapacity (vb_hdr s)"
  using assms by (simp add: vbbm_insert_def vbbm_insert_entry_def Let_def split: option.splits)

text \<open>
  C26. The chunks that \<^verbatim>\<open>getBlocks\<close> assumes to be cleared already need not be: from a consistent, empty
  version buffer with a file of three blocks, a first request for two blocks gets blocks 2 and 0, a
  version is stored in block 2, and a second request for two blocks gets blocks 1 and 2 while that
  version is still in the table.
\<close>

theorem vb_getBlocks_reuses:
  "vb_ok (vbbm_small, vss_ex) \<and> (\<exists>b1 b2 b3.
     vb_getBlocks cfg 2 7 False (vbbm_small, vss_ex) = ((b1, vss_ex),
       Inr ([\<lparr>vbr_OID = 7, vbr_FBO = 2, vbr_size = 1\<rparr>, \<lparr>vbr_OID = 7, vbr_FBO = 0, vbr_size = 1\<rparr>], []))
   \<and> vbbm_insert cfg 10 3 7 2 False b1 = (b2, Inr ())
   \<and> vb_getBlocks cfg 2 7 False (b2, vss_ex) = ((b3, vss_ex), Inr ([\<lparr>vbr_OID = 7, vbr_FBO = 1, vbr_size = 2\<rparr>], []))
   \<and> (10, 3, 7, 2) \<in># vbbm_abs b3)"
proof -
  let ?s = vbbm_small
  let ?r1 = "\<lparr>vbr_OID = 7, vbr_FBO = 2, vbr_size = 1\<rparr>" and ?r2 = "\<lparr>vbr_OID = 7, vbr_FBO = 0, vbr_size = 1\<rparr>"
  have fi: "vbbm_addVBFileIfNotExists cfg 7 ?s = (?s, Inr 0)"
    by (simp add: vbbm_addVBFileIfNotExists_def vbbm_small_def)
  have at: "vbfile_at (vb_files ?s ! 0) 3 2" by (simp add: vbbm_small_def vbfile_at_def BLOCK_SIZE_def)
  from vb_gather_ring [OF at, of 2 6] obtain u where
    g: "vb_gather 6 0 2 [] ?s = (?s\<lparr>vb_undo := u, vb_files := [\<lparr>fileOID = 7, fileSize = 24576, nextOffset = 8192\<rparr>]\<rparr>,
       Inr [?r1, ?r2])" (is "_ = (?b, _)") by (auto simp: vbbm_small_def ring_ranges_def BLOCK_SIZE_def)
  have bd: "vb_ageBounds 24576 ?r1 = None" "vb_ageBounds 24576 ?r2 = Some (0, 3)"
    by (simp_all add: vb_ageBounds_def u32_def VBBM_CHUNK_SIZE_def BLOCK_SIZE_def)
  have "vb_ageLoop 7 0 3 [0..<4] [] (?b, vss_ex) = ((?b, vss_ex), Inr [])"
    by (simp add: upt_rec vbbm_small_def empty_vbbm_entry_def)
  then have "vb_ageRanges 0 [?r1, ?r2] [] (?b, vss_ex) = ((?b, vss_ex), Inr [])"
    using bd by (simp add: vbbm_small_def)
  moreover have "\<not> nat (2 mod 2 ^ 32) > fileSize (vb_files ?s ! 0) div BLOCK_SIZE"
    "vb_growLoop (Suc m) cfg 2 ?s = (?s, Inr ())" "2 * nat 2 + 2 = (6 :: nat)" for m
    by (simp_all add: vbbm_small_def BLOCK_SIZE_def)
  ultimately have first: "vb_getBlocks cfg 2 7 False (?s, vss_ex) = ((?b, vss_ex), Inr ([?r1, ?r2], []))"
    unfolding vb_getBlocks_def fst_conv snd_conv fi
    by (simp only: prod.case sum.case if_False and_then_simps g)
  have eq: "?b = ?s\<lparr>vb_undo := u, vb_files := (vb_files ?s)[0 := \<lparr>fileOID = 7, fileSize = 24576, nextOffset = 8192\<rparr>]\<rparr>"
    by (simp add: vbbm_small_def)
  have b: "vbbm_inv ?b" using vbbm_small_facts(1) unfolding eq by (simp only: vbbm_files_update_inv)
  from vbbm_insert_ok [OF b, of 10 cfg 3 7 2 False] obtain t where
    t: "vbbm_insert cfg 10 3 7 2 False ?b = (t, Inr ())" "vbbm_inv t" "vbbm_abs t = add_mset (10, 3, 7, 2) (vbbm_abs ?b)"
      "vb_files t = [\<lparr>fileOID = 7, fileSize = 24576, nextOffset = 8192\<rparr>]" "vbCurrentSize (vb_hdr t) = 1"
    by (auto simp: vbbm_small_def)
  have "vbCapacity (vb_hdr t) = 4"
    using vbbm_insert_capacity [of ?b cfg 10 3 7 2 False] by (simp add: t(1)) (simp add: vbbm_small_def)
  then have "\<exists>b3. vb_getBlocks cfg (int 2) 7 False (t, vss_ex) =
      ((b3, vss_ex), Inr ([\<lparr>vbr_OID = 7, vbr_FBO = 1, vbr_size = 2\<rparr>], [])) \<and> vbbm_abs b3 = vbbm_abs t"
    by (intro vb_getBlocks_in_chunk [OF t(2), of 7 0 3 1])
      (simp_all add: t(4,5) vbfile_at_def BLOCK_SIZE_def VBBM_CHUNK_SIZE_def)
  with first t(1,3) vbbm_small_facts(3) show ?thesis by auto
qed

end
