(* ===== verification/VB_Purge.thy ===== *)
theory VB_Purge
  imports VB_Contract
begin

text \<open>
  \<^verbatim>\<open>VSS::removeEntriesFromDB\<close>, which removes the versions of a range of blocks from the VSS and, where they are flagged there, from
  the VBBM, and the two \<^verbatim>\<open>checkConsistency\<close> functions.
\<close>

section \<open>Removal of a range of blocks\<close>

fun vb_purge_loop :: "bool \<Rightarrow> nat \<Rightarrow> LBID_t \<Rightarrow> nat \<Rightarrow> int \<Rightarrow> int \<Rightarrow> version_buffer \<Rightarrow>
    (version_buffer, unit) outcome" where
  "vb_purge_loop use_vbbm 0 l bucket prev index s = (s, Inl Undefined)"
| "vb_purge_loop use_vbbm (Suc fuel) l bucket prev index s =
     (if index = -1 then (s, Inr ())
      else if index < 0 \<or> length (vss_storage (snd s)) \<le> nat index then (s, Inl Undefined)
      else
        let e = vss_storage (snd s) ! nat index in
        if lbid e = l
        then case (if vbFlag e \<and> use_vbbm then vbbm_removeEntry (lbid e) (verID e) (fst s) else (fst s, Inr ())) of
               (b, Inl err) \<Rightarrow> ((b, snd s), Inl err)
             | (b, Inr _) \<Rightarrow>
                 let v = vss_uncount (nat index) (vss_unlink bucket prev (nat index) (snd s))
                 in vb_purge_loop use_vbbm fuel l bucket prev (next_ix (vss_storage v ! nat index)) (b, v)
        else vb_purge_loop use_vbbm fuel l bucket index (next_ix e) s)"

fun vb_purge :: "bool \<Rightarrow> LBID_t list \<Rightarrow> version_buffer \<Rightarrow> (version_buffer, unit) outcome" where
  "vb_purge use_vbbm [] s = (s, Inr ())"
| "vb_purge use_vbbm (l # ls) s =
     (let v = snd s; bucket = vss_bucket v l in
      if length (vss_buckets v) \<le> bucket then (s, Inl Undefined)
      else and_then (vb_purge_loop use_vbbm (Suc (length (vss_storage v))) l bucket (-1) (vss_buckets v ! bucket) s)
             (\<lambda>_. vb_purge use_vbbm ls))"

definition vb_removeEntriesFromDB :: "LBIDRange \<Rightarrow> bool \<Rightarrow> version_buffer \<Rightarrow> (version_buffer, unit) outcome" where
  "vb_removeEntriesFromDB r use_vbbm s =
     vb_purge use_vbbm (range_lbids r) (fst s, vss_makeUndoRecord HeaderAt (snd s))"

text \<open>What the loop over one hash list does to the VBBM.\<close>

definition purged :: "LBID_t \<Rightarrow> VER_t set \<Rightarrow> VBBM \<Rightarrow> VBBM \<Rightarrow> bool" where
  "purged l V b t \<longleftrightarrow> vbbm_inv t \<and> vbbm_abs t \<subseteq># vbbm_abs b \<and> vb_files t = vb_files b
     \<and> (\<forall>v \<in> V. \<forall>x. (l, v, x) \<notin># vbbm_abs t)
     \<and> (\<forall>l' v' x. l' \<noteq> l \<longrightarrow> (l', v', x) \<in># vbbm_abs b \<longrightarrow> (l', v', x) \<in># vbbm_abs t)"

lemma purged_step:
  assumes "vbbm_inv b" "unique_keys (vbbm_abs b)"
  obtains c where "(if u then vbbm_removeEntry l v b else (b, Inr ())) = (c, Inr ())"
    "vbbm_inv c" "unique_keys (vbbm_abs c)" "purged l (if u then {v} else {}) b c"
proof (cases u)
  case True
  from vbbm_removeEntry_gone [OF assms, of l v] obtain c where
    c: "vbbm_removeEntry l v b = (c, Inr ())" "vbbm_inv c" "vbbm_abs c \<subseteq># vbbm_abs b" "vb_files c = vb_files b"
      "\<forall>x. (l, v, x) \<notin># vbbm_abs c"
      "\<forall>l' v' x. (l', v') \<noteq> (l, v) \<longrightarrow> (l', v', x) \<in># vbbm_abs b \<longrightarrow> (l', v', x) \<in># vbbm_abs c" by blast
  with True show thesis by (intro that [of c]) (auto simp: purged_def intro: unique_keys_mono [OF assms(2)])
next
  case False
  with assms show thesis by (intro that [of b]) (simp_all add: purged_def)
qed

lemma purged_trans:
  assumes b: "purged l V b c" and c: "purged l W c d"
  shows "purged l (V \<union> W) b d"
proof -
  from b have B: "vbbm_abs c \<subseteq># vbbm_abs b" "vb_files c = vb_files b" "\<And>v x. v \<in> V \<Longrightarrow> (l, v, x) \<notin># vbbm_abs c"
    "\<And>l' v' x. l' \<noteq> l \<Longrightarrow> (l', v', x) \<in># vbbm_abs b \<Longrightarrow> (l', v', x) \<in># vbbm_abs c"
    unfolding purged_def by blast+
  from c have C: "vbbm_inv d" "vbbm_abs d \<subseteq># vbbm_abs c" "vb_files d = vb_files c" "\<And>v x. v \<in> W \<Longrightarrow> (l, v, x) \<notin># vbbm_abs d"
    "\<And>l' v' x. l' \<noteq> l \<Longrightarrow> (l', v', x) \<in># vbbm_abs c \<Longrightarrow> (l', v', x) \<in># vbbm_abs d"
    unfolding purged_def by blast+
  show ?thesis unfolding purged_def
  proof (intro conjI ballI allI impI)
    show "vbbm_abs d \<subseteq># vbbm_abs b" using C(2) B(1) by (rule subset_mset.trans)
    show "(l, v, x) \<notin># vbbm_abs d" if "v \<in> V \<union> W" for v x
      using that B(3) C(4) mset_subset_eqD [OF C(2)] by blast
  qed (use B(2,4) C(1,3,5) in simp_all)
qed

lemma vb_purge_loop_ok:
  assumes "vss_wf v" "bk < length (vss_buckets v)" "chain (vss_storage v) (vss_buckets v ! bk) (ys @ zs)"
    "length zs < fuel" "index = (case zs of [] \<Rightarrow> -1 | z # _ \<Rightarrow> int z)"
    "vbbm_inv b" "unique_keys (vbbm_abs b)"
  shows "\<exists>c. vb_purge_loop u fuel l bk (prev_of ys) index (b, v) =
       ((c, fst (vss_remove_loop fuel l bk (prev_of ys) index v)), Inr ())
     \<and> purged l {verID (vss_storage v ! z) | z. z \<in> set zs \<and> lbid (vss_storage v ! z) = l \<and> vbFlag (vss_storage v ! z) \<and> u} b c"
  using assms
proof (induction zs arbitrary: v b ys fuel index)
  case Nil
  then show ?case by (cases fuel) (auto simp: purged_def)
next
  case (Cons x zs)
  obtain n where n: "fuel = Suc n" using Cons.prems(4) by (cases fuel) auto
  let ?st = "vss_storage v"
  have x: "x < length ?st" and d: "distinct (ys @ x # zs)"
    using chain_in_range [OF Cons.prems(3), of x] chain_distinct [OF Cons.prems(3)] by simp_all
  have nx: "next_ix (?st ! x) = (case zs of [] \<Rightarrow> -1 | z # _ \<Rightarrow> int z)"
    using chain_suffix [OF Cons.prems(3)] by (cases zs) simp_all
  show ?case
  proof (cases "lbid (?st ! x) = l")
    case True
    define t where "t = vss_uncount x (vss_unlink bk (prev_of ys) x v)"
    have S: "vss_struct v" using Cons.prems(1) by (simp add: vss_wf_def)
    note R = vss_remove_one [OF S Cons.prems(2,3), folded t_def]
    have wf: "vss_wf t"
      using Cons.prems(1) R(1,3,4) by (rule vss_wf_remove) (simp_all add: t_def vss_unlink_fields)
    have same: "row (vss_storage t ! z) = row (?st ! z)" if "z \<in> set zs" for z
      using that chain_in_range [OF Cons.prems(3), of z] d R(5) by auto
    from purged_step [OF Cons.prems(6,7), of "vbFlag (?st ! x) \<and> u" l "verID (?st ! x)"] obtain c where
      c: "(if vbFlag (?st ! x) \<and> u then vbbm_removeEntry l (verID (?st ! x)) b else (b, Inr ())) = (c, Inr ())"
        "vbbm_inv c" "unique_keys (vbbm_abs c)" "purged l (if vbFlag (?st ! x) \<and> u then {verID (?st ! x)} else {}) b c" .
    have p1: "vb_purge_loop u fuel l bk p index (b, v) =
        vb_purge_loop u n l bk p (next_ix (vss_storage (vss_uncount x (vss_unlink bk p x v)) ! x))
          (c, vss_uncount x (vss_unlink bk p x v))" for p
      using True x c(1) by (cases "vbFlag (?st ! x) \<and> u") (auto simp: n Cons.prems(5) Let_def)
    have p2: "vss_remove_loop fuel l bk p index v =
        vss_remove_loop n l bk p (next_ix (vss_storage (vss_uncount x (vss_unlink bk p x v)) ! x))
          (vss_uncount x (vss_unlink bk p x v))" for p
      using True x by (simp add: n Cons.prems(5) Let_def)
    from Cons.IH [OF wf _ R(2) _ nx [folded R(6)] c(2,3), of n] Cons.prems(2,4) n R(8) obtain e where
      e: "vb_purge_loop u n l bk (prev_of ys) (next_ix (vss_storage t ! x)) (c, t) =
        ((e, fst (vss_remove_loop n l bk (prev_of ys) (next_ix (vss_storage t ! x)) t)), Inr ())"
        "purged l {verID (vss_storage t ! z) | z. z \<in> set zs \<and> lbid (vss_storage t ! z) = l \<and> vbFlag (vss_storage t ! z) \<and> u} c e"
      by auto
    have s1: "{verID (vss_storage t ! z) | z. z \<in> set zs \<and> lbid (vss_storage t ! z) = l \<and> vbFlag (vss_storage t ! z) \<and> u} =
      {verID (?st ! z) | z. z \<in> set zs \<and> lbid (?st ! z) = l \<and> vbFlag (?st ! z) \<and> u}"
      by (intro Collect_cong iff_exI) (use same in \<open>auto simp: row_def\<close>)
    have s2: "{verID (?st ! z) | z. z \<in> set (x # zs) \<and> lbid (?st ! z) = l \<and> vbFlag (?st ! z) \<and> u} =
      (if vbFlag (?st ! x) \<and> u then {verID (?st ! x)} else {}) \<union>
      {verID (?st ! z) | z. z \<in> set zs \<and> lbid (?st ! z) = l \<and> vbFlag (?st ! z) \<and> u}"
      using True by auto
    show ?thesis
      unfolding p1 [of "prev_of ys", folded t_def] p2 [of "prev_of ys", folded t_def] e(1) s2
      using purged_trans [OF c(4) e(2)] unfolding s1 by blast
  next
    case False
    have "vb_purge_loop u fuel l bk (prev_of ys) index (b, v) =
        vb_purge_loop u n l bk (prev_of (ys @ [x])) (next_ix (?st ! x)) (b, v)"
      "vss_remove_loop fuel l bk (prev_of ys) index v =
        vss_remove_loop n l bk (prev_of (ys @ [x])) (next_ix (?st ! x)) v"
      using False x by (simp_all add: n Cons.prems(5))
    moreover have "{verID (?st ! z) | z. z \<in> set (x # zs) \<and> lbid (?st ! z) = l \<and> vbFlag (?st ! z) \<and> u} =
      {verID (?st ! z) | z. z \<in> set zs \<and> lbid (?st ! z) = l \<and> vbFlag (?st ! z) \<and> u}" using False by auto
    ultimately show ?thesis
      using Cons.IH [OF Cons.prems(1,2) _ _ nx Cons.prems(6,7), of "ys @ [x]" n] Cons.prems(3,4) n by simp
  qed
qed

lemma vb_purge_block:
  assumes wf: "vss_wf v" and l: "l \<noteq> -1" and b: "vbbm_inv b" "unique_keys (vbbm_abs b)"
  shows "\<exists>c t. vb_purge_loop u (Suc (length (vss_storage v))) l (vss_bucket v l) (-1) (vss_buckets v ! vss_bucket v l) (b, v)
      = ((c, t), Inr ()) \<and> vss_wf t \<and> vss_abs t = filter_mset (\<lambda>r. fst r \<noteq> l) (vss_abs v)
    \<and> purged l {ver. u \<and> (\<exists>lk. (l, ver, True, lk) \<in># vss_abs v)} b c"
proof -
  from wf have S: "vss_struct v" by (simp add: vss_wf_def)
  from S l obtain xs where c: "chain (vss_storage v) (vss_buckets v ! vss_bucket v l) xs"
    and blk: "vss_block v l = row ` {vss_storage v ! i | i. i \<in> set xs \<and> lbid (vss_storage v ! i) = l}"
    by (rule vss_block_chainE)
  have h: "vss_buckets v ! vss_bucket v l = (case xs of [] \<Rightarrow> -1 | z # _ \<Rightarrow> int z)" using c by (cases xs) simp_all
  have len: "length xs < Suc (length (vss_storage v))" using chain_length [OF c] by simp
  from vb_purge_loop_ok [OF wf vss_bucket_lt [OF S], of l "[]" xs, unfolded append_Nil, OF c len h b, of u l]
  obtain d where
    d: "vb_purge_loop u (Suc (length (vss_storage v))) l (vss_bucket v l) (-1) (vss_buckets v ! vss_bucket v l) (b, v) =
       ((d, fst (vss_remove_loop (Suc (length (vss_storage v))) l (vss_bucket v l) (-1) (vss_buckets v ! vss_bucket v l) v)), Inr ())"
      "purged l {verID (vss_storage v ! z) | z. z \<in> set xs \<and> lbid (vss_storage v ! z) = l \<and> vbFlag (vss_storage v ! z) \<and> u} b d"
    unfolding simp_thms if_True by blast
  have "(l, ver, True, lk) \<in># vss_abs v \<longleftrightarrow> (l, ver, True, lk) \<in> vss_block v l" for ver lk
    by (simp add: vss_block_def)
  then have "{ver. u \<and> (\<exists>lk. (l, ver, True, lk) \<in># vss_abs v)} =
      {verID (vss_storage v ! z) | z. z \<in> set xs \<and> lbid (vss_storage v ! z) = l \<and> vbFlag (vss_storage v ! z) \<and> u}"
    unfolding blk by (auto simp: row_def image_iff)
  with d(2) have p: "purged l {ver. u \<and> (\<exists>lk. (l, ver, True, lk) \<in># vss_abs v)} b d" by (simp only:)
  from vss_remove_loop_block [OF wf l] obtain t where
    "vss_remove_loop (Suc (length (vss_storage v))) l (vss_bucket v l) (-1) (vss_buckets v ! vss_bucket v l) v = (t, Inr ())"
    "vss_wf t" "vss_abs t = filter_mset (\<lambda>r. fst r \<noteq> l) (vss_abs v)" by blast
  with p d(1) show ?thesis unfolding fst_conv by (metis fst_conv)
qed

definition purged_all :: "LBID_t set \<Rightarrow> (LBID_t \<times> VER_t) set \<Rightarrow> VBBM \<Rightarrow> VBBM \<Rightarrow> bool" where
  "purged_all L K b t \<longleftrightarrow> vbbm_inv t \<and> vbbm_abs t \<subseteq># vbbm_abs b \<and> vb_files t = vb_files b
     \<and> (\<forall>(l, v) \<in> K. \<forall>x. (l, v, x) \<notin># vbbm_abs t)
     \<and> (\<forall>l v x. l \<notin> L \<longrightarrow> (l, v, x) \<in># vbbm_abs b \<longrightarrow> (l, v, x) \<in># vbbm_abs t)"

lemma purged_all_Cons:
  assumes b: "purged l V b c" and c: "purged_all L K c d"
  shows "purged_all (insert l L) ({l} \<times> V \<union> K) b d"
proof -
  from b have B: "vbbm_abs c \<subseteq># vbbm_abs b" "vb_files c = vb_files b" "\<And>v x. v \<in> V \<Longrightarrow> (l, v, x) \<notin># vbbm_abs c"
    "\<And>l' v' x. l' \<noteq> l \<Longrightarrow> (l', v', x) \<in># vbbm_abs b \<Longrightarrow> (l', v', x) \<in># vbbm_abs c"
    unfolding purged_def by blast+
  from c have C: "vbbm_inv d" "vbbm_abs d \<subseteq># vbbm_abs c" "vb_files d = vb_files c"
    "\<And>l' v x. (l', v) \<in> K \<Longrightarrow> (l', v, x) \<notin># vbbm_abs d"
    "\<And>l' v' x. l' \<notin> L \<Longrightarrow> (l', v', x) \<in># vbbm_abs c \<Longrightarrow> (l', v', x) \<in># vbbm_abs d"
    unfolding purged_all_def by blast+
  show ?thesis unfolding purged_all_def
  proof (intro conjI)
    show "vbbm_abs d \<subseteq># vbbm_abs b" using C(2) B(1) by (rule subset_mset.trans)
    have "(l', v, x) \<notin># vbbm_abs d" if "(l', v) \<in> {l} \<times> V \<union> K" for l' v x
      using that B(3) C(4) mset_subset_eqD [OF C(2)] by blast
    then show "\<forall>(l, v) \<in> {l} \<times> V \<union> K. \<forall>x. (l, v, x) \<notin># vbbm_abs d" by blast
  qed (use B(2,4) C(1,3,5) in simp_all)
qed

lemma vb_purge_ok:
  assumes "vss_wf v" "-1 \<notin> set ls" "vbbm_inv b" "unique_keys (vbbm_abs b)"
  shows "\<exists>c t. vb_purge u ls (b, v) = ((c, t), Inr ()) \<and> vss_wf t
    \<and> vss_abs t = filter_mset (\<lambda>r. fst r \<notin> set ls) (vss_abs v)
    \<and> purged_all (set ls) {(l, ver). l \<in> set ls \<and> u \<and> (\<exists>lk. (l, ver, True, lk) \<in># vss_abs v)} b c"
  using assms
proof (induction ls arbitrary: b v)
  case Nil
  then show ?case by (simp add: purged_all_def)
next
  case (Cons l ls)
  from Cons.prems have l: "l \<noteq> -1" "-1 \<notin> set ls" by auto
  have S: "vss_struct v" using Cons.prems(1) by (simp add: vss_wf_def)
  from vb_purge_block [OF Cons.prems(1) l(1) Cons.prems(3,4), of u] obtain c t where
    c: "vb_purge_loop u (Suc (length (vss_storage v))) l (vss_bucket v l) (-1) (vss_buckets v ! vss_bucket v l) (b, v)
      = ((c, t), Inr ())" "vss_wf t" "vss_abs t = filter_mset (\<lambda>r. fst r \<noteq> l) (vss_abs v)"
    "purged l {ver. u \<and> (\<exists>lk. (l, ver, True, lk) \<in># vss_abs v)} b c" by blast
  from c(4) have ci: "vbbm_inv c" "vbbm_abs c \<subseteq># vbbm_abs b" unfolding purged_def by blast+
  from Cons.IH [OF c(2) l(2) ci(1) unique_keys_mono [OF Cons.prems(4) ci(2)]] obtain d t' where
    d: "vb_purge u ls (c, t) = ((d, t'), Inr ())" "vss_wf t'" "vss_abs t' = filter_mset (\<lambda>r. fst r \<notin> set ls) (vss_abs t)"
      "purged_all (set ls) {(l, ver). l \<in> set ls \<and> u \<and> (\<exists>lk. (l, ver, True, lk) \<in># vss_abs t)} c d" by blast
  have run: "vb_purge u (l # ls) (b, v) = ((d, t'), Inr ())"
    using c(1) d(1) vss_bucket_lt [OF S, of l] by (simp add: Let_def)
  have "vss_abs t' = filter_mset (\<lambda>r. fst r \<notin> set (l # ls)) (vss_abs v)"
    unfolding d(3) c(3) filter_filter_mset by (rule arg_cong [of _ _ "\<lambda>P. filter_mset P _"]) auto
  moreover have "{l} \<times> {ver. u \<and> (\<exists>lk. (l, ver, True, lk) \<in># vss_abs v)} \<union>
      {(l, ver). l \<in> set ls \<and> u \<and> (\<exists>lk. (l, ver, True, lk) \<in># vss_abs t)}
    = {(l', ver). l' \<in> set (l # ls) \<and> u \<and> (\<exists>lk. (l', ver, True, lk) \<in># vss_abs v)}"
    by (auto simp: c(3))
  then have "purged_all (set (l # ls)) {(l', ver). l' \<in> set (l # ls) \<and> u \<and> (\<exists>lk. (l', ver, True, lk) \<in># vss_abs v)} b d"
    using purged_all_Cons [OF c(4) d(4)] by (simp only: list.set)
  ultimately show ?case using run d(2) by blast
qed

text \<open>
  C27. \<^verbatim>\<open>VSS::removeEntriesFromDB\<close> removes every version of the blocks of the range from the VSS. From the VBBM it removes, when \<^verbatim>\<open>use_vbbm\<close> is set, the entries of
  the versions that the VSS has flagged as being in the version buffer; it does not look for other entries of the range in the VBBM. The VBBM gets no
  new entry, the versions of other blocks stay in both tables, and both stay consistent.
\<close>

theorem vb_removeEntriesFromDB_spec:
  assumes "vss_wf v" "vbbm_inv b" "unique_keys (vbbm_abs b)" "0 \<le> range_start r"
  shows "\<exists>c t. vb_removeEntriesFromDB r u (b, v) = ((c, t), Inr ()) \<and> vss_wf t \<and> vbbm_inv c
    \<and> vss_abs t = filter_mset (\<lambda>x. fst x \<notin> set (range_lbids r)) (vss_abs v)
    \<and> vbbm_abs c \<subseteq># vbbm_abs b
    \<and> (\<forall>l ver lk x. u \<and> l \<in> set (range_lbids r) \<and> (l, ver, True, lk) \<in># vss_abs v \<longrightarrow> (l, ver, x) \<notin># vbbm_abs c)
    \<and> (\<forall>l ver x. l \<notin> set (range_lbids r) \<and> (l, ver, x) \<in># vbbm_abs b \<longrightarrow> (l, ver, x) \<in># vbbm_abs c)"
proof -
  let ?v = "vss_makeUndoRecord HeaderAt v"
  have v: "vss_wf ?v" "vss_abs ?v = vss_abs v" using assms(1) by simp_all
  have "-1 \<notin> set (range_lbids r)" using assms(4) by (auto simp: range_lbids_def)
  from vb_purge_ok [OF v(1) this assms(2,3), of u] obtain c t where
    "vb_purge u (range_lbids r) (b, ?v) = ((c, t), Inr ())" "vss_wf t"
    "vss_abs t = filter_mset (\<lambda>x. fst x \<notin> set (range_lbids r)) (vss_abs v)"
    and P: "purged_all (set (range_lbids r)) {(l, ver). l \<in> set (range_lbids r) \<and> u \<and> (\<exists>lk. (l, ver, True, lk) \<in># vss_abs v)} b c"
    unfolding v(2) by blast
  moreover have "(l, ver, x) \<notin># vbbm_abs c" if "u \<and> l \<in> set (range_lbids r) \<and> (l, ver, True, lk) \<in># vss_abs v" for l ver lk x
    using P that unfolding purged_all_def by blast
  moreover have "vbbm_inv c" "vbbm_abs c \<subseteq># vbbm_abs b"
    "\<And>l ver x. l \<notin> set (range_lbids r) \<and> (l, ver, x) \<in># vbbm_abs b \<Longrightarrow> (l, ver, x) \<in># vbbm_abs c"
    using P unfolding purged_all_def by blast+
  ultimately show ?thesis unfolding vb_removeEntriesFromDB_def fst_conv snd_conv by blast
qed

theorem vb_removeEntriesFromDB_spec_witness:
  "\<exists>c t. vb_removeEntriesFromDB \<lparr>range_start = 9, range_size = 2\<rparr> True (vbbm_ex, vss_ex) = ((c, t), Inr ())
     \<and> vss_abs t = {#(20, 7, False, True)#} \<and> (10, 3, 7, 50) \<notin># vbbm_abs c \<and> (20, 2, 7, 150) \<in># vbbm_abs c"
proof -
  let ?r = "\<lparr>range_start = 9, range_size = 2\<rparr> :: LBIDRange"
  have r: "set (range_lbids ?r) = {9, 10}" by (auto simp: range_lbids_def numeral_eq_Suc)
  from vb_removeEntriesFromDB_spec [OF vss_ex_wf vbbm_ex_inv vbbm_ex_keys, of ?r True] obtain c t where
    ct: "vb_removeEntriesFromDB ?r True (vbbm_ex, vss_ex) = ((c, t), Inr ())"
      "vss_abs t = filter_mset (\<lambda>x. fst x \<notin> {9, 10}) (vss_abs vss_ex)"
    and gone: "\<forall>l ver lk x. True \<and> l \<in> {9, 10} \<and> (l, ver, True, lk) \<in># vss_abs vss_ex \<longrightarrow> (l, ver, x) \<notin># vbbm_abs c"
    and kept: "\<forall>l ver x. l \<notin> {9, 10} \<and> (l, ver, x) \<in># vbbm_abs vbbm_ex \<longrightarrow> (l, ver, x) \<in># vbbm_abs c"
    unfolding r by auto
  have "(10, 3, 7, 50) \<notin># vbbm_abs c" using gone [rule_format, of 10 3 False "(7, 50)"] by (simp add: vss_ex_abs)
  moreover have "(20, 2, 7, 150) \<in># vbbm_abs c" using kept [rule_format, of 20 2 "(7, 150)"] by (simp add: vbbm_ex_abs)
  moreover have "vss_abs t = {#(20, 7, False, True)#}" by (simp add: ct(2) vss_ex_abs)
  ultimately show ?thesis using ct(1) by blast
qed

section \<open>Consistency checks\<close>

text \<open>
  The tests on the hash lists that both functions do. \<open>list_of\<close> is the walk that looks for an empty
  element: \<open>None\<close> when it does not end, \<open>Inl ()\<close> when it meets one, otherwise the elements of the list.
  \<open>no_dup\<close> is the pair of nested loops over one list.
\<close>

definition list_of :: "'e table_entry_scheme list \<Rightarrow> int \<Rightarrow> (unit + nat list) option" where
  "list_of st h = chain_walk (Suc (length st)) st
     (\<lambda>i e acc. if lbid e = -1 then Inl () else Inr (acc @ [nat i])) h []"

fun no_dup :: "'e table_entry_scheme list \<Rightarrow> nat list \<Rightarrow> bool" where
  "no_dup st [] = True"
| "no_dup st (j # js) =
     (list_all (\<lambda>k. \<not> (lbid (st ! j) = lbid (st ! k) \<and> verID (st ! j) = verID (st ! k))) js \<and> no_dup st js)"

fun lists_of :: "'e table_entry_scheme list \<Rightarrow> int list \<Rightarrow> brm_error + nat list list" where
  "lists_of st [] = Inr []"
| "lists_of st (h # hs) =
     (case list_of st h of
        None \<Rightarrow> Inl Undefined
      | Some (Inl _) \<Rightarrow> Inl LogicError
      | Some (Inr xs) \<Rightarrow> (case lists_of st hs of Inl err \<Rightarrow> Inl err | Inr xss \<Rightarrow> Inr (xs # xss)))"

text \<open>Every pair of used elements of the storage, \<^verbatim>\<open>for i ... for (j = i + 1; ...)\<close>.\<close>

fun no_shared_place :: "VBBMEntry list \<Rightarrow> bool" where
  "no_shared_place [] = True"
| "no_shared_place (e # es) =
     ((lbid e \<noteq> -1 \<longrightarrow> list_all (\<lambda>f. lbid f \<noteq> -1 \<longrightarrow> \<not> (vbOID f = vbOID e \<and> vbFBO f = vbFBO e)) es)
      \<and> no_shared_place es)"

definition vbbm_checkConsistency :: "VBBM \<Rightarrow> brm_error + int" where
  "vbbm_checkConsistency s =
     (case lists_of (vb_storage s) (take (nat (vbNumHashBuckets (vb_hdr s))) (vb_buckets s)) of
        Inl err \<Rightarrow> Inl err
      | Inr xss \<Rightarrow>
          if \<not> list_all (\<lambda>e. lbid e \<noteq> -1) (take (nat (vbLWM (vb_hdr s))) (vb_storage s)) then Inl LogicError
          else if \<not> list_all (no_dup (vb_storage s)) xss then Inl LogicError
          else if \<not> no_shared_place (take (nat (vbCapacity (vb_hdr s))) (vb_storage s)) then Inl LogicError
          else Inr 0)"

fun vss_in_vbbm :: "VBBM \<Rightarrow> VSSEntry list \<Rightarrow> brm_error + unit" where
  "vss_in_vbbm b [] = Inr ()"
| "vss_in_vbbm b (e # es) =
     (if lbid e \<noteq> -1 \<and> vbFlag e
      then case vbbm_lookup b (lbid e) (verID e) of
             Inl err \<Rightarrow> Inl err
           | Inr (rc, _) \<Rightarrow> if rc \<noteq> 0 then Inl LogicError else vss_in_vbbm b es
      else vss_in_vbbm b es)"

definition vss_checkConsistency :: "version_buffer \<Rightarrow> brm_error + int" where
  "vss_checkConsistency s =
     (let v = snd s in
      case vss_in_vbbm (fst s) (vss_rows v) of
        Inl err \<Rightarrow> Inl err
      | Inr _ \<Rightarrow>
          (case vss_size v of
             Inl err \<Rightarrow> Inl err
           | Inr _ \<Rightarrow>
               (case lists_of (vss_storage v) (take (nat (numHashBuckets (vss_hdr v))) (vss_buckets v)) of
                  Inl err \<Rightarrow> Inl err
                | Inr xss \<Rightarrow>
                    if \<not> list_all (\<lambda>e. lbid e \<noteq> -1) (take (nat (LWM (vss_hdr v))) (vss_storage v)) then Inl LogicError
                    else if \<not> list_all (no_dup (vss_storage v)) xss then Inl LogicError
                    else Inr 0)))"

lemma list_of_chain:
  assumes "chain st h xs" "\<forall>x \<in> set xs. used (st ! x)"
  shows "list_of st h = Some (Inr xs)"
proof -
  have "list_walk (\<lambda>i e acc. if lbid e = -1 then Inl () else Inr (acc @ [nat i])) st xs acc = Inr (acc @ xs)" for acc
    using assms(2) by (induction xs arbitrary: acc) (simp_all add: used_def)
  moreover have "length xs < Suc (length st)" using chain_length [OF assms(1)] by simp
  ultimately show ?thesis unfolding list_of_def chain_walk_list [OF assms(1) \<open>length xs < Suc (length st)\<close>] by simp
qed

lemma list_of_Inr:
  assumes "list_of st h = Some (Inr xs)"
  shows "chain st h xs"
proof -
  have "\<exists>ys. xs = acc @ ys \<and> chain st h ys"
    if "chain_walk n st (\<lambda>i e acc. if lbid e = -1 then Inl () else Inr (acc @ [nat i])) h acc = Some (Inr xs)" for n acc
    using that
  proof (induction n arbitrary: h acc)
    case (Suc n)
    show ?case
    proof (cases "h = -1")
      case False
      with Suc.prems have h: "0 \<le> h" "nat h < length st" and
        "chain_walk n st (\<lambda>i e acc. if lbid e = -1 then Inl () else Inr (acc @ [nat i])) (next_ix (st ! nat h)) (acc @ [nat h]) = Some (Inr xs)"
        by (auto split: if_splits)
      from Suc.IH [OF this(3)] obtain ys where "xs = acc @ nat h # ys" "chain st (next_ix (st ! nat h)) ys" by auto
      with h show ?thesis by (intro exI [of _ "nat h # ys"]) simp
    qed (use Suc.prems in simp)
  qed simp
  with assms show ?thesis unfolding list_of_def by fastforce
qed

lemma lists_of_ok:
  "\<forall>i < length bk. chain st (bk ! i) (f i) \<and> (\<forall>x \<in> set (f i). used (st ! x)) \<Longrightarrow>
     lists_of st bk = Inr (map f [0..<length bk])"
proof (induction bk arbitrary: f)
  case (Cons h bk)
  have "lists_of st bk = Inr (map (\<lambda>i. f (Suc i)) [0..<length bk])" using Cons.prems by (intro Cons.IH) auto
  moreover have "list_of st h = Some (Inr (f 0))" using Cons.prems by (intro list_of_chain) auto
  moreover have "map f [0..<length (h # bk)] = f 0 # map (\<lambda>i. f (Suc i)) [0..<length bk]"
    by (simp add: upt_conv_Cons map_Suc_upt [symmetric] del: upt_Suc)
  ultimately show ?case by simp
qed simp

lemma no_dup_sorted:
  "no_dup st js = sorted_wrt (\<lambda>j k. \<not> (lbid (st ! j) = lbid (st ! k) \<and> verID (st ! j) = verID (st ! k))) js"
  by (induction js) (simp_all add: list_all_iff)

lemma no_shared_sorted:
  "no_shared_place es = sorted_wrt (\<lambda>e f. used e \<longrightarrow> used f \<longrightarrow> \<not> (vbOID f = vbOID e \<and> vbFBO f = vbFBO e)) es"
  by (induction es) (auto simp: list_all_iff used_def)

text \<open>A symmetric property of all pairs in the order of a list is one of all distinct positions.\<close>

lemma sorted_wrt_sym:
  assumes "\<And>x y. P x y \<Longrightarrow> P y x"
  shows "sorted_wrt P xs \<longleftrightarrow> (\<forall>i < length xs. \<forall>j < length xs. i \<noteq> j \<longrightarrow> P (xs ! i) (xs ! j))"
proof
  assume s: "sorted_wrt P xs"
  show "\<forall>i < length xs. \<forall>j < length xs. i \<noteq> j \<longrightarrow> P (xs ! i) (xs ! j)"
  proof (intro allI impI)
    fix i j assume "i < length xs" "j < length xs" "i \<noteq> j"
    with s assms show "P (xs ! i) (xs ! j)" by (cases "i < j") (auto simp: sorted_wrt_iff_nth_less)
  qed
qed (simp add: sorted_wrt_iff_nth_less)

text \<open>The lists of all buckets have no two equal keys exactly when no two used elements have.\<close>

lemma chains_no_dup:
  fixes st :: "'e table_entry_scheme list"
  assumes ok: "chains_ok hash bk st"
    and hash: "\<And>e f :: 'e table_entry_scheme. lbid e = lbid f \<Longrightarrow> verID e = verID f \<Longrightarrow> hash e = hash f"
  shows "\<exists>xss. lists_of st bk = Inr xss \<and> (list_all (no_dup st) xss \<longleftrightarrow>
    (\<forall>i < length st. \<forall>j < length st. i \<noteq> j \<longrightarrow> used (st ! i) \<longrightarrow> used (st ! j) \<longrightarrow>
       \<not> (lbid (st ! i) = lbid (st ! j) \<and> verID (st ! i) = verID (st ! j))))"
proof -
  from ok have "\<forall>b < length bk. \<exists>xs. chain st (bk ! b) xs \<and> set xs = members hash (length bk) st b"
    by (simp add: chains_ok_def)
  then obtain f where f: "\<forall>b < length bk. chain st (bk ! b) (f b) \<and> set (f b) = members hash (length bk) st b" by metis
  have "\<forall>i < length bk. chain st (bk ! i) (f i) \<and> (\<forall>x \<in> set (f i). used (st ! x))"
    using f by (auto simp: members_def)
  then have lists: "lists_of st bk = Inr (map f [0..<length bk])" by (rule lists_of_ok)
  let ?P = "\<lambda>j k. \<not> (lbid (st ! j) = lbid (st ! k) \<and> verID (st ! j) = verID (st ! k))"
  have nd: "no_dup st (f b) \<longleftrightarrow> (\<forall>j \<in> set (f b). \<forall>k \<in> set (f b). j \<noteq> k \<longrightarrow> ?P j k)" if "b < length bk" for b
  proof -
    have d: "distinct (f b)" using f that chain_distinct by blast
    have "no_dup st (f b) \<longleftrightarrow> (\<forall>i < length (f b). \<forall>j < length (f b). i \<noteq> j \<longrightarrow> ?P (f b ! i) (f b ! j))"
      unfolding no_dup_sorted by (rule sorted_wrt_sym) auto
    also have "\<dots> \<longleftrightarrow> (\<forall>j \<in> set (f b). \<forall>k \<in> set (f b). j \<noteq> k \<longrightarrow> ?P j k)"
      using d by (simp only: all_set_conv_all_nth nth_eq_iff_index_eq) (simp add: nth_eq_iff_index_eq)
    finally show ?thesis .
  qed
  have "list_all (no_dup st) (map f [0..<length bk]) \<longleftrightarrow>
      (\<forall>i < length st. \<forall>j < length st. i \<noteq> j \<longrightarrow> used (st ! i) \<longrightarrow> used (st ! j) \<longrightarrow> ?P i j)"
  proof
    assume L: "list_all (no_dup st) (map f [0..<length bk])"
    show "\<forall>i < length st. \<forall>j < length st. i \<noteq> j \<longrightarrow> used (st ! i) \<longrightarrow> used (st ! j) \<longrightarrow> ?P i j"
    proof (intro allI impI notI)
      fix i j
      assume ij: "i < length st" "j < length st" "i \<noteq> j" "used (st ! i)" "used (st ! j)"
        "lbid (st ! i) = lbid (st ! j) \<and> verID (st ! i) = verID (st ! j)"
      let ?b = "hash (st ! i) mod length bk"
      have b: "?b < length bk" using ok by (simp add: chains_ok_def)
      have "i \<in> set (f ?b)" "j \<in> set (f ?b)" using f b ij hash [of "st ! i" "st ! j"] by (auto simp: members_def)
      with nd [OF b] L b ij show False by (auto simp: list_all_iff)
    qed
  next
    assume R: "\<forall>i < length st. \<forall>j < length st. i \<noteq> j \<longrightarrow> used (st ! i) \<longrightarrow> used (st ! j) \<longrightarrow> ?P i j"
    have "no_dup st (f b)" if "b < length bk" for b
      unfolding nd [OF that] using f that R by (auto simp: members_def)
    then show "list_all (no_dup st) (map f [0..<length bk])" by (simp add: list_all_iff)
  qed
  with lists show ?thesis by blast
qed

definition unique_places :: "vbbm_row multiset \<Rightarrow> bool" where
  "unique_places R \<longleftrightarrow> (\<forall>p. size {#r \<in># R. snd (snd r) = p#} \<le> 1)"

lemma unique_iff_index:
  fixes row' :: "'e table_entry_scheme \<Rightarrow> 'r"
  shows "(\<forall>p. size {#r \<in># image_mset row' (filter_mset used (mset st)). key r = p#} \<le> 1) \<longleftrightarrow>
    (\<forall>i < length st. \<forall>j < length st. i \<noteq> j \<longrightarrow> used (st ! i) \<longrightarrow> used (st ! j) \<longrightarrow> key (row' (st ! i)) \<noteq> key (row' (st ! j)))"
proof -
  have sz: "size {#r \<in># image_mset row' (filter_mset used (mset st)). key r = p#} =
      card {i. i < length st \<and> used (st ! i) \<and> key (row' (st ! i)) = p}" for p
  proof -
    have "{#r \<in># image_mset row' (filter_mset used (mset st)). key r = p#} =
        image_mset row' (mset (filter (\<lambda>e. used e \<and> key (row' e) = p) st))"
      by (simp add: filter_mset_image_mset filter_filter_mset conj_commute)
    then have "size {#r \<in># image_mset row' (filter_mset used (mset st)). key r = p#} =
        length (filter (\<lambda>e. used e \<and> key (row' e) = p) st)" by (simp only: size_image_mset size_mset)
    then show ?thesis by (simp only: length_filter_conv_card)
  qed
  show ?thesis unfolding sz
  proof (intro iffI allI impI notI)
    fix i j
    assume le: "\<forall>p. card {i. i < length st \<and> used (st ! i) \<and> key (row' (st ! i)) = p} \<le> 1"
      and ij: "i < length st" "j < length st" "i \<noteq> j" "used (st ! i)" "used (st ! j)" "key (row' (st ! i)) = key (row' (st ! j))"
    have "card {i, j} \<le> card {k. k < length st \<and> used (st ! k) \<and> key (row' (st ! k)) = key (row' (st ! j))}"
      using ij by (intro card_mono) auto
    with le [THEN spec, of "key (row' (st ! j))"] ij(3) show False by simp
  next
    fix p
    assume *: "\<forall>i < length st. \<forall>j < length st. i \<noteq> j \<longrightarrow> used (st ! i) \<longrightarrow> used (st ! j) \<longrightarrow> key (row' (st ! i)) \<noteq> key (row' (st ! j))"
    have "\<forall>a \<in> {i. i < length st \<and> used (st ! i) \<and> key (row' (st ! i)) = p}.
        \<forall>b \<in> {i. i < length st \<and> used (st ! i) \<and> key (row' (st ! i)) = p}. a = b" using * by blast
    then show "card {i. i < length st \<and> used (st ! i) \<and> key (row' (st ! i)) = p} \<le> 1"
      using card_le_Suc0_iff_eq [of "{i. i < length st \<and> used (st ! i) \<and> key (row' (st ! i)) = p}"] by simp
  qed
qed

lemma unique_keys_iff_index:
  "unique_keys (vbbm_abs s) \<longleftrightarrow> (\<forall>i < length (vb_storage s). \<forall>j < length (vb_storage s). i \<noteq> j \<longrightarrow>
     used (vb_storage s ! i) \<longrightarrow> used (vb_storage s ! j) \<longrightarrow>
     \<not> (lbid (vb_storage s ! i) = lbid (vb_storage s ! j) \<and> verID (vb_storage s ! i) = verID (vb_storage s ! j)))"
  using unique_iff_index [where row' = vbrow and key = "\<lambda>r. (fst r, fst (snd r))" and st = "vb_storage s"]
  by (simp add: unique_keys_def vbbm_abs_def vbrow_def)

lemma unique_places_iff_index:
  "unique_places (vbbm_abs s) \<longleftrightarrow> (\<forall>i < length (vb_storage s). \<forall>j < length (vb_storage s). i \<noteq> j \<longrightarrow>
     used (vb_storage s ! i) \<longrightarrow> used (vb_storage s ! j) \<longrightarrow>
     \<not> (vbOID (vb_storage s ! j) = vbOID (vb_storage s ! i) \<and> vbFBO (vb_storage s ! j) = vbFBO (vb_storage s ! i)))"
  using unique_iff_index [where row' = vbrow and key = "\<lambda>r. snd (snd r)" and st = "vb_storage s"]
  unfolding unique_places_def vbbm_abs_def by (simp add: vbrow_def eq_commute)

text \<open>
  C28. On a structurally consistent VBBM, \<^verbatim>\<open>VBBM::checkConsistency\<close> returns \<open>0\<close> when no two entries have the same version of a block or the same place in
  the version buffer, and throws otherwise. The structure asked for lets \<^verbatim>\<open>vbCurrentSize\<close> be larger than the number of entries, as it is after a growth: the
  first test that the comment of the function lists, of the recorded size against the actual one, is compiled in with \<^verbatim>\<open>BRM_DEBUG\<close> only, and such tables pass.
\<close>

theorem vbbm_checkConsistency_spec:
  assumes "vbbm_inv s"
  shows "vbbm_checkConsistency s =
    (if unique_keys (vbbm_abs s) \<and> unique_places (vbbm_abs s) then Inr 0 else Inl LogicError)"
proof -
  note D = vbbm_structD [OF vbbm_invD(1) [OF assms]]
  have all: "take (nat (vbNumHashBuckets (vb_hdr s))) (vb_buckets s) = vb_buckets s"
    "take (nat (vbCapacity (vb_hdr s))) (vb_storage s) = vb_storage s" using D(2,7) by simp_all
  have lwm: "list_all (\<lambda>e. lbid e \<noteq> -1) (take (nat (vbLWM (vb_hdr s))) (vb_storage s))"
    using D(6) unfolding used_def by (auto simp: list_all_length)
  have "no_shared_place (vb_storage s) \<longleftrightarrow> unique_places (vbbm_abs s)"
    unfolding no_shared_sorted unique_places_iff_index by (subst sorted_wrt_sym) auto
  moreover obtain xss where "lists_of (vb_storage s) (vb_buckets s) = Inr xss"
    "list_all (no_dup (vb_storage s)) xss \<longleftrightarrow> unique_keys (vbbm_abs s)"
    using chains_no_dup [OF D(1)] unfolding unique_keys_iff_index by (auto simp: vbbm_hash_def)
  ultimately show ?thesis using lwm by (simp add: vbbm_checkConsistency_def all)
qed

theorem vbbm_checkConsistency_spec_witness: "vbbm_checkConsistency vbbm_ex = Inr 0"
  using vbbm_checkConsistency_spec [OF vbbm_ex_inv] by (simp add: vbbm_ex_abs vbbm_ex_keys [unfolded vbbm_ex_abs] unique_places_def)

lemma vss_checkConsistency_iff:
  assumes "vss_wf v" "vbbm_inv b" "\<forall>(l, ver, vb, lk) \<in># vss_abs v. 0 \<le> l \<and> 0 \<le> ver"
  shows "vss_checkConsistency (b, v) = (if (\<forall>(l, ver, vb, lk) \<in># vss_abs v. vb \<longrightarrow> (\<exists>oid fbo. (l, ver, oid, fbo) \<in># vbbm_abs b))
      \<and> (\<forall>l ver. size {#r \<in># vss_abs v. (fst r, fst (snd r)) = (l, ver)#} \<le> 1) then Inr 0 else Inl LogicError)"
proof -
  have S: "vss_struct v" using assms(1) by (simp add: vss_wf_def)
  note D = vss_structD [OF S]
  have rows: "vss_rows v = vss_storage v" using D(7) by (simp add: vss_rows_def)
  have all: "take (nat (numHashBuckets (vss_hdr v))) (vss_buckets v) = vss_buckets v" using D(2) by simp
  have lwm: "list_all (\<lambda>e. lbid e \<noteq> -1) (take (nat (LWM (vss_hdr v))) (vss_storage v))"
    using D(6) unfolding used_def by (auto simp: list_all_length)
  have nonneg: "0 \<le> lbid e \<and> 0 \<le> verID e" if "e \<in> set (vss_storage v)" "used e" for e
    using that assms(3) by (fastforce simp: mem_vss_abs row_def in_set_conv_nth)
  have look: "(case vbbm_lookup b (lbid e) (verID e) of Inl err \<Rightarrow> Inl err
        | Inr (rc, x) \<Rightarrow> if rc \<noteq> 0 then Inl LogicError else m) =
      (if \<exists>oid fbo. (lbid e, verID e, oid, fbo) \<in># vbbm_abs b then m else Inl LogicError)"
    if "e \<in> set (vss_storage v)" "used e" for e m
    using vbbm_lookup_struct [OF vbbm_invD(1) [OF assms(2)], of "lbid e" "verID e"] nonneg [OF that] by auto
  have in_vbbm: "vss_in_vbbm b es = (if \<forall>e \<in> set es. used e \<longrightarrow> vbFlag e \<longrightarrow>
      (\<exists>oid fbo. (lbid e, verID e, oid, fbo) \<in># vbbm_abs b) then Inr () else Inl LogicError)"
    if "set es \<subseteq> set (vss_storage v)" for es
    using that
  proof (induction es)
    case (Cons e es)
    then show ?case using look [of e "vss_in_vbbm b es"]
      by (cases "used e \<and> vbFlag e") (auto simp: used_def)
  qed simp
  have flag: "(\<forall>e \<in> set (vss_storage v). used e \<longrightarrow> vbFlag e \<longrightarrow> (\<exists>oid fbo. (lbid e, verID e, oid, fbo) \<in># vbbm_abs b))
      \<longleftrightarrow> (\<forall>(l, ver, vb, lk) \<in># vss_abs v. vb \<longrightarrow> (\<exists>oid fbo. (l, ver, oid, fbo) \<in># vbbm_abs b))"
    by (auto simp: vss_abs_def row_def)
  obtain xss where xss: "lists_of (vss_storage v) (vss_buckets v) = Inr xss"
    "list_all (no_dup (vss_storage v)) xss \<longleftrightarrow> (\<forall>l ver. size {#r \<in># vss_abs v. (fst r, fst (snd r)) = (l, ver)#} \<le> 1)"
    using chains_no_dup [OF D(1)]
      unique_iff_index [where row' = row and key = "\<lambda>r. (fst r, fst (snd r))" and st = "vss_storage v"]
    by (auto simp: vss_hash_def vss_abs_def row_def)
  have "vss_size v = Inr (currentSize (vss_hdr v))"
    using assms(1) by (simp add: vss_size_def rows vss_wf_def vss_count_def Let_def used_def [abs_def])
  with xss lwm in_vbbm [OF order_refl] flag show ?thesis
    by (simp add: vss_checkConsistency_def all rows)
qed

text \<open>
  C29. On a consistent VSS and VBBM, \<^verbatim>\<open>VSS::checkConsistency\<close> returns \<open>0\<close> exactly when the VBBM has the place
  of every version that the VSS says is in the version buffer and no version of a block is twice in the
  VSS.
\<close>

theorem vss_checkConsistency_spec:
  assumes "vss_wf v" "vbbm_inv b" "\<forall>(l, ver, vb, lk) \<in># vss_abs v. 0 \<le> l \<and> 0 \<le> ver"
  shows "vss_checkConsistency (b, v) = (if (\<forall>(l, ver, vb, lk) \<in># vss_abs v. vb \<longrightarrow> (\<exists>oid fbo. (l, ver, oid, fbo) \<in># vbbm_abs b))
      \<and> (\<forall>l ver. size {#r \<in># vss_abs v. (fst r, fst (snd r)) = (l, ver)#} \<le> 1) then Inr 0 else Inl LogicError)"
  by (rule vss_checkConsistency_iff [OF assms])

theorem vss_checkConsistency_spec_witness: "vss_checkConsistency (vbbm_ex, vss_ex) = Inr 0"
proof -
  have "\<forall>(l, ver, vb, lk) \<in># vss_abs vss_ex. 0 \<le> l \<and> 0 \<le> ver" by (simp add: vss_ex_abs)
  from vss_checkConsistency_spec [OF vss_ex_wf vbbm_ex_inv this] show ?thesis
    unfolding vss_ex_abs vbbm_ex_abs by auto
qed

end
