(* ===== verification/VB_Persist.thy ===== *)
theory VB_Persist
  imports VB_Purge
begin

text \<open>
  \<^verbatim>\<open>VBBM::clear\<close>, \<^verbatim>\<open>VBBM::save\<close> and \<^verbatim>\<open>VBBM::load\<close>, and the keys the two tables choose for new segments.
\<close>

section \<open>Segment keys\<close>

lemma vbbm_chooseShmkey_new: "vbbm_chooseShmkey s \<noteq> vb_key s"
  by (auto simp: vbbm_chooseShmkey_def KEYRANGE_VBBM_BASE_def VBBM_KEYRANGE_SIZE_def)

text \<open>
  The keys of the segments stay in the range of their table: \<^verbatim>\<open>VBBM::chooseShmkey\<close> and
  \<^verbatim>\<open>VSS::chooseShmkey\<close> return a key other than the current one, inside their own range whatever the
  current key below the end of the range is, so the two tables never share a segment.
\<close>

theorem chooseShmkey_bounds:
  assumes "0 \<le> vb_key s" "vb_key s < KEYRANGE_VBBM_BASE + VBBM_KEYRANGE_SIZE - 1"
    and "0 \<le> vss_key v" "vss_key v < KEYRANGE_VSS_BASE + KEYRANGE_SIZE - 1"
  shows "KEYRANGE_VBBM_BASE < vbbm_chooseShmkey s \<and> vbbm_chooseShmkey s < KEYRANGE_VBBM_BASE + VBBM_KEYRANGE_SIZE - 1
    \<and> vbbm_chooseShmkey s \<noteq> vb_key s
    \<and> KEYRANGE_VSS_BASE < vss_chooseShmkey v \<and> vss_chooseShmkey v < KEYRANGE_VSS_BASE + KEYRANGE_SIZE - 1
    \<and> vss_chooseShmkey v \<noteq> vss_key v \<and> vbbm_chooseShmkey s \<noteq> vss_chooseShmkey v"
  using assms
  by (auto simp: vbbm_chooseShmkey_def vss_chooseShmkey_def KEYRANGE_VBBM_BASE_def VBBM_KEYRANGE_SIZE_def
      KEYRANGE_VSS_BASE_def KEYRANGE_SIZE_def)

theorem chooseShmkey_bounds_witness:
  "vbbm_chooseShmkey vbbm_ex = 0x40002 \<and> vss_chooseShmkey vss_ex \<noteq> vbbm_chooseShmkey vbbm_ex"
  using chooseShmkey_bounds [of vbbm_ex vss_ex]
  by (auto simp: vbbm_ex_def vss_ex_def vbbm_chooseShmkey_def KEYRANGE_VBBM_BASE_def VBBM_KEYRANGE_SIZE_def
      KEYRANGE_VSS_BASE_def KEYRANGE_SIZE_def)

section \<open>Clear\<close>

lemma vbbm_initShmseg_ok:
  assumes "0 \<le> n" "1 \<le> fs"
  shows "vbbm_initShmseg (Some fs) n s = (s\<lparr>currentFileSize := nat fs,
      vb_hdr := \<lparr>nFiles = n, vbCapacity = VBSTORAGE_INITIAL_COUNT, vbCurrentSize = 0, vbLWM = 0,
        vbNumHashBuckets = VBTABLE_INITIAL_COUNT\<rparr>,
      vb_files := replicate (nat n) empty_vbfile,
      vb_buckets := replicate (nat VBTABLE_INITIAL_COUNT) (-1),
      vb_storage := replicate (nat VBSTORAGE_INITIAL_COUNT) empty_vbbm_entry\<rparr>, Inr ())"
  using assms by (simp add: vbbm_initShmseg_def vbbm_setCurrentFileSize_def Let_def)

lemma vbbm_clear_ok:
  assumes att: "vb_attached s" and n: "0 \<le> nFiles (vb_hdr s)" "nat (nFiles (vb_hdr s)) \<le> length (vb_files s)"
    and fs: "1 \<le> fs"
  shows "\<exists>t. vbbm_clear (Some fs) s = (t, Inr ()) \<and> vbbm_inv t \<and> vbbm_abs t = {#}
    \<and> nFiles (vb_hdr t) = nFiles (vb_hdr s)
    \<and> vb_files t = map (\<lambda>x. x\<lparr>fileSize := nat fs, nextOffset := 0\<rparr>) (take (nat (nFiles (vb_hdr s))) (vb_files s))"
proof -
  let ?n = "nFiles (vb_hdr s)"
  define f where "f = map (\<lambda>x. x\<lparr>fileSize := nat fs, nextOffset := 0\<rparr>) (take (nat ?n) (vb_files s))"
  define t where "t = s\<lparr>currentFileSize := nat fs,
      vb_hdr := \<lparr>nFiles = ?n, vbCapacity = VBSTORAGE_INITIAL_COUNT, vbCurrentSize = 0, vbLWM = 0,
        vbNumHashBuckets = VBTABLE_INITIAL_COUNT\<rparr>,
      vb_files := f, vb_buckets := replicate (nat VBTABLE_INITIAL_COUNT) (-1),
      vb_storage := replicate (nat VBSTORAGE_INITIAL_COUNT) empty_vbbm_entry,
      vb_key := vbbm_chooseShmkey s, vb_alloc := vbbm_initial_alloc ?n\<rparr>"
  have key: "vbbm_chooseShmkey (s\<lparr>currentFileSize := x\<rparr>) = vbbm_chooseShmkey s" for x
    by (simp add: vbbm_chooseShmkey_def)
  have "vbbm_clear (Some fs) s = (t, Inr ())"
    using fs vbbm_chooseShmkey_new [of s]
    by (simp add: vbbm_clear_def vbbm_setCurrentFileSize_def Let_def key vbbm_initShmseg_ok [OF n(1) fs] t_def f_def)
  moreover have S: "vbbm_struct t" "vbbm_abs t = {#}"
    by (rule vbbm_struct_fresh; simp add: t_def VB_sizes)+
  moreover have "vbbm_inv t"
    using S att n by (simp add: vbbm_inv_def size_vbbm_abs [symmetric] t_def f_def vbbm_initial_alloc_def VB_sizes)
  ultimately show ?thesis by (intro exI [of _ t]) (simp add: t_def f_def)
qed

lemma vbbm_addFiles_ok:
  assumes "vbbm_inv s" "nFiles (vb_hdr s) \<le> n" "n - nFiles (vb_hdr s) \<le> int k"
  shows "\<exists>t. vbbm_addFiles k cfg n s = (t, Inr ()) \<and> vbbm_inv t \<and> nFiles (vb_hdr t) = n"
  using assms
proof (induction k arbitrary: s)
  case (Suc k)
  show ?case
  proof (cases "nFiles (vb_hdr s) < n")
    case True
    from vbbm_growVBBM_ok [OF Suc.prems(1), of cfg True] obtain u m where
      u: "vbbm_growVBBM cfg True s = (u, Inr ())" "vbbm_inv u"
        "vb_hdr u = (vb_hdr s)\<lparr>nFiles := nFiles (vb_hdr s) + of_bool True,
            vbCapacity := vbCapacity (vb_hdr s) + (if True then 0 else VBSTORAGE_INCREMENT_COUNT),
            vbNumHashBuckets := vbNumHashBuckets (vb_hdr s) + (if True then 0 else VBTABLE_INCREMENT_COUNT),
            vbLWM := m\<rparr>" by blast
    from u(3) have "nFiles (vb_hdr u) = nFiles (vb_hdr s) + 1" by simp
    with Suc.IH [OF u(2)] Suc.prems True u(1) show ?thesis by simp
  qed (use Suc.prems in simp)
qed simp

section \<open>Save and load\<close>

lemma vbbm_growForLoad_ok:
  assumes "vbbm_inv s"
  shows "vbbm_inv (vbbm_growForLoad n s)" "vbbm_abs (vbbm_growForLoad n s) = {#}"
    "nFiles (vb_hdr (vbbm_growForLoad n s)) = nFiles (vb_hdr s)" "vb_undo (vbbm_growForLoad n s) = []"
    "vbCurrentSize (vb_hdr (vbbm_growForLoad n s)) = 0"
proof -
  define t where "t = vbbm_growForLoad n s"
  define m where "m = (if n < 100000 then 100000 else n)"
  define k where "k = (if m mod 10000 \<noteq> 0 then (m div 10000 + 1) * 10000 else m)"
  have k: "100000 \<le> k" using pos_mod_bound [of 10000 m] unfolding k_def m_def
    by (auto simp: algebra_simps minus_mod_eq_mult_div [symmetric])
  note I = vbbm_invD [OF assms]
  have t: "vb_hdr t = \<lparr>nFiles = nFiles (vb_hdr s), vbCapacity = k, vbCurrentSize = 0, vbLWM = 0, vbNumHashBuckets = k div 4\<rparr>"
    "vb_buckets t = replicate (nat (k div 4)) (-1)" "vb_storage t = replicate (nat k) empty_vbbm_entry"
    "vb_attached t" "vb_alloc t = VBBM_SIZE (nFiles (vb_hdr s)) k" "vb_undo t = []" "vb_files t = vb_files s"
    unfolding t_def vbbm_growForLoad_def VB_sizes Let_def m_def [symmetric] k_def [symmetric]
    using I(2,6) by simp_all
  have kd: "25000 \<le> k div 4" using k by simp
  have S: "vbbm_struct t" "vbbm_abs t = {#}" by (rule vbbm_struct_fresh; use t k kd in simp)+
  moreover have "0 < VBBM_SIZE (nFiles (vb_hdr s)) k" using k kd I(6) by (simp add: VBBM_SIZE_def)
  ultimately show "vbbm_inv (vbbm_growForLoad n s)" "vbbm_abs (vbbm_growForLoad n s) = {#}"
    "nFiles (vb_hdr (vbbm_growForLoad n s)) = nFiles (vb_hdr s)" "vb_undo (vbbm_growForLoad n s) = []"
    "vbCurrentSize (vb_hdr (vbbm_growForLoad n s)) = 0"
    using t I(6) k unfolding t_def [symmetric] by (simp_all add: vbbm_inv_def size_vbbm_abs [symmetric])
qed

lemma vbbm_load_loop_ok:
  "vbbm_inv s \<Longrightarrow> \<forall>e \<in> set es. used e \<Longrightarrow> vb_undo s = [] \<Longrightarrow>
   \<exists>t. vbbm_load_loop cfg es s = (t, Inr ()) \<and> vbbm_inv t \<and> vbbm_abs t = vbbm_abs s + image_mset vbrow (mset es)
     \<and> vb_undo t = [] \<and> vb_files t = vb_files s
     \<and> vbCurrentSize (vb_hdr t) = vbCurrentSize (vb_hdr s) + int (length es)"
proof (induction es arbitrary: s)
  case (Cons e es)
  from Cons.prems have "lbid e \<noteq> -1" by (simp add: used_def)
  from vbbm_insert_ok [OF Cons.prems(1) this, of cfg "verID e" "vbOID e" "vbFBO e" True] Cons.prems(3) obtain u where
    u: "vbbm_insert cfg (lbid e) (verID e) (vbOID e) (vbFBO e) True s = (u, Inr ())" "vbbm_inv u"
      "vbbm_abs u = add_mset (vbrow e) (vbbm_abs s)" "vb_undo u = []" "vb_files u = vb_files s"
      "vbCurrentSize (vb_hdr u) = vbCurrentSize (vb_hdr s) + 1"
    by (auto simp: vbrow_def)
  from Cons.IH [OF u(2) _ u(4)] Cons.prems(2) obtain t where
    t: "vbbm_load_loop cfg es u = (t, Inr ())" "vbbm_inv t" "vbbm_abs t = vbbm_abs u + image_mset vbrow (mset es)"
     "vb_undo t = []" "vb_files t = vb_files u" "vbCurrentSize (vb_hdr t) = vbCurrentSize (vb_hdr u) + int (length es)" by auto
  show ?case by (intro exI [of _ t]) (simp add: t u)
qed simp

lemma vbbm_save_entries:
  assumes "vbbm_inv s"
  shows "vbbm_file_entries (vbbm_save s) = filter used (vb_storage s)" "vbbm_file_files (vbbm_save s) = vb_files s"
    "vbbm_files_count (vbbm_save s) = int (length (vb_files s))" "vbbm_entries_count (vbbm_save s) = vbCurrentSize (vb_hdr s)"
    "vbbm_magic (vbbm_save s) = VBBM_MAGIC_V2"
proof -
  note D = vbbm_structD(7) [OF vbbm_invD(1) [OF assms]] vbbm_invD(6) [OF assms]
  from D(2) have "nat (nFiles (vb_hdr s)) = length (vb_files s)" by simp
  with D show "vbbm_file_entries (vbbm_save s) = filter used (vb_storage s)" "vbbm_file_files (vbbm_save s) = vb_files s"
    "vbbm_files_count (vbbm_save s) = int (length (vb_files s))" "vbbm_entries_count (vbbm_save s) = vbCurrentSize (vb_hdr s)"
    "vbbm_magic (vbbm_save s) = VBBM_MAGIC_V2"
    by (simp_all add: vbbm_save_def save_runs_filter)
qed

text \<open>Up to the read of the entries.\<close>

lemma vbbm_load_prepared:
  assumes s: "vbbm_inv s" and s': "vbbm_inv s'" and fs: "1 \<le> fs"
  shows "\<exists>u. vbbm_load (Some fs) (vbbm_save s) s' =
      (if vbbm_count s < nat (vbCurrentSize (vb_hdr s)) then (u, Inl RuntimeError)
       else vbbm_load_loop (Some fs) (take (nat (vbCurrentSize (vb_hdr s))) (filter used (vb_storage s))) u)
    \<and> vbbm_inv u \<and> vbbm_abs u = {#} \<and> vb_files u = vb_files s \<and> vb_undo u = [] \<and> vbCurrentSize (vb_hdr u) = 0"
proof -
  note E = vbbm_save_entries [OF s]
  let ?n = "int (length (vb_files s))"
  define s1 where "s1 = (if nFiles (vb_hdr s') > ?n then s'\<lparr>vb_hdr := (vb_hdr s')\<lparr>nFiles := ?n\<rparr>\<rparr> else s')"
  have s1: "vb_attached s1" "0 \<le> nFiles (vb_hdr s1)" "nat (nFiles (vb_hdr s1)) \<le> length (vb_files s1)" "nFiles (vb_hdr s1) \<le> ?n"
    using vbbm_invD(2,6) [OF s'] by (auto simp: s1_def)
  from vbbm_clear_ok [OF s1(1-3) fs] obtain c where
    c: "vbbm_clear (Some fs) s1 = (c, Inr ())" "vbbm_inv c" "nFiles (vb_hdr c) = nFiles (vb_hdr s1)" by blast
  have "?n - nFiles (vb_hdr c) \<le> int (nat ?n)" "nFiles (vb_hdr c) \<le> ?n" using c(3) s1(2,4) by simp_all
  from vbbm_addFiles_ok [OF c(2) this(2,1)] obtain d where
    d: "vbbm_addFiles (nat ?n) (Some fs) ?n c = (d, Inr ())" "vbbm_inv d" "nFiles (vb_hdr d) = ?n" by blast
  define g where "g = vbbm_growForLoad (vbCurrentSize (vb_hdr s)) d"
  note G = vbbm_growForLoad_ok [OF d(2), of "vbCurrentSize (vb_hdr s)", folded g_def]
  define u where "u = g\<lparr>vb_files := vb_files s\<rparr>"
  have "vbbm_inv u" "vbbm_abs u = {#}"
    using G d(3) by (simp_all add: u_def vbbm_inv_def vbbm_struct_def vbbm_count_def vbbm_abs_def)
  moreover have "0 \<le> vbCurrentSize (vb_hdr s)" using vbbm_invD(7) [OF s] .
  then have "vbbm_load (Some fs) (vbbm_save s) s' =
      (if vbbm_count s < nat (vbCurrentSize (vb_hdr s)) then (u, Inl RuntimeError)
       else vbbm_load_loop (Some fs) (take (nat (vbCurrentSize (vb_hdr s))) (filter used (vb_storage s))) u)"
    unfolding vbbm_load_def E Let_def s1_def [symmetric] c(1) and_then_simps d(1) g_def [symmetric]
    by (simp add: u_def vbbm_count_def)
  ultimately show ?thesis using G(4,5) by (intro exI [of _ u]) (simp add: u_def)
qed

text \<open>
  C30. What \<^verbatim>\<open>VBBM::save\<close> writes loads into any VBBM: the entries and the files are those of the saved table,
  provided that \<^verbatim>\<open>vbCurrentSize\<close> counts the entries; when it counts more, as it does after a growth that has
  dropped entries, \<^verbatim>\<open>VBBM::load\<close> throws because the file is too short.
\<close>

theorem vbbm_load_save:
  assumes "vbbm_inv s" "vbbm_inv s'" "1 \<le> fs"
  shows "if int (vbbm_count s) = vbCurrentSize (vb_hdr s)
    then \<exists>t. vbbm_load (Some fs) (vbbm_save s) s' = (t, Inr ()) \<and> vbbm_inv t \<and> vbbm_abs t = vbbm_abs s
        \<and> vb_files t = vb_files s \<and> int (vbbm_count t) = vbCurrentSize (vb_hdr t)
    else snd (vbbm_load (Some fs) (vbbm_save s) s') = Inl RuntimeError"
proof -
  from vbbm_load_prepared [OF assms] obtain u where
    u: "vbbm_load (Some fs) (vbbm_save s) s' =
      (if vbbm_count s < nat (vbCurrentSize (vb_hdr s)) then (u, Inl RuntimeError)
       else vbbm_load_loop (Some fs) (take (nat (vbCurrentSize (vb_hdr s))) (filter used (vb_storage s))) u)"
      "vbbm_inv u" "vbbm_abs u = {#}" "vb_files u = vb_files s" "vb_undo u = []" "vbCurrentSize (vb_hdr u) = 0" by blast
  show ?thesis
  proof (cases "int (vbbm_count s) = vbCurrentSize (vb_hdr s)")
    case True
    then have n: "nat (vbCurrentSize (vb_hdr s)) = length (filter used (vb_storage s))" by (simp add: vbbm_count_def)
    from vbbm_load_loop_ok [OF u(2) _ u(5), of "filter used (vb_storage s)" "Some fs"] obtain t where
      t: "vbbm_load_loop (Some fs) (filter used (vb_storage s)) u = (t, Inr ())" "vbbm_inv t"
        "vbbm_abs t = vbbm_abs u + image_mset vbrow (mset (filter used (vb_storage s)))" "vb_files t = vb_files u"
        "vbCurrentSize (vb_hdr t) = vbCurrentSize (vb_hdr u) + int (length (filter used (vb_storage s)))" by auto
    have a: "vbbm_abs t = vbbm_abs s" unfolding t(3) u(3) by (simp add: vbbm_abs_def)
    then have "vbbm_count t = vbbm_count s" by (metis size_vbbm_abs)
    with True t a u(4,6) show ?thesis by (simp add: u(1) n vbbm_count_def)
  next
    case False
    with vbbm_invD(4) [OF assms(1)] show ?thesis by (simp add: u(1))
  qed
qed

theorem vbbm_load_save_witness:
  "\<exists>t. vbbm_load (Some 2457600) (vbbm_save vbbm_ex) vbbm_small = (t, Inr ()) \<and> vbbm_abs t = vbbm_abs vbbm_ex"
proof -
  have "int (vbbm_count vbbm_ex) = vbCurrentSize (vb_hdr vbbm_ex)"
    by (simp add: size_vbbm_abs [symmetric] vbbm_ex_abs) (simp add: vbbm_ex_def)
  with vbbm_load_save [OF vbbm_ex_inv vbbm_small_facts(1), of 2457600] show ?thesis by auto
qed

end
