(* ===== verification/VBBM_Undo.thy ===== *)
theory VBBM_Undo
  imports VBBM_Ops
begin

text \<open>
  Atomicity of the VBBM writes: \<^verbatim>\<open>insert\<close> without growth and \<^verbatim>\<open>removeEntry\<close> are wiped out by
  \<^verbatim>\<open>undoChanges\<close>, bit for bit.
\<close>

definition vbbm_undo_ok :: "VBBM \<Rightarrow> VBBM \<Rightarrow> bool" where
  "vbbm_undo_ok s0 s \<longleftrightarrow> (foldr vbbm_wr (map snd (vb_undo s)) s)\<lparr>vb_undo := []\<rparr> = s0 \<and> (\<forall>r \<in> set (vb_undo s). fst r = vb_key s)"

definition vbbm_logged :: "VBBM \<Rightarrow> vbbm_addr set" where
  "vbbm_logged s = vbbm_addr_of ` snd ` set (vb_undo s)"

lemma vbbm_undo_ok_undoChanges: "vbbm_undo_ok s0 s \<Longrightarrow> vbbm_undoChanges s = (s0, Inr ())"
  by (simp add: vbbm_undo_ok_def vbbm_undoChanges_def)

lemma vbbm_undo_ok_start: "vb_undo s = [] \<Longrightarrow> vbbm_undo_ok s s"
  by (simp add: vbbm_undo_ok_def)

lemma vbbm_wr_frame [simp]:
  "vb_undo (vbbm_wr c s) = vb_undo s" "vb_key (vbbm_wr c s) = vb_key s"
  "vbbm_wr c (s\<lparr>vb_undo := u\<rparr>) = (vbbm_wr c s)\<lparr>vb_undo := u\<rparr>"
  by (cases c; simp)+

lemma foldr_vbbm_wr_undo [simp]:
  "foldr vbbm_wr cs (s\<lparr>vb_undo := u\<rparr>) = (foldr vbbm_wr cs s)\<lparr>vb_undo := u\<rparr>"
  by (induction cs) simp_all

lemma vbbm_logged_simps [simp]:
  "vbbm_logged (vbbm_makeUndoRecord a s) = insert a (vbbm_logged s)"
  "vbbm_logged (vbbm_wr c s) = vbbm_logged s"
  by (auto simp: vbbm_logged_def vbbm_makeUndoRecord_def vbbm_mem.addr_of_rd)

lemma vbbm_undo_ok_record: "vbbm_undo_ok s0 s \<Longrightarrow> vbbm_undo_ok s0 (vbbm_makeUndoRecord a s)"
  using vbbm_mem.undo_record [of "map snd (vb_undo s)" s a]
  by (simp add: vbbm_undo_ok_def vbbm_makeUndoRecord_def)

lemma vbbm_undo_ok_write:
  assumes "vbbm_undo_ok s0 s" "vbbm_addr_of c \<in> vbbm_logged s"
  shows "vbbm_undo_ok s0 (vbbm_wr c s)"
proof -
  from assms(2) have "vbbm_addr_of c \<in> vbbm_addr_of ` set (map snd (vb_undo s))"
    by (simp add: vbbm_logged_def)
  from vbbm_mem.undo_write [OF this, of s] assms(1) show ?thesis by (simp add: vbbm_undo_ok_def)
qed

lemma vbbm_undo_ok_log_write:
  "vbbm_undo_ok s0 s \<Longrightarrow> vbbm_undo_ok s0 (vbbm_wr c (vbbm_makeUndoRecord (vbbm_addr_of c) s))"
  by (intro vbbm_undo_ok_write vbbm_undo_ok_record) (simp_all only: vbbm_logged_simps insert_iff simp_thms)

lemma vbbm_undo_ok_removeEntry:
  assumes "vbbm_undo_ok s0 s"
  shows "vbbm_undo_ok s0 (fst (vbbm_removeEntry l v s))"
proof (cases "vbbm_getIndex s l v")
  case None
  with assms show ?thesis by (simp add: vbbm_removeEntry_def)
next
  case (Some r)
  obtain i p b where r: "r = (i, p, b)" by (cases r)
  let ?c1 = "VBStorageCell (nat i) ((vb_storage s ! nat i)\<lparr>lbid := -1\<rparr>)"
  define s1 where "s1 = vbbm_wr ?c1 (vbbm_makeUndoRecord (VBStorageAt (nat i)) s)"
  define c2 where "c2 = (if p \<noteq> -1 then VBStorageCell (nat p) ((vb_storage s1 ! nat p)\<lparr>next_ix := next_ix (vb_storage s1 ! nat i)\<rparr>)
    else VBBucketCell b (next_ix (vb_storage s1 ! nat i)))"
  define s2 where "s2 = vbbm_wr c2 (vbbm_makeUndoRecord (vbbm_addr_of c2) s1)"
  define h where "h = (let h = (vb_hdr s2)\<lparr>vbCurrentSize := vbCurrentSize (vb_hdr s2) - 1\<rparr> in if vbLWM h > i then h\<lparr>vbLWM := i\<rparr> else h)"
  have 1: "vbbm_undo_ok s0 s1" unfolding s1_def
    using vbbm_undo_ok_log_write [OF assms, of ?c1] by (simp only: vbbm_addr_of.simps)
  then have "vbbm_undo_ok s0 s2" unfolding s2_def by (rule vbbm_undo_ok_log_write)
  from vbbm_undo_ok_log_write [OF this, of "VBHeaderCell h"]
  have 3: "vbbm_undo_ok s0 (vbbm_wr (VBHeaderCell h) (vbbm_makeUndoRecord VBHeaderAt s2))" by (simp only: vbbm_addr_of.simps)
  have "fst (vbbm_removeEntry l v s) = (if i = -1 then s else vbbm_wr (VBHeaderCell h) (vbbm_makeUndoRecord VBHeaderAt s2))"
    by (simp add: vbbm_removeEntry_def Some r Let_def s2_def s1_def c2_def h_def)
  with 3 assms show ?thesis by simp
qed

lemma vbbm_undo_ok_insert:
  assumes "vbbm_undo_ok s0 s" "vbCurrentSize (vb_hdr s) \<noteq> vbCapacity (vb_hdr s)"
  shows "vbbm_undo_ok s0 (fst (vbbm_insert cfg l v oid fbo False s))"
proof (cases "find_empty (vb_storage s) (nat (vbLWM (vb_hdr s)))")
  case None
  with assms show ?thesis by (simp add: vbbm_insert_def vbbm_insert_entry_def Let_def)
next
  case (Some i)
  define b where "b = vbbm_bucket s l v"
  define s2 where "s2 = vbbm_makeUndoRecord (VBBucketAt b) (vbbm_makeUndoRecord (VBStorageAt i) (vbbm_makeUndoRecord VBHeaderAt s))"
  define e where "e = \<lparr>lbid = l, verID = v, next_ix = vb_buckets s ! b, vbOID = oid, vbFBO = fbo\<rparr>"
  define s3 where "s3 = vbbm_wr (VBBucketCell b (int i)) (vbbm_wr (VBStorageCell i e) (vbbm_wr (VBHeaderCell ((vb_hdr s)\<lparr>vbLWM := int i\<rparr>)) s2))"
  have "vbbm_undo_ok s0 s2" unfolding s2_def by (intro vbbm_undo_ok_record assms)
  then have 3: "vbbm_undo_ok s0 s3" unfolding s3_def
    by (intro vbbm_undo_ok_write) (simp_all only: vbbm_addr_of.simps vbbm_logged_simps s2_def insert_iff simp_thms)
  have ins: "vbbm_insert_entry \<lparr>lbid = l, verID = v, next_ix = -1, vbOID = oid, vbFBO = fbo\<rparr> False s = (s3, Inr ())"
    by (simp add: vbbm_insert_entry_def Some s3_def s2_def e_def b_def Let_def)
  let ?c = "VBCurrentSizeCell (vbCurrentSize (vb_hdr s3) + 1)"
  have "fst (vbbm_insert cfg l v oid fbo False s) = vbbm_wr ?c (vbbm_makeUndoRecord VBCurrentSizeAt s3)"
    using assms(2) by (simp add: vbbm_insert_def ins Let_def)
  with vbbm_undo_ok_log_write [OF 3, of ?c] show ?thesis by (simp only: vbbm_addr_of.simps)
qed

end
