(* ===== verification/Range_Locks.thy ===== *)
theory Range_Locks
  imports VSS
begin

text \<open>
  The part of \<^verbatim>\<open>SlaveDBRMNode::beginVBCopy\<close> and \<^verbatim>\<open>SlaveDBRMNode::dmlLockLBIDRanges\<close> (\<^verbatim>\<open>versioning/BRM/slavedbrmnode.cpp\<close>) that
  locks a list of ranges, over an interface for the table of locks: the locale \<open>range_locks\<close> says what the
  two functions rely on. Between two passes the code sleeps without the inter-process locks; what others
  do to the table in the \<open>k\<close>-th sleep before the last is the parameter \<open>env k\<close>.
\<close>

section \<open>Locking a list of ranges\<close>

text \<open>The ranges with their \<^verbatim>\<open>lockedRanges\<close> flags, which the handlers of the exceptions look at.\<close>

type_synonym flagged = "(LBIDRange \<times> bool) list"

text \<open>One pass over the ranges: the result is \<^verbatim>\<open>allLocked\<close>.\<close>

fun lock_pass :: "(LBIDRange \<Rightarrow> 's \<Rightarrow> bool) \<Rightarrow> (LBIDRange \<Rightarrow> 's \<Rightarrow> ('s, unit) outcome) \<Rightarrow> flagged \<Rightarrow> 's \<Rightarrow>
    ('s \<times> flagged, bool) outcome" where
  "lock_pass isLocked lockRange [] s = ((s, []), Inr True)"
| "lock_pass isLocked lockRange ((r, done) # fl) s =
     (if done \<or> isLocked r s
      then case lock_pass isLocked lockRange fl s of
             ((s, fl), Inl err) \<Rightarrow> ((s, (r, done) # fl), Inl err)
           | ((s, fl), Inr allLocked) \<Rightarrow> ((s, (r, done) # fl), Inr (done \<and> allLocked))
      else case lockRange r s of
             (s, Inl err) \<Rightarrow> ((s, (r, False) # fl), Inl err)
           | (s, Inr _) \<Rightarrow>
               (case lock_pass isLocked lockRange fl s of
                  ((s, fl), res) \<Rightarrow> ((s, (r, True) # fl), res)))"

text \<open>The retries: the result is \<^verbatim>\<open>retries >= maxRetries\<close>.\<close>

fun lock_loop :: "(LBIDRange \<Rightarrow> 's \<Rightarrow> bool) \<Rightarrow> (LBIDRange \<Rightarrow> 's \<Rightarrow> ('s, unit) outcome) \<Rightarrow> (nat \<Rightarrow> 's \<Rightarrow> 's) \<Rightarrow> nat \<Rightarrow> flagged \<Rightarrow> 's \<Rightarrow>
    ('s \<times> flagged, bool) outcome" where
  "lock_loop isLocked lockRange env 0 fl s = ((s, fl), Inr True)"
| "lock_loop isLocked lockRange env (Suc k) fl s =
     and_then (lock_pass isLocked lockRange fl s)
       (\<lambda>allLocked (s, fl). if allLocked then ((s, fl), Inr False) else lock_loop isLocked lockRange env k fl (env k s))"

text \<open>After the last retry the ranges that are still missing are taken by force.\<close>

fun lock_force :: "(LBIDRange \<Rightarrow> 's \<Rightarrow> 's) \<Rightarrow> (LBIDRange \<Rightarrow> 's \<Rightarrow> ('s, unit) outcome) \<Rightarrow> flagged \<Rightarrow> 's \<Rightarrow>
    ('s \<times> flagged, unit) outcome" where
  "lock_force forceRelease lockRange [] s = ((s, []), Inr ())"
| "lock_force forceRelease lockRange ((r, done) # fl) s =
     (if done
      then case lock_force forceRelease lockRange fl s of ((s, fl), res) \<Rightarrow> ((s, (r, True) # fl), res)
      else case lockRange r (forceRelease r s) of
             (s, Inl err) \<Rightarrow> ((s, (r, False) # fl), Inl err)
           | (s, Inr _) \<Rightarrow>
               (case lock_force forceRelease lockRange fl s of ((s, fl), res) \<Rightarrow> ((s, (r, True) # fl), res)))"

text \<open>\<^verbatim>\<open>maxRetries = (60 * 1000000) / waitInterval\<close>\<close>

definition maxRetries :: nat where "maxRetries = 60 * 1000000 div 50000"

definition lock_ranges :: "(LBIDRange \<Rightarrow> 's \<Rightarrow> bool) \<Rightarrow> (LBIDRange \<Rightarrow> 's \<Rightarrow> ('s, unit) outcome) \<Rightarrow> (LBIDRange \<Rightarrow> 's \<Rightarrow> 's) \<Rightarrow>
    (nat \<Rightarrow> 's \<Rightarrow> 's) \<Rightarrow> LBIDRange list \<Rightarrow> 's \<Rightarrow> ('s \<times> flagged, unit) outcome" where
  "lock_ranges isLocked lockRange forceRelease env ranges s =
     and_then (lock_loop isLocked lockRange env maxRetries (map (\<lambda>r. (r, False)) ranges) s)
       (\<lambda>timeout (s, fl). if timeout then lock_force forceRelease lockRange fl s else ((s, fl), Inr ()))"

text \<open>The release in the exception handlers.\<close>

definition release_flagged :: "(LBIDRange \<Rightarrow> 's \<Rightarrow> 's) \<Rightarrow> flagged \<Rightarrow> 's \<Rightarrow> 's" where
  "release_flagged releaseRange fl s = fold (\<lambda>(r, done) s. if done then releaseRange r s else s) fl s"

section \<open>The interface\<close>

text \<open>Ranges are compared by their blocks; sizes are those that an \<^verbatim>\<open>int\<close> can hold.\<close>

definition meets :: "LBIDRange \<Rightarrow> LBIDRange \<Rightarrow> bool" where
  "meets r r' \<longleftrightarrow> set (range_lbids r) \<inter> set (range_lbids r') \<noteq> {}"

definition lockable :: "LBIDRange \<Rightarrow> bool" where
  "lockable r \<longleftrightarrow> 0 < range_size r \<and> range_size r < 2 ^ 31"

text \<open>No two locks of a table have a block in common.\<close>

definition exclusive :: "(LBIDRange \<times> VER_t) multiset \<Rightarrow> bool" where
  "exclusive M \<longleftrightarrow> (\<forall>x y. x \<in># M \<longrightarrow> y \<in># M - {#x#} \<longrightarrow> \<not> meets (fst x) (fst y))"

lemma meets_sym: "meets r r' = meets r' r"
  by (auto simp: meets_def)

lemma exclusive_mono:
  assumes "exclusive M" "N \<subseteq># M"
  shows "exclusive N"
  unfolding exclusive_def
proof (intro allI impI)
  fix x y assume "x \<in># N" "y \<in># N - {#x#}"
  moreover have "N - {#x#} \<subseteq># M - {#x#}" using assms(2) by (intro mset_subset_eqI) (simp add: diff_le_mono mset_subset_eq_count)
  ultimately show "\<not> meets (fst x) (fst y)" using assms unfolding exclusive_def by (meson mset_subset_eqD)
qed

lemma exclusive_add:
  assumes "exclusive M" "\<forall>x. x \<in># M \<longrightarrow> \<not> meets (fst x) r"
  shows "exclusive (add_mset (r, t) M)"
  unfolding exclusive_def
proof (intro allI impI)
  fix x y assume xy: "x \<in># add_mset (r, t) M" "y \<in># add_mset (r, t) M - {#x#}"
  show "\<not> meets (fst x) (fst y)"
  proof (cases "x = (r, t)")
    case True
    with xy(2) have "y \<in># M" by simp
    with assms(2) have "\<not> meets (fst y) r" by blast
    with True show ?thesis by (simp add: meets_sym [of r])
  next
    case False
    with xy have "x \<in># M" "y = (r, t) \<or> y \<in># M - {#x#}" by (auto simp: diff_add_mset_swap)
    with assms show ?thesis unfolding exclusive_def by (metis fst_conv)
  qed
qed

locale range_locks =
  fixes inv :: "'s \<Rightarrow> bool"
    and locks :: "'s \<Rightarrow> (LBIDRange \<times> VER_t) multiset"
    and isLocked :: "LBIDRange \<Rightarrow> 's \<Rightarrow> bool"
    and lockRange :: "VER_t \<Rightarrow> LBIDRange \<Rightarrow> 's \<Rightarrow> ('s, unit) outcome"
    and releaseRange :: "LBIDRange \<Rightarrow> 's \<Rightarrow> 's"
  assumes isLocked_iff: "inv s \<Longrightarrow> lockable r \<Longrightarrow> isLocked r s \<longleftrightarrow> (\<exists>x. x \<in># locks s \<and> meets (fst x) r)"
    and lockRange_ok: "inv s \<Longrightarrow> lockable r \<Longrightarrow> \<exists>t. lockRange txn r s = (t, Inr ()) \<and> inv t \<and> locks t = add_mset (r, txn) (locks s)"
    and releaseRange_inv: "inv s \<Longrightarrow> inv (releaseRange r s)"
    and releaseRange_locks: "inv s \<Longrightarrow> lockable r \<Longrightarrow> locks (releaseRange r s) = filter_mset (\<lambda>x. \<not> meets (fst x) r) (locks s)"
begin

definition held :: "VER_t \<Rightarrow> flagged \<Rightarrow> 's \<Rightarrow> bool" where
  "held txn fl s \<longleftrightarrow> inv s \<and> exclusive (locks s) \<and> (\<forall>r. (r, True) \<in> set fl \<longrightarrow> (r, txn) \<in># locks s)"

lemma lock_pass_ok:
  assumes "held txn done s" "held txn fl s" "\<forall>(r, b) \<in> set fl. lockable r"
  shows "\<exists>t fl' res. lock_pass isLocked (lockRange txn) fl s = ((t, fl'), Inr res) \<and> held txn fl' t \<and> held txn done t
    \<and> map fst fl' = map fst fl \<and> (res \<longrightarrow> (\<forall>(r, b) \<in> set fl'. b))"
  using assms
proof (induction fl arbitrary: s "done")
  case Nil
  then show ?case by (auto simp: held_def)
next
  case (Cons x fl)
  obtain r b where x: "x = (r, b)" by (cases x)
  have s: "inv s" "exclusive (locks s)" and fl: "held txn fl s" and l: "lockable r" "\<forall>(r, b) \<in> set fl. lockable r"
    using Cons.prems x by (auto simp: held_def)
  show ?case
  proof (cases "b \<or> isLocked r s")
    case True
    have "held txn ((r, b) # done) s" using Cons.prems(1,2) x by (auto simp: held_def)
    from Cons.IH [OF this fl l(2)] obtain t fl' res where
      t: "lock_pass isLocked (lockRange txn) fl s = ((t, fl'), Inr res)" "held txn fl' t" "held txn ((r, b) # done) t"
        "map fst fl' = map fst fl" "res \<longrightarrow> (\<forall>(r, b) \<in> set fl'. b)" by blast
    then have "held txn ((r, b) # fl') t" "held txn done t" by (auto simp: held_def)
    with t True show ?thesis by (intro exI [of _ t] exI [of _ "(r, b) # fl'"] exI [of _ "b \<and> res"]) (auto simp: x)
  next
    case False
    then have free: "\<forall>x. x \<in># locks s \<longrightarrow> \<not> meets (fst x) r" using isLocked_iff [OF s(1) l(1)] by blast
    from lockRange_ok [OF s(1) l(1)] obtain u where
      u: "lockRange txn r s = (u, Inr ())" "inv u" "locks u = add_mset (r, txn) (locks s)" by blast
    have "exclusive (locks u)" unfolding u(3) by (rule exclusive_add [OF s(2) free])
    with u Cons.prems(1) fl have "held txn ((r, True) # done) u" "held txn fl u" by (auto simp: held_def)
    from Cons.IH [OF this l(2)] obtain t fl' res where
      t: "lock_pass isLocked (lockRange txn) fl u = ((t, fl'), Inr res)" "held txn fl' t" "held txn ((r, True) # done) t"
        "map fst fl' = map fst fl" "res \<longrightarrow> (\<forall>(r, b) \<in> set fl'. b)" by blast
    then have "held txn ((r, True) # fl') t" "held txn done t" by (auto simp: held_def)
    with t False u(1) show ?thesis by (intro exI [of _ t] exI [of _ "(r, True) # fl'"] exI [of _ res]) (auto simp: x)
  qed
qed

text \<open>What others do while the code sleeps: they keep the table in order and leave the locks of the transaction alone.\<close>

definition fair :: "VER_t \<Rightarrow> ('s \<Rightarrow> 's) \<Rightarrow> bool" where
  "fair txn f \<longleftrightarrow> (\<forall>s. inv s \<longrightarrow> exclusive (locks s) \<longrightarrow> inv (f s) \<and> exclusive (locks (f s))
     \<and> filter_mset (\<lambda>x. snd x = txn) (locks (f s)) = filter_mset (\<lambda>x. snd x = txn) (locks s))"

lemma fair_held:
  assumes "fair txn f" "held txn fl s"
  shows "held txn fl (f s)"
  unfolding held_def
proof (intro conjI allI impI)
  have f: "filter_mset (\<lambda>x. snd x = txn) (locks (f s)) = filter_mset (\<lambda>x. snd x = txn) (locks s)" and i: "inv (f s)" "exclusive (locks (f s))"
    using assms by (auto simp: fair_def held_def)
  show "inv (f s)" "exclusive (locks (f s))" by (fact i)+
  fix r assume "(r, True) \<in> set fl"
  with assms(2) have "(r, txn) \<in># filter_mset (\<lambda>x. snd x = txn) (locks s)" by (auto simp: held_def)
  then show "(r, txn) \<in># locks (f s)" unfolding f [symmetric] by simp
qed

lemma lock_loop_ok:
  assumes "held txn fl s" "\<forall>(r, b) \<in> set fl. lockable r" "\<And>k. fair txn (env k)"
  shows "\<exists>t fl' timeout. lock_loop isLocked (lockRange txn) env n fl s = ((t, fl'), Inr timeout) \<and> held txn fl' t
    \<and> map fst fl' = map fst fl \<and> (\<not> timeout \<longrightarrow> (\<forall>(r, b) \<in> set fl'. b))"
  using assms(1,2)
proof (induction n arbitrary: fl s)
  case (Suc n)
  from lock_pass_ok [OF Suc.prems(1,1,2)] obtain t fl' res where
    t: "lock_pass isLocked (lockRange txn) fl s = ((t, fl'), Inr res)" "held txn fl' t" "map fst fl' = map fst fl"
      "res \<longrightarrow> (\<forall>(r, b) \<in> set fl'. b)" by blast
  show ?case
  proof (cases res)
    case True
    with t show ?thesis by (intro exI [of _ t] exI [of _ fl'] exI [of _ False]) auto
  next
    case False
    have "fst ` set fl' = fst ` set fl" using t(3) by (metis image_set)
    then have "\<forall>(r, b) \<in> set fl'. lockable r" using Suc.prems(2) by (force simp: image_iff)
    from Suc.IH [OF fair_held [OF assms(3) t(2)] this] t False show ?thesis by simp
  qed
qed auto

lemma lock_force_ok:
  assumes "held txn fl s" "held txn done s" "\<forall>(r, b) \<in> set fl. lockable r"
    "sorted_wrt (\<lambda>x y. \<not> meets (fst x) (fst y)) (done @ fl)"
  shows "\<exists>t fl'. lock_force releaseRange (lockRange txn) fl s = ((t, fl'), Inr ()) \<and> held txn fl' t \<and> held txn done t
    \<and> map fst fl' = map fst fl \<and> (\<forall>(r, b) \<in> set fl'. b)"
  using assms
proof (induction fl arbitrary: s "done")
  case Nil
  then show ?case by (auto simp: held_def)
next
  case (Cons x fl)
  obtain r b where x: "x = (r, b)" by (cases x)
  have s: "inv s" "exclusive (locks s)" and fl: "held txn fl s" and l: "lockable r" "\<forall>(r, b) \<in> set fl. lockable r"
    using Cons.prems x by (auto simp: held_def)
  show ?case
  proof (cases b)
    case True
    have "held txn (done @ [(r, True)]) s" using Cons.prems(1,2) x True by (auto simp: held_def)
    from Cons.IH [OF fl this l(2)] Cons.prems(4) x True obtain t fl' where
      t: "lock_force releaseRange (lockRange txn) fl s = ((t, fl'), Inr ())" "held txn fl' t" "held txn (done @ [(r, True)]) t"
        "map fst fl' = map fst fl" "\<forall>(r, b) \<in> set fl'. b" by (auto simp: sorted_wrt_append)
    then have "held txn ((r, True) # fl') t" "held txn done t" by (auto simp: held_def)
    with t True show ?thesis by (intro exI [of _ t] exI [of _ "(r, True) # fl'"]) (auto simp: x)
  next
    case False
    let ?v = "releaseRange r s"
    have v: "inv ?v" "locks ?v = filter_mset (\<lambda>x. \<not> meets (fst x) r) (locks s)"
      by (rule releaseRange_inv [OF s(1)], rule releaseRange_locks [OF s(1) l(1)])
    from lockRange_ok [OF v(1) l(1)] obtain u where
      u: "lockRange txn r ?v = (u, Inr ())" "inv u" "locks u = add_mset (r, txn) (locks ?v)" by blast
    have ex: "exclusive (locks u)"
      unfolding u(3) by (rule exclusive_add) (use exclusive_mono [OF s(2), of "locks ?v"] v(2) in auto)
    have other: "\<not> meets r' r" if "(r', b') \<in> set done \<union> set fl" for r' b'
      using Cons.prems(4) that meets_sym [of r] by (force simp: x sorted_wrt_append)
    have "held txn fl u" "held txn (done @ [(r, True)]) u"
      using fl Cons.prems(2) u(2) ex other by (auto simp: held_def u(3) v(2))
    from Cons.IH [OF this l(2)] Cons.prems(4) x obtain t fl' where
      t: "lock_force releaseRange (lockRange txn) fl u = ((t, fl'), Inr ())" "held txn fl' t" "held txn (done @ [(r, True)]) t"
        "map fst fl' = map fst fl" "\<forall>(r, b) \<in> set fl'. b" by (auto simp: sorted_wrt_append)
    then have "held txn ((r, True) # fl') t" "held txn done t" by (auto simp: held_def)
    with t u(1) False show ?thesis by (intro exI [of _ t] exI [of _ "(r, True) # fl'"]) (auto simp: x)
  qed
qed

text \<open>
  Locking ends with all ranges locked by the transaction, and no two locks with a block in common,
  whatever the others do in between.
\<close>

lemma lock_ranges_ok:
  assumes s: "inv s" "exclusive (locks s)" and l: "\<forall>r \<in> set ranges. lockable r"
    and d: "sorted_wrt (\<lambda>r r'. \<not> meets r r') ranges" and env: "\<And>k. fair txn (env k)"
  shows "\<exists>t fl. lock_ranges isLocked (lockRange txn) releaseRange env ranges s = ((t, fl), Inr ()) \<and> inv t \<and> exclusive (locks t)
    \<and> map fst fl = ranges \<and> (\<forall>(r, b) \<in> set fl. b) \<and> (\<forall>r \<in> set ranges. (r, txn) \<in># locks t)"
proof -
  let ?fl = "map (\<lambda>r. (r, False)) ranges"
  have "held txn ?fl s" using s by (auto simp: held_def)
  from lock_loop_ok [OF this _ env] l obtain t fl timeout where
    t: "lock_loop isLocked (lockRange txn) env maxRetries ?fl s = ((t, fl), Inr timeout)" "held txn fl t" "map fst fl = map fst ?fl"
      "\<not> timeout \<longrightarrow> (\<forall>(r, b) \<in> set fl. b)" by fastforce
  have fst: "map fst fl = ranges" using t(3) by (simp add: comp_def)
  have *: "(r, txn) \<in># locks u" if "held txn fl' u" "map fst fl' = ranges" "\<forall>(r, b) \<in> set fl'. b" "r \<in> set ranges" for u fl' r
  proof -
    have "r \<in> fst ` set fl'" using that(2,4) by (metis image_set)
    then obtain b where "(r, b) \<in> set fl'" by auto
    with that(1,3) show ?thesis by (auto simp: held_def)
  qed
  show ?thesis
  proof (cases timeout)
    case False
    with t fst * [OF t(2) fst] show ?thesis
      by (intro exI [of _ t] exI [of _ fl]) (auto simp: lock_ranges_def held_def)
  next
    case True
    have "\<forall>(r, b) \<in> set fl. lockable r" using l fst by force
    moreover have "sorted_wrt (\<lambda>x y. \<not> meets (fst x) (fst y)) ([] @ fl)" using d fst [symmetric] by (simp add: sorted_wrt_map)
    moreover have "held txn [] t" using t(2) by (simp add: held_def)
    ultimately obtain u fl' where u: "lock_force releaseRange (lockRange txn) fl t = ((u, fl'), Inr ())" "held txn fl' u"
        "map fst fl' = map fst fl" "\<forall>(r, b) \<in> set fl'. b"
      using lock_force_ok [OF t(2), of "[]"] by blast
    with True t(1) fst * [OF u(2)] show ?thesis
      by (intro exI [of _ u] exI [of _ fl']) (auto simp: lock_ranges_def held_def)
  qed
qed

end

end
