(* ===== verification/Byte_Codec.thy ===== *)
theory Byte_Codec
  imports BRM_Prelude "HOL-Library.Word"
begin

text \<open>
  Numbers as the little-endian bytes the BRM writes to its files and messages, and the ordered maps
  (\<^verbatim>\<open>std::map\<close>) of the servers, as key-ordered association lists.
\<close>

section \<open>Little-endian numbers\<close>

type_synonym byte = "8 word"

fun nat_bytes :: "nat \<Rightarrow> nat \<Rightarrow> byte list" where
  "nat_bytes 0 n = []"
| "nat_bytes (Suc k) n = word_of_nat n # nat_bytes k (n div 256)"

fun bytes_nat :: "byte list \<Rightarrow> nat" where
  "bytes_nat [] = 0"
| "bytes_nat (b # bs) = unat b + 256 * bytes_nat bs"

lemma length_nat_bytes [simp]: "length (nat_bytes k n) = k"
  by (induction k arbitrary: n) simp_all

lemma bytes_nat_bytes: "bytes_nat (nat_bytes k n) = n mod 256 ^ k"
proof (induction k arbitrary: n)
  case (Suc k)
  have "unat (word_of_nat n :: byte) = n mod 256" by (simp add: unat_of_nat)
  with Suc show ?case by (simp add: mod_mult2_eq add.commute)
qed simp

lemma bytes_nat_less: "bytes_nat bs < 256 ^ length bs"
proof (induction bs)
  case (Cons b bs)
  have "unat b < 256" using unsigned_less [of b, where ?'a = nat] by simp
  with Cons show ?case by simp
qed simp

lemma bytes_nat_bytes_id [simp]: "n < 256 ^ k \<Longrightarrow> bytes_nat (nat_bytes k n) = n"
  by (simp add: bytes_nat_bytes)

text \<open>Signed 32-bit numbers.\<close>

definition to_i32 :: "nat \<Rightarrow> int" where
  "to_i32 n = (int n + 2 ^ 31) mod 2 ^ 32 - 2 ^ 31"

definition i32_bytes :: "int \<Rightarrow> byte list" where
  "i32_bytes x = nat_bytes 4 (nat (x mod 2 ^ 32))"

lemma length_i32_bytes [simp]: "length (i32_bytes x) = 4"
  by (simp add: i32_bytes_def)

lemma i32_round_trip:
  assumes "- (2 ^ 31) \<le> x" "x < 2 ^ 31"
  shows "to_i32 (bytes_nat (i32_bytes x)) = x"
proof -
  have "nat (x mod 2 ^ 32) < 256 ^ 4" by (simp add: nat_less_iff)
  then have "int (bytes_nat (i32_bytes x)) = x mod 2 ^ 32" unfolding i32_bytes_def by simp
  then have "to_i32 (bytes_nat (i32_bytes x)) = (x mod 2 ^ 32 + 2 ^ 31) mod 2 ^ 32 - 2 ^ 31" by (simp add: to_i32_def)
  also have "\<dots> = (x + 2 ^ 31) mod 2 ^ 32 - 2 ^ 31" by (simp only: mod_add_left_eq)
  also have "(x + 2 ^ 31) mod 2 ^ 32 = x + 2 ^ 31" using assms by (intro mod_pos_pos_trivial) simp_all
  finally show ?thesis by simp
qed

section \<open>Ordered maps\<close>

fun om_put :: "'k::linorder \<Rightarrow> 'v \<Rightarrow> ('k \<times> 'v) list \<Rightarrow> ('k \<times> 'v) list" where
  "om_put k v [] = [(k, v)]"
| "om_put k v ((k', v') # m) =
     (if k < k' then (k, v) # (k', v') # m
      else if k = k' then (k, v) # m
      else (k', v') # om_put k v m)"

definition om_del :: "'k \<Rightarrow> ('k \<times> 'v) list \<Rightarrow> ('k \<times> 'v) list" where
  "om_del k m = filter (\<lambda>(k', v). k' \<noteq> k) m"

definition om_ok :: "('k::linorder \<times> 'v) list \<Rightarrow> bool" where
  "om_ok m = sorted_wrt (<) (map fst m)"

lemma om_ok_Nil [simp]: "om_ok []"
  by (simp add: om_ok_def)

lemma om_ok_distinct: "om_ok m \<Longrightarrow> distinct (map fst m)"
  unfolding om_ok_def by (simp add: strict_sorted_iff)

lemma om_ok_Cons [simp]: "om_ok ((k, v) # m) \<longleftrightarrow> (\<forall>x \<in> set m. k < fst x) \<and> om_ok m"
  by (auto simp: om_ok_def)

lemma map_of_put [simp]: "map_of (om_put k v m) = (map_of m)(k \<mapsto> v)"
  by (induction m rule: om_put.induct [of "\<lambda>k v m. map_of (om_put k v m) = (map_of m)(k \<mapsto> v)" k v]) (auto simp: fun_eq_iff)

lemma set_put: "om_ok m \<Longrightarrow> set (om_put k v m) = insert (k, v) {x \<in> set m. fst x \<noteq> k}"
  by (induction k v m rule: om_put.induct) auto

lemma om_ok_put [intro]: "om_ok m \<Longrightarrow> om_ok (om_put k v m)"
  by (induction k v m rule: om_put.induct) (auto simp: set_put)

lemma length_put: "om_ok m \<Longrightarrow> length (om_put k v m) = (if map_of m k = None then Suc (length m) else length m)"
proof (induction k v m rule: om_put.induct)
  case (2 k v k' v' m)
  have "map_of m k = None" if "k < k'" using that 2(2) by (fastforce simp: map_of_eq_None_iff)
  with 2 show ?case by (auto simp: fun_upd_def)
qed simp

lemma map_of_del [simp]: "map_of (om_del k m) = (map_of m)(k := None)"
  by (induction m) (auto simp: om_del_def fun_eq_iff)

lemma set_del: "set (om_del k m) = {x \<in> set m. fst x \<noteq> k}"
  by (auto simp: om_del_def)

lemma om_ok_del [intro]: "om_ok m \<Longrightarrow> om_ok (om_del k m)"
  by (induction m) (auto simp: om_del_def)

lemma om_get_iff: "om_ok m \<Longrightarrow> map_of m k = Some v \<longleftrightarrow> (k, v) \<in> set m"
  by (simp add: om_ok_distinct)

text \<open>Two ordered maps with the same content are the same list.\<close>

lemma om_ext:
  assumes "om_ok m" "om_ok n" "map_of m = map_of n"
  shows "m = n"
proof -
  have "set m = set n"
    using assms by (metis (no_types, opaque_lifting) om_get_iff subrelI subset_antisym)
  then show ?thesis using assms(1,2)
  proof (induction m arbitrary: n)
    case (Cons x m)
    obtain y n' where n: "n = y # n'" using Cons.prems(1) by (cases n) auto
    obtain k v k' v' where xy: "x = (k, v)" "y = (k', v')" by fastforce
    have "x = y"
    proof (rule ccontr)
      assume "x \<noteq> y"
      with Cons.prems(1) n have "x \<in> set n'" "y \<in> set m" by auto
      with Cons.prems(2,3) n xy show False by fastforce
    qed
    moreover have "set m = set n'"
    proof -
      have "x \<notin> set m" "y \<notin> set n'" using Cons.prems(2,3) n xy by auto
      with Cons.prems(1) n \<open>x = y\<close> show ?thesis by auto
    qed
    ultimately show ?case using Cons n xy by auto
  qed simp
qed

lemma om_del_put:
  assumes "om_ok m" "map_of m k = None"
  shows "om_del k (om_put k v m) = m"
  by (rule om_ext) (use assms in \<open>auto simp: fun_eq_iff\<close>)

lemma om_put_del:
  assumes "om_ok m" "map_of m k = Some v"
  shows "om_put k v (om_del k m) = m"
  by (rule om_ext) (use assms in \<open>auto simp: fun_eq_iff\<close>)

end
