(* ===== verification/Copy_Locks.thy ===== *)
theory Copy_Locks
  imports Range_Locks Byte_Codec
begin

text \<open>
  \<^verbatim>\<open>versioning/BRM/copylocks.cpp\<close>: the ranges of blocks that are being copied to the version buffer or changed by a
  DML statement, each with the transaction that has locked it, in a shared segment that grows by 50
  entries. The inter-process lock is held over each operation. A segment read with \<^verbatim>\<open>numEntries\<close> is a list of
  that length.
\<close>

section \<open>State\<close>

record CopyLockEntry =
  cl_start :: LBID_t
  cl_size :: int
  cl_txnID :: VER_t

record MSTEntry =
  tableShmkey :: int
  allocdSize :: int
  mst_currentSize :: int

datatype cl_addr = EntryAt nat | InfoAt

datatype cl_cell = EntryCell nat CopyLockEntry | InfoCell MSTEntry

record CopyLocks =
  cl_info :: MSTEntry
  cl_entries :: "CopyLockEntry list"
  cl_undo :: "cl_cell list"
  cl_attached :: bool

fun cl_rd :: "CopyLocks \<Rightarrow> cl_addr \<Rightarrow> cl_cell" where
  "cl_rd s (EntryAt i) = EntryCell i (cl_entries s ! i)"
| "cl_rd s InfoAt = InfoCell (cl_info s)"

fun cl_wr :: "cl_cell \<Rightarrow> CopyLocks \<Rightarrow> CopyLocks" where
  "cl_wr (EntryCell i e) s = s\<lparr>cl_entries := (cl_entries s)[i := e]\<rparr>"
| "cl_wr (InfoCell m) s = s\<lparr>cl_info := m\<rparr>"

fun cl_addr_of :: "cl_cell \<Rightarrow> cl_addr" where
  "cl_addr_of (EntryCell i e) = EntryAt i"
| "cl_addr_of (InfoCell m) = InfoAt"

definition cl_makeUndoRecord :: "cl_addr \<Rightarrow> CopyLocks \<Rightarrow> CopyLocks" where
  "cl_makeUndoRecord a s = s\<lparr>cl_undo := cl_undo s @ [cl_rd s a]\<rparr>"

definition cl_undoChanges :: "CopyLocks \<Rightarrow> CopyLocks" where
  "cl_undoChanges s = (foldr cl_wr (cl_undo s) s)\<lparr>cl_undo := []\<rparr>"

definition cl_confirmChanges :: "CopyLocks \<Rightarrow> CopyLocks" where
  "cl_confirmChanges s = s\<lparr>cl_undo := []\<rparr>"

section \<open>Operations\<close>

text \<open>The constants of \<^verbatim>\<open>copylocks.h\<close>; \<^verbatim>\<open>sizeof(CopyLockEntry) = 16\<close>.\<close>

definition CL_INITIAL_SIZE :: int where "CL_INITIAL_SIZE = 50 * 16"
definition CL_INCREMENT :: int where "CL_INCREMENT = 50 * 16"
definition KEYRANGE_CL_BASE :: int where "KEYRANGE_CL_BASE = 0x50000"

definition cl_chooseShmkey :: "CopyLocks \<Rightarrow> int" where
  "cl_chooseShmkey s =
     (if tableShmkey (cl_info s) + 1 = KEYRANGE_CL_BASE + KEYRANGE_SIZE - 1
         \<or> tableShmkey (cl_info s) mod 2 ^ 32 < KEYRANGE_CL_BASE
      then KEYRANGE_CL_BASE + 1 else tableShmkey (cl_info s) + 1)"

definition empty_lock :: CopyLockEntry where
  "empty_lock = \<lparr>cl_start = 0, cl_size = 0, cl_txnID = 0\<rparr>"

text \<open>
  \<^verbatim>\<open>growCL\<close>: a larger zero-filled segment with the entries copied; the undo records are dropped. Every new segment is granted and its size
  stays in the range of an \<^verbatim>\<open>int\<close>.
\<close>

definition cl_growCL :: "CopyLocks \<Rightarrow> (CopyLocks, unit) outcome" where
  "cl_growCL s =
     (let allocSize = (if allocdSize (cl_info s) = 0 then CL_INITIAL_SIZE else allocdSize (cl_info s) + CL_INCREMENT);
          newshmkey = cl_chooseShmkey s in
      if \<not> ((allocSize = CL_INITIAL_SIZE \<and> \<not> cl_attached s) \<or> cl_attached s) then (s, Inl AssertFailed)
      else
        let n = nat (allocSize div 16);
            entries = (if cl_attached s then cl_entries s @ replicate (n - length (cl_entries s)) empty_lock
                       else replicate n empty_lock)
        in (cl_confirmChanges (s\<lparr>cl_attached := True, cl_entries := entries,
              cl_info := (cl_info s)\<lparr>tableShmkey := newshmkey, allocdSize := allocSize\<rparr>\<rparr>), Inr ()))"

text \<open>The writes to an entry: a record of the entry, the change, a record of \<^verbatim>\<open>shminfo\<close>, the new size.\<close>

definition cl_setEntry :: "nat \<Rightarrow> CopyLockEntry \<Rightarrow> int \<Rightarrow> CopyLocks \<Rightarrow> CopyLocks" where
  "cl_setEntry i e d s =
     (let s = cl_makeUndoRecord (EntryAt i) s;
          s = s\<lparr>cl_entries := (cl_entries s)[i := e]\<rparr>;
          s = cl_makeUndoRecord InfoAt s
      in s\<lparr>cl_info := (cl_info s)\<lparr>mst_currentSize := mst_currentSize (cl_info s) + d\<rparr>\<rparr>)"

abbreviation cl_numEntries :: "CopyLocks \<Rightarrow> nat" where
  "cl_numEntries s \<equiv> nat (allocdSize (cl_info s) div 16)"

definition cl_lockRange :: "VER_t \<Rightarrow> LBIDRange \<Rightarrow> CopyLocks \<Rightarrow> (CopyLocks, unit) outcome" where
  "cl_lockRange txnID l s =
     and_then (if mst_currentSize (cl_info s) = allocdSize (cl_info s) then cl_growCL s else (s, Inr ()))
       (\<lambda>_ s. case find (\<lambda>i. cl_size (cl_entries s ! i) = 0) [0..<cl_numEntries s] of
                Some i \<Rightarrow> (cl_setEntry i \<lparr>cl_start = range_start l, cl_size = to_i32 (range_size l), cl_txnID = txnID\<rparr> 16 s, Inr ())
              | None \<Rightarrow> (s, Inl LogicError))"

text \<open>A loop that sets the size of the chosen entries to zero.\<close>

definition cl_clearStep :: "(CopyLockEntry \<Rightarrow> bool) \<Rightarrow> nat \<Rightarrow> CopyLocks \<Rightarrow> CopyLocks" where
  "cl_clearStep P i s =
     (let e = cl_entries s ! i in if cl_size e \<noteq> 0 \<and> P e then cl_setEntry i (e\<lparr>cl_size := 0\<rparr>) (- 16) s else s)"

definition cl_clearWhere :: "(CopyLockEntry \<Rightarrow> bool) \<Rightarrow> CopyLocks \<Rightarrow> CopyLocks" where
  "cl_clearWhere P s = fold (cl_clearStep P) [0..<cl_numEntries s] s"

text \<open>
  The test of \<^verbatim>\<open>releaseRange\<close>, \<^verbatim>\<open>forceRelease\<close> and \<^verbatim>\<open>isLocked\<close> on first and last blocks. The last block of a range is a 64 bit LBID: no range
  reaches beyond \<open>2^63 - 1\<close>.
\<close>

definition cl_overlaps :: "LBIDRange \<Rightarrow> CopyLockEntry \<Rightarrow> bool" where
  "cl_overlaps l e =
     (let lastBlock = range_start l + int (range_size l) - 1;
          eLastBlock = cl_start e + cl_size e - 1
      in range_start l \<le> eLastBlock \<and> lastBlock \<ge> cl_start e)"

definition cl_releaseRange :: "LBIDRange \<Rightarrow> CopyLocks \<Rightarrow> CopyLocks" where
  "cl_releaseRange l s = cl_clearWhere (cl_overlaps l) s"

definition cl_forceRelease :: "LBIDRange \<Rightarrow> CopyLocks \<Rightarrow> CopyLocks" where
  "cl_forceRelease l s = cl_clearWhere (cl_overlaps l) s"

definition cl_isLocked :: "LBIDRange \<Rightarrow> CopyLocks \<Rightarrow> bool" where
  "cl_isLocked l s =
     list_ex (\<lambda>i. cl_size (cl_entries s ! i) \<noteq> 0 \<and> cl_overlaps l (cl_entries s ! i)) [0..<cl_numEntries s]"

definition cl_rollback :: "VER_t \<Rightarrow> CopyLocks \<Rightarrow> CopyLocks" where
  "cl_rollback txnID s = cl_clearWhere (\<lambda>e. cl_txnID e = txnID) s"

definition cl_getCurrentTxnIDs :: "VER_t set \<Rightarrow> CopyLocks \<Rightarrow> VER_t set" where
  "cl_getCurrentTxnIDs ids s =
     fold (\<lambda>i ids. if cl_size (cl_entries s ! i) \<noteq> 0 then insert (cl_txnID (cl_entries s ! i)) ids else ids)
       [0..<cl_numEntries s] ids"

section \<open>Undo\<close>

interpretation cl_mem: undo_memory cl_rd cl_wr cl_addr_of
proof unfold_locales
  fix s a show "cl_addr_of (cl_rd s a) = a" by (cases a) simp_all
  show "cl_wr (cl_rd s a) s = s" by (cases a) simp_all
next
  fix c d :: cl_cell and s assume "cl_addr_of c = cl_addr_of d"
  then show "cl_wr c (cl_wr d s) = cl_wr c s" by (cases c; cases d) simp_all
next
  fix c d :: cl_cell and s
  show "\<exists>d'. cl_addr_of d' = cl_addr_of d \<and> cl_wr c (cl_wr d s) = cl_wr d' (cl_wr c s)"
  proof (cases "cl_addr_of c = cl_addr_of d")
    case True
    then have "cl_wr c (cl_wr d s) = cl_wr c (cl_wr c s)" by (cases c; cases d) simp_all
    with True show ?thesis by metis
  next
    case False
    then have "cl_wr c (cl_wr d s) = cl_wr d (cl_wr c s)" by (cases c; cases d) (auto simp: list_update_swap)
    then show ?thesis by blast
  qed
qed

text \<open>\<open>cl_undo_ok s0 s\<close>: an undo of the changes recorded in \<open>s\<close> gives back \<open>s0\<close>.\<close>

definition cl_undo_ok :: "CopyLocks \<Rightarrow> CopyLocks \<Rightarrow> bool" where
  "cl_undo_ok s0 s \<longleftrightarrow> cl_undoChanges s = s0"

lemma cl_wr_frame [simp]:
  "cl_undo (cl_wr c s) = cl_undo s" "cl_wr c (s\<lparr>cl_undo := u\<rparr>) = (cl_wr c s)\<lparr>cl_undo := u\<rparr>"
  by (cases c; simp)+

lemma foldr_cl_wr_undo [simp]: "foldr cl_wr cs (s\<lparr>cl_undo := u\<rparr>) = (foldr cl_wr cs s)\<lparr>cl_undo := u\<rparr>"
  by (induction cs) simp_all

lemma cl_undo_record: "cl_undo_ok s0 s \<Longrightarrow> cl_undo_ok s0 (cl_makeUndoRecord a s)"
  using cl_mem.undo_record [of "cl_undo s" s a] by (simp add: cl_undo_ok_def cl_undoChanges_def cl_makeUndoRecord_def)

lemma cl_undo_write:
  assumes "cl_undo_ok s0 s" "cl_addr_of c \<in> cl_addr_of ` set (cl_undo s)"
  shows "cl_undo_ok s0 (cl_wr c s)"
  using cl_mem.undo_write [OF assms(2), of s] assms(1) by (simp add: cl_undo_ok_def cl_undoChanges_def)

lemma cl_undo_setEntry:
  assumes "cl_undo_ok s0 s"
  shows "cl_undo_ok s0 (cl_setEntry i e d s)"
proof -
  let ?s1 = "cl_makeUndoRecord (EntryAt i) s"
  have u: "cl_addr_of (cl_rd t a) \<in> cl_addr_of ` set (cl_undo (cl_makeUndoRecord a t))" for t a
    by (simp add: cl_makeUndoRecord_def)
  have 1: "cl_undo_ok s0 (cl_wr (EntryCell i e) ?s1)"
    using u [of s "EntryAt i"] by (intro cl_undo_write cl_undo_record assms) simp
  let ?s2 = "cl_makeUndoRecord InfoAt (cl_wr (EntryCell i e) ?s1)"
  have "cl_undo_ok s0 (cl_wr (InfoCell m) ?s2)" for m
    using u [of "cl_wr (EntryCell i e) ?s1" InfoAt] by (intro cl_undo_write cl_undo_record 1) simp
  then show ?thesis by (simp add: cl_setEntry_def Let_def)
qed

lemma cl_undo_clearWhere:
  assumes "cl_undo_ok s0 s"
  shows "cl_undo_ok s0 (cl_clearWhere P s)"
proof -
  have "cl_undo_ok s0 (fold (cl_clearStep P) ks s)" if "cl_undo_ok s0 s" for ks s
    using that by (induction ks arbitrary: s) (auto simp: cl_clearStep_def Let_def cl_undo_setEntry)
  with assms show ?thesis by (simp add: cl_clearWhere_def)
qed

lemma cl_undo_lockRange:
  assumes "cl_undo_ok s0 s" "mst_currentSize (cl_info s) \<noteq> allocdSize (cl_info s)"
  shows "cl_undo_ok s0 (fst (cl_lockRange txnID l s))"
  using assms cl_undo_setEntry by (auto simp: cl_lockRange_def split: option.splits)

section \<open>Invariant\<close>

definition cl_used :: "CopyLockEntry \<Rightarrow> bool" where
  "cl_used e \<longleftrightarrow> cl_size e \<noteq> 0"

text \<open>The locks of the table.\<close>

definition cl_abs :: "CopyLocks \<Rightarrow> CopyLockEntry multiset" where
  "cl_abs s = filter_mset cl_used (mset (cl_entries s))"

definition cl_inv :: "CopyLocks \<Rightarrow> bool" where
  "cl_inv s \<longleftrightarrow> allocdSize (cl_info s) = 16 * int (length (cl_entries s))
     \<and> mst_currentSize (cl_info s) = 16 * int (length (filter cl_used (cl_entries s)))
     \<and> (cl_attached s \<or> cl_entries s = []) \<and> (\<forall>e \<in> set (cl_entries s). 0 \<le> cl_size e)"

lemma cl_inv_numEntries: "cl_inv s \<Longrightarrow> cl_numEntries s = length (cl_entries s)"
  by (simp add: cl_inv_def)

lemma cl_setEntry_fields:
  "cl_entries (cl_setEntry i e d s) = (cl_entries s)[i := e]"
  "cl_info (cl_setEntry i e d s) = (cl_info s)\<lparr>mst_currentSize := mst_currentSize (cl_info s) + d\<rparr>"
  "cl_attached (cl_setEntry i e d s) = cl_attached s"
  by (simp_all add: cl_setEntry_def cl_makeUndoRecord_def Let_def)

lemma cl_growCL_ok:
  assumes "cl_inv s"
  shows "\<exists>t. cl_growCL s = (t, Inr ()) \<and> cl_inv t \<and> cl_abs t = cl_abs s \<and> length (cl_entries s) < length (cl_entries t)
    \<and> length (filter cl_used (cl_entries t)) = length (filter cl_used (cl_entries s))"
proof -
  let ?n = "length (cl_entries s)"
  have a: "allocdSize (cl_info s) = 16 * int ?n" using assms by (simp add: cl_inv_def)
  have e: "\<not> cl_used empty_lock" "cl_size empty_lock = 0" by (simp_all add: cl_used_def empty_lock_def)
  then have f: "filter cl_used (replicate k empty_lock) = []" for k by simp
  have u: "filter_mset cl_used (mset (xs @ replicate k empty_lock)) = filter_mset cl_used (mset xs)" for xs k
    using e(1) by (simp add: filter_mset_eq_conv flip: mset_filter)
  show ?thesis
  proof (cases "cl_attached s")
    case True
    have n: "nat ((16 * int ?n + CL_INCREMENT) div 16) - ?n = 50" by (simp add: CL_INCREMENT_def)
    have n0: "nat (CL_INITIAL_SIZE div 16) = 50" by (simp add: CL_INITIAL_SIZE_def)
    show ?thesis
      using True assms n n0 f u [of "cl_entries s"] e
      by (cases "?n = 0") (auto simp: cl_growCL_def a cl_inv_def cl_abs_def cl_confirmChanges_def Let_def CL_INCREMENT_def CL_INITIAL_SIZE_def)
  next
    case False
    then have "cl_entries s = []" using assms by (simp add: cl_inv_def)
    with False assms f e u [of "[]"] show ?thesis
      by (auto simp: cl_growCL_def a cl_inv_def cl_abs_def cl_confirmChanges_def Let_def CL_INITIAL_SIZE_def)
  qed
qed

text \<open>A lock is put into an unused entry, and taken out of a used one.\<close>

lemma cl_setEntry_put:
  assumes "cl_inv s" "i < length (cl_entries s)" "\<not> cl_used (cl_entries s ! i)" "0 < cl_size e"
  shows "cl_inv (cl_setEntry i e 16 s) \<and> cl_abs (cl_setEntry i e 16 s) = add_mset e (cl_abs s)"
proof -
  have e: "cl_used e" using assms(4) by (simp add: cl_used_def)
  have "length (filter cl_used ((cl_entries s)[i := e])) = Suc (length (filter cl_used (cl_entries s)))"
    by (rule filter_upd_add [OF assms(2) e assms(3)])
  moreover have "\<forall>x \<in> set ((cl_entries s)[i := e]). 0 \<le> cl_size x"
    using assms(1,4) set_update_subset_insert [of "cl_entries s" i e] by (fastforce simp: cl_inv_def)
  moreover have "filter_mset cl_used (mset ((cl_entries s)[i := e])) = add_mset e (filter_mset cl_used (mset (cl_entries s)))"
    using assms(2,3) e by (simp add: mset_update nth_mem_mset)
  ultimately show ?thesis using assms(1) by (simp add: cl_inv_def cl_abs_def cl_setEntry_fields)
qed

lemma cl_setEntry_clear:
  assumes "cl_inv s" "i < length (cl_entries s)" "cl_used (cl_entries s ! i)"
  shows "cl_inv (cl_setEntry i ((cl_entries s ! i)\<lparr>cl_size := 0\<rparr>) (- 16) s)
    \<and> cl_abs (cl_setEntry i ((cl_entries s ! i)\<lparr>cl_size := 0\<rparr>) (- 16) s) = cl_abs s - {#cl_entries s ! i#}"
proof -
  let ?e = "(cl_entries s ! i)\<lparr>cl_size := 0\<rparr>"
  have e: "\<not> cl_used ?e" by (simp add: cl_used_def)
  have "length (filter cl_used (cl_entries s)) = Suc (length (filter cl_used ((cl_entries s)[i := ?e])))"
    using filter_upd_length [OF assms(2), of cl_used ?e] assms(3) e by simp
  moreover have "\<forall>x \<in> set ((cl_entries s)[i := ?e]). 0 \<le> cl_size x"
    using assms(1) set_update_subset_insert [of "cl_entries s" i ?e] by (fastforce simp: cl_inv_def)
  moreover have "filter_mset cl_used (mset ((cl_entries s)[i := ?e])) = filter_mset cl_used (mset (cl_entries s)) - {#cl_entries s ! i#}"
    using assms(2,3) e by (simp add: mset_update nth_mem_mset)
  ultimately show ?thesis using assms(1) by (simp add: cl_inv_def cl_abs_def cl_setEntry_fields)
qed

lemma to_i32_small: "n < 2 ^ 31 \<Longrightarrow> to_i32 n = int n"
  by (simp add: to_i32_def)

lemma cl_lockRange_ok:
  assumes inv: "cl_inv s" and l: "0 < range_size l" "range_size l < 2 ^ 31"
  shows "\<exists>t. cl_lockRange txnID l s = (t, Inr ()) \<and> cl_inv t
    \<and> cl_abs t = add_mset \<lparr>cl_start = range_start l, cl_size = int (range_size l), cl_txnID = txnID\<rparr> (cl_abs s)"
proof -
  let ?e = "\<lparr>cl_start = range_start l, cl_size = int (range_size l), cl_txnID = txnID\<rparr>"
  obtain u where u: "(if mst_currentSize (cl_info s) = allocdSize (cl_info s) then cl_growCL s else (s, Inr ())) = (u, Inr ())"
      "cl_inv u" "cl_abs u = cl_abs s" "length (filter cl_used (cl_entries u)) < length (cl_entries u)"
  proof (cases "mst_currentSize (cl_info s) = allocdSize (cl_info s)")
    case True
    from cl_growCL_ok [OF inv] obtain t where "cl_growCL s = (t, Inr ())" "cl_inv t" "cl_abs t = cl_abs s" "length (cl_entries s) < length (cl_entries t)"
      "length (filter cl_used (cl_entries t)) = length (filter cl_used (cl_entries s))" by blast
    moreover from this(4,5) have "length (filter cl_used (cl_entries t)) < length (cl_entries t)"
      using length_filter_le [of cl_used "cl_entries s"] by linarith
    ultimately show thesis using True by (intro that [of t]) simp_all
  next
    case False
    then have "length (filter cl_used (cl_entries s)) \<noteq> length (cl_entries s)" using inv by (simp add: cl_inv_def)
    then have "length (filter cl_used (cl_entries s)) < length (cl_entries s)"
      using length_filter_le [of cl_used "cl_entries s"] by linarith
    with False inv show thesis by (intro that [of s]) simp_all
  qed
  have n: "cl_numEntries u = length (cl_entries u)" using u(2) by (rule cl_inv_numEntries)
  have "\<exists>i < length (cl_entries u). \<not> cl_used (cl_entries u ! i)"
    using u(4) by (metis filter_True less_irrefl in_set_conv_nth)
  then have "find (\<lambda>i. cl_size (cl_entries u ! i) = 0) [0..<cl_numEntries u] \<noteq> None" by (auto simp: find_None_iff n cl_used_def)
  then obtain i where f: "find (\<lambda>i. cl_size (cl_entries u ! i) = 0) [0..<cl_numEntries u] = Some i" by blast
  then have i: "i < length (cl_entries u)" "\<not> cl_used (cl_entries u ! i)" by (auto simp: find_Some_iff n cl_used_def)
  have "cl_lockRange txnID l s = (cl_setEntry i ?e 16 u, Inr ())"
    using u(1) f to_i32_small [OF l(2)] by (simp add: cl_lockRange_def)
  with cl_setEntry_put [OF u(2) i, of ?e] u(3) l(1) show ?thesis by simp
qed

lemma cl_clearWhere_fold:
  assumes "cl_inv s" "distinct ks" "\<forall>i \<in> set ks. i < length (cl_entries s)"
  shows "cl_inv (fold (cl_clearStep P) ks s) \<and> length (cl_entries (fold (cl_clearStep P) ks s)) = length (cl_entries s)
    \<and> (\<forall>j. j \<notin> set ks \<longrightarrow> cl_entries (fold (cl_clearStep P) ks s) ! j = cl_entries s ! j)
    \<and> (\<forall>j \<in> set ks. cl_used (cl_entries s ! j) \<longrightarrow> P (cl_entries s ! j) \<longrightarrow> \<not> cl_used (cl_entries (fold (cl_clearStep P) ks s) ! j))
    \<and> (\<forall>j \<in> set ks. \<not> (cl_used (cl_entries s ! j) \<and> P (cl_entries s ! j)) \<longrightarrow> cl_entries (fold (cl_clearStep P) ks s) ! j = cl_entries s ! j)"
  using assms
proof (induction ks arbitrary: s)
  case (Cons k ks)
  let ?e = "cl_entries s ! k" and ?t = "cl_clearStep P k s"
  have k: "k < length (cl_entries s)" "k \<notin> set ks" using Cons.prems by simp_all
  have t: "cl_inv ?t \<and> length (cl_entries ?t) = length (cl_entries s) \<and> (\<forall>j. j \<noteq> k \<longrightarrow> cl_entries ?t ! j = cl_entries s ! j)
    \<and> cl_entries ?t ! k = (if cl_used ?e \<and> P ?e then ?e\<lparr>cl_size := 0\<rparr> else ?e)"
  proof (cases "cl_used ?e \<and> P ?e")
    case True
    then have "?t = cl_setEntry k (?e\<lparr>cl_size := 0\<rparr>) (- 16) s" by (simp add: cl_clearStep_def Let_def cl_used_def)
    with True cl_setEntry_clear [OF Cons.prems(1) k(1)] k(1) show ?thesis by (simp add: cl_setEntry_fields)
  next
    case False
    then have "?t = s" by (auto simp: cl_clearStep_def Let_def cl_used_def)
    with False Cons.prems(1) show ?thesis by auto
  qed
  have d: "distinct ks" "\<forall>i \<in> set ks. i < length (cl_entries ?t)" using Cons.prems t by simp_all
  have tinv: "cl_inv ?t" using t ..
  have ne: "cl_entries ?t ! j = cl_entries s ! j" if "j \<in> set ks" for j
  proof -
    have "j \<noteq> k" using that k(2) by blast
    with t show ?thesis by blast
  qed
  note IH = Cons.IH [OF tinv d]
  have kk: "cl_entries (fold (cl_clearStep P) ks ?t) ! k = cl_entries ?t ! k" using IH k(2) by blast
  have nu: "\<not> cl_used (?e\<lparr>cl_size := 0\<rparr>)" by (simp add: cl_used_def)
  show ?case using IH t ne kk nu by (auto split: if_splits)
qed simp

lemma filter_pointwise:
  assumes "length xs = length ys" "\<And>j. j < length xs \<Longrightarrow> (if p (xs ! j) then [xs ! j] else []) = (if q (ys ! j) then [ys ! j] else [])"
  shows "filter p xs = filter q ys"
  using assms
proof (induction xs ys rule: list_induct2)
  case (Cons x xs y ys)
  have "(if p x then [x] else []) = (if q y then [y] else [])" using Cons.prems [of 0, unfolded nth_Cons_0] by auto
  moreover have "filter p xs = filter q ys"
  proof (rule Cons.IH)
    fix j assume "j < length xs"
    then show "(if p (xs ! j) then [xs ! j] else []) = (if q (ys ! j) then [ys ! j] else [])"
      using Cons.prems [of "Suc j", unfolded nth_Cons_Suc] by simp
  qed
  ultimately show ?case by (simp split: if_splits)
qed simp

lemma cl_clearWhere_ok:
  assumes inv: "cl_inv s"
  shows "cl_inv (cl_clearWhere P s)" "cl_abs (cl_clearWhere P s) = filter_mset (\<lambda>e. \<not> P e) (cl_abs s)"
proof -
  let ?t = "cl_clearWhere P s" and ?n = "length (cl_entries s)"
  note F = cl_clearWhere_fold [OF inv, of "[0..<?n]" P, folded cl_clearWhere_def]
  have t: "?t = fold (cl_clearStep P) [0..<?n] s" by (simp add: cl_clearWhere_def cl_inv_numEntries [OF inv])
  show "cl_inv ?t" unfolding t using F by simp
  have l: "length (cl_entries ?t) = ?n" unfolding t using F by simp
  have "filter cl_used (cl_entries ?t) = filter (\<lambda>e. cl_used e \<and> \<not> P e) (cl_entries s)"
  proof (rule filter_pointwise [OF l])
    fix j assume "j < length (cl_entries ?t)"
    then have "j \<in> set [0..<?n]" using l by simp
    then show "(if cl_used (cl_entries ?t ! j) then [cl_entries ?t ! j] else []) =
        (if cl_used (cl_entries s ! j) \<and> \<not> P (cl_entries s ! j) then [cl_entries s ! j] else [])"
      unfolding t using F by (cases "cl_used (cl_entries s ! j) \<and> P (cl_entries s ! j)") auto
  qed
  then have "mset (filter cl_used (cl_entries ?t)) = mset (filter (\<lambda>e. cl_used e \<and> \<not> P e) (cl_entries s))" by simp
  then show "cl_abs ?t = filter_mset (\<lambda>e. \<not> P e) (cl_abs s)" by (simp add: cl_abs_def filter_filter_mset conj_commute)
qed

section \<open>The table as a set of locked ranges\<close>

definition cl_locks :: "CopyLocks \<Rightarrow> (LBIDRange \<times> VER_t) multiset" where
  "cl_locks s = image_mset (\<lambda>e. (\<lparr>range_start = cl_start e, range_size = nat (cl_size e)\<rparr>, cl_txnID e)) (cl_abs s)"

lemma set_range_lbids: "set (range_lbids r) = {range_start r ..< range_start r + int (range_size r)}"
proof -
  have "x \<in> (\<lambda>k. range_start r + int k) ` {0..<range_size r}" if "range_start r \<le> x" "x < range_start r + int (range_size r)" for x
    using that by (intro image_eqI [of _ _ "nat (x - range_start r)"]) auto
  then show ?thesis by (auto simp: range_lbids_def)
qed

lemma cl_overlaps_meets:
  assumes "lockable r" "cl_used e" "0 \<le> cl_size e"
  shows "cl_overlaps r e \<longleftrightarrow> meets \<lparr>range_start = cl_start e, range_size = nat (cl_size e)\<rparr> r"
proof -
  have n: "0 < range_size r" "0 < cl_size e" using assms by (auto simp: lockable_def cl_used_def)
  let ?m = "max (cl_start e) (range_start r)"
  have "?m \<in> {cl_start e ..< cl_start e + cl_size e} \<inter> {range_start r ..< range_start r + int (range_size r)}" if "cl_overlaps r e"
    using that n by (auto simp: cl_overlaps_def Let_def)
  then show ?thesis using n by (fastforce simp: cl_overlaps_def Let_def meets_def set_range_lbids)
qed

lemma cl_abs_used: "cl_inv s \<Longrightarrow> e \<in># cl_abs s \<Longrightarrow> cl_used e \<and> 0 \<le> cl_size e"
  by (auto simp: cl_inv_def cl_abs_def)

lemma cl_isLocked_abs:
  assumes "cl_inv s"
  shows "cl_isLocked l s \<longleftrightarrow> (\<exists>e. e \<in># cl_abs s \<and> cl_overlaps l e)"
proof -
  have "cl_isLocked l s \<longleftrightarrow> (\<exists>e \<in> set (cl_entries s). cl_used e \<and> cl_overlaps l e)"
    unfolding cl_isLocked_def list_ex_iff cl_inv_numEntries [OF assms] cl_used_def by (fastforce simp: set_conv_nth [of "cl_entries s"])
  then show ?thesis by (auto simp: cl_abs_def)
qed

lemma cl_releaseRange_locks:
  assumes "cl_inv s" "lockable r"
  shows "cl_locks (cl_releaseRange r s) = filter_mset (\<lambda>x. \<not> meets (fst x) r) (cl_locks s)"
proof -
  have "filter_mset (\<lambda>e. \<not> cl_overlaps r e) (cl_abs s)
      = filter_mset (\<lambda>e. \<not> meets \<lparr>range_start = cl_start e, range_size = nat (cl_size e)\<rparr> r) (cl_abs s)"
    by (rule filter_mset_cong) (use cl_overlaps_meets [OF assms(2)] cl_abs_used [OF assms(1)] in auto)
  then show ?thesis
    by (simp add: cl_releaseRange_def cl_locks_def cl_clearWhere_ok(2) [OF assms(1)] filter_mset_image_mset)
qed

interpretation cl_table: range_locks cl_inv cl_locks cl_isLocked cl_lockRange cl_releaseRange
proof unfold_locales
  fix s r assume s: "cl_inv s" "lockable r"
  then show "cl_isLocked r s \<longleftrightarrow> (\<exists>x. x \<in># cl_locks s \<and> meets (fst x) r)"
    using cl_abs_used [OF s(1)] cl_overlaps_meets [OF s(2)] by (fastforce simp: cl_isLocked_abs cl_locks_def)
  show "cl_locks (cl_releaseRange r s) = filter_mset (\<lambda>x. \<not> meets (fst x) r) (cl_locks s)"
    by (rule cl_releaseRange_locks [OF s])
  fix txn
  from cl_lockRange_ok [OF s(1)] s(2) obtain t where "cl_lockRange txn r s = (t, Inr ())" "cl_inv t"
    "cl_abs t = add_mset \<lparr>cl_start = range_start r, cl_size = int (range_size r), cl_txnID = txn\<rparr> (cl_abs s)"
    unfolding lockable_def by blast
  then show "\<exists>t. cl_lockRange txn r s = (t, Inr ()) \<and> cl_inv t \<and> cl_locks t = add_mset (r, txn) (cl_locks s)"
    by (simp add: cl_locks_def)
next
  fix s r assume "cl_inv s"
  then show "cl_inv (cl_releaseRange r s)" by (simp add: cl_releaseRange_def cl_clearWhere_ok(1))
qed

lemma cl_forceRelease_eq: "cl_forceRelease = cl_releaseRange"
  by (simp add: fun_eq_iff cl_forceRelease_def cl_releaseRange_def)

lemma cl_rollback_locks:
  assumes "cl_inv s"
  shows "cl_inv (cl_rollback txn s)" "cl_locks (cl_rollback txn s) = filter_mset (\<lambda>x. snd x \<noteq> txn) (cl_locks s)"
  using cl_clearWhere_ok [OF assms] by (simp_all add: cl_rollback_def cl_locks_def filter_mset_image_mset)

lemma cl_getCurrentTxnIDs_fold:
  "fold (\<lambda>i ids. if cl_size (es ! i) \<noteq> 0 then insert (cl_txnID (es ! i)) ids else ids) ks ids
     = ids \<union> {cl_txnID (es ! i) | i. i \<in> set ks \<and> cl_size (es ! i) \<noteq> 0}"
  by (induction ks arbitrary: ids) auto

lemma cl_getCurrentTxnIDs_locks:
  assumes "cl_inv s"
  shows "cl_getCurrentTxnIDs ids s = ids \<union> snd ` set_mset (cl_locks s)"
proof -
  have "{cl_txnID (cl_entries s ! i) | i. i \<in> set [0..<cl_numEntries s] \<and> cl_size (cl_entries s ! i) \<noteq> 0}
      = cl_txnID ` {e \<in> set (cl_entries s). cl_used e}"
    by (auto simp: cl_inv_numEntries [OF assms] cl_used_def set_conv_nth [of "cl_entries s"] image_iff)
  also have "\<dots> = snd ` set_mset (cl_locks s)" by (auto simp: cl_locks_def cl_abs_def image_iff)
  finally show ?thesis by (simp add: cl_getCurrentTxnIDs_def cl_getCurrentTxnIDs_fold)
qed

section \<open>Contract\<close>

text \<open>
  C7. The table of copy locks implements a multiset of locked ranges: \<^verbatim>\<open>lockRange\<close> adds the range for the
  transaction, growing the segment when it is full; \<^verbatim>\<open>isLocked\<close> says whether a locked range has a block in common with
  the given one; \<^verbatim>\<open>releaseRange\<close> and \<^verbatim>\<open>forceRelease\<close> drop exactly the locks that have one, whoever owns them; \<^verbatim>\<open>rollback\<close> drops
  those of the transaction, and \<^verbatim>\<open>getCurrentTxnIDs\<close> adds the owners of the locks. All of them keep the invariant.
\<close>

theorem cl_implements_locks:
  assumes "cl_inv s" "lockable r"
  shows "(\<exists>t. cl_lockRange txn r s = (t, Inr ()) \<and> cl_inv t \<and> cl_locks t = add_mset (r, txn) (cl_locks s))
    \<and> (cl_isLocked r s \<longleftrightarrow> (\<exists>x. x \<in># cl_locks s \<and> meets (fst x) r))
    \<and> cl_inv (cl_releaseRange r s) \<and> cl_locks (cl_releaseRange r s) = filter_mset (\<lambda>x. \<not> meets (fst x) r) (cl_locks s)
    \<and> cl_inv (cl_forceRelease r s) \<and> cl_locks (cl_forceRelease r s) = filter_mset (\<lambda>x. \<not> meets (fst x) r) (cl_locks s)
    \<and> cl_inv (cl_rollback txn s) \<and> cl_locks (cl_rollback txn s) = filter_mset (\<lambda>x. snd x \<noteq> txn) (cl_locks s)
    \<and> cl_getCurrentTxnIDs ids s = ids \<union> snd ` set_mset (cl_locks s)"
  unfolding cl_forceRelease_eq
  by (intro conjI cl_table.lockRange_ok cl_table.isLocked_iff cl_table.releaseRange_inv cl_table.releaseRange_locks
      cl_rollback_locks cl_getCurrentTxnIDs_locks assms)

definition cl_ex :: CopyLocks where
  "cl_ex = \<lparr>cl_info = \<lparr>tableShmkey = 0x50001, allocdSize = 32, mst_currentSize = 16\<rparr>,
     cl_entries = [\<lparr>cl_start = 0, cl_size = 0, cl_txnID = 0\<rparr>, \<lparr>cl_start = 100, cl_size = 8, cl_txnID = 4\<rparr>],
     cl_undo = [], cl_attached = True\<rparr>"

lemma cl_ex_inv: "cl_inv cl_ex"
  by (simp add: cl_inv_def cl_ex_def cl_used_def)

lemma cl_ex_locks: "cl_locks cl_ex = {#(\<lparr>range_start = 100, range_size = 8\<rparr>, 4)#}"
  by (simp add: cl_locks_def cl_abs_def cl_ex_def cl_used_def)

theorem cl_implements_locks_witness:
  "\<exists>t. cl_lockRange 5 \<lparr>range_start = 120, range_size = 4\<rparr> cl_ex = (t, Inr ()) \<and> cl_inv t
     \<and> cl_locks t = {#(\<lparr>range_start = 120, range_size = 4\<rparr>, 5), (\<lparr>range_start = 100, range_size = 8\<rparr>, 4)#}"
  using cl_implements_locks [OF cl_ex_inv, of "\<lparr>range_start = 120, range_size = 4\<rparr>" 5 "{}"]
  by (simp add: lockable_def cl_ex_locks)

text \<open>
  A lock that makes the segment grow drops the undo records of the changes before it: an undo goes back
  only to the locks that the table had when the call was made.
\<close>

lemma cl_growth_forgets:
  assumes "cl_inv s" "lockable r" "mst_currentSize (cl_info s) = allocdSize (cl_info s)"
  shows "cl_locks (cl_undoChanges (fst (cl_lockRange txn r s))) = cl_locks s"
proof -
  from cl_growCL_ok [OF assms(1)] obtain g where g: "cl_growCL s = (g, Inr ())" "cl_abs g = cl_abs s" by blast
  then have "cl_undo g = []" by (auto simp: cl_growCL_def cl_confirmChanges_def Let_def split: if_splits)
  then have "cl_undo_ok g g" by (simp add: cl_undo_ok_def cl_undoChanges_def)
  then have "cl_undo_ok g (fst (cl_lockRange txn r s))"
    using cl_undo_setEntry by (auto simp: cl_lockRange_def assms(3) g(1) split: option.splits)
  then show ?thesis using g(2) by (simp add: cl_undo_ok_def cl_locks_def)
qed

end
