(* ===== verification/Worker_Node.thy ===== *)
theory Worker_Node
  imports VB_Persist VBBM_Undo Copy_Locks
begin

text \<open>
  \<^verbatim>\<open>versioning/BRM/slavedbrmnode.cpp\<close>: the commands of a worker node that work on the version buffer, the VSS and the
  copy locks. A command takes the inter-process locks it needs and leaves them taken, noted in \<^verbatim>\<open>locked\<close>; the
  controller then sends \<^verbatim>\<open>confirmChanges\<close> or \<^verbatim>\<open>undoChanges\<close>. The extent map, which the same class forwards other commands
  to, is not part of the state.
\<close>

section \<open>State\<close>

record SlaveDBRMNode =
  node_vbbm :: VBBM
  node_vss :: VSS
  node_cl :: CopyLocks
  vbbm_locked :: bool
  vss_locked :: bool
  cl_locked :: bool

definition ERR_VBBM_OVERFLOW :: int where "ERR_VBBM_OVERFLOW = 8"
definition ERR_OLDTXN_OVERWRITING_NEWTXN :: int where "ERR_OLDTXN_OVERWRITING_NEWTXN = 17"

text \<open>Calls of the members.\<close>

definition on_vbbm :: "(VBBM \<Rightarrow> (VBBM, 'a) outcome) \<Rightarrow> SlaveDBRMNode \<Rightarrow> (SlaveDBRMNode, 'a) outcome" where
  "on_vbbm f n = (case f (node_vbbm n) of (b, r) \<Rightarrow> (n\<lparr>node_vbbm := b\<rparr>, r))"

definition on_vss :: "(VSS \<Rightarrow> (VSS, 'a) outcome) \<Rightarrow> SlaveDBRMNode \<Rightarrow> (SlaveDBRMNode, 'a) outcome" where
  "on_vss f n = (case f (node_vss n) of (v, r) \<Rightarrow> (n\<lparr>node_vss := v\<rparr>, r))"

definition on_cl :: "(CopyLocks \<Rightarrow> (CopyLocks, 'a) outcome) \<Rightarrow> SlaveDBRMNode \<Rightarrow> (SlaveDBRMNode, 'a) outcome" where
  "on_cl f n = (case f (node_cl n) of (c, r) \<Rightarrow> (n\<lparr>node_cl := c\<rparr>, r))"

definition on_vb :: "(version_buffer \<Rightarrow> (version_buffer, 'a) outcome) \<Rightarrow> SlaveDBRMNode \<Rightarrow> (SlaveDBRMNode, 'a) outcome" where
  "on_vb f n = (case f (node_vbbm n, node_vss n) of ((b, v), r) \<Rightarrow> (n\<lparr>node_vbbm := b, node_vss := v\<rparr>, r))"

text \<open>\<^verbatim>\<open>catch (exception& e) { ...; return -1; }\<close>\<close>

definition node_catch :: "'a \<Rightarrow> (SlaveDBRMNode, 'a) outcome \<Rightarrow> (SlaveDBRMNode, 'a) outcome" where
  "node_catch a m =
     (case m of (n, Inl Undefined) \<Rightarrow> (n, Inl Undefined) | (n, Inl err) \<Rightarrow> (n, Inr a) | (n, Inr r) \<Rightarrow> (n, Inr r))"

section \<open>New versions\<close>

text \<open>The current version \<open>oldVerID\<close> of a block goes to the version buffer, and the transaction writes a new one.\<close>

definition wn_newVersion :: "int option \<Rightarrow> VER_t \<Rightarrow> LBID_t \<Rightarrow> VER_t \<Rightarrow> OID_t \<Rightarrow> nat \<Rightarrow> SlaveDBRMNode \<Rightarrow> (SlaveDBRMNode, unit) outcome" where
  "wn_newVersion cfg transID l oldVerID oid fbo n =
     and_then (on_vbbm (vbbm_insert cfg l oldVerID oid fbo False) n)
       (\<lambda>_ n. and_then (if oldVerID > 0 then on_vss (vss_setVBFlag l oldVerID True) n
                        else on_vss (vss_insert l oldVerID True False False) n)
         (\<lambda>_ n. on_vss (vss_insert l transID False True False) n))"

definition wn_writeVBEntry :: "int option \<Rightarrow> VER_t \<Rightarrow> LBID_t \<Rightarrow> OID_t \<Rightarrow> nat \<Rightarrow> SlaveDBRMNode \<Rightarrow> (SlaveDBRMNode, int) outcome" where
  "wn_writeVBEntry cfg transID l oid fbo n =
     (let n = n\<lparr>vbbm_locked := True, vss_locked := True\<rparr> in
      case vss_getCurrentVersion (node_vss n) l of
        None \<Rightarrow> (n, Inl Undefined)
      | Some (oldVerID, _) \<Rightarrow>
          if oldVerID = transID then (n, Inr 0)
          else if oldVerID > transID then (n, Inr ERR_OLDTXN_OVERWRITING_NEWTXN)
          else node_catch (-1) (and_then (wn_newVersion cfg transID l oldVerID oid fbo n) (\<lambda>_ n. (n, Inr 0))))"

text \<open>\<^verbatim>\<open>bulkWriteVBEntry\<close>: the loop, in which \<^verbatim>\<open>vbFBOs[i]\<close> is read only for a block that is written.\<close>

fun wn_bulkWriteLoop :: "int option \<Rightarrow> VER_t \<Rightarrow> OID_t \<Rightarrow> nat list \<Rightarrow> LBID_t list \<Rightarrow> nat \<Rightarrow> SlaveDBRMNode \<Rightarrow> (SlaveDBRMNode, int) outcome" where
  "wn_bulkWriteLoop cfg transID oid vbFBOs [] i n = (n, Inr 0)"
| "wn_bulkWriteLoop cfg transID oid vbFBOs (l # ls) i n =
     (case vss_getCurrentVersion (node_vss n) l of
        None \<Rightarrow> (n, Inl Undefined)
      | Some (oldVerID, _) \<Rightarrow>
          if oldVerID = transID then wn_bulkWriteLoop cfg transID oid vbFBOs ls (Suc i) n
          else if oldVerID > transID then (n, Inr ERR_OLDTXN_OVERWRITING_NEWTXN)
          else if length vbFBOs \<le> i then (n, Inl Undefined)
          else and_then (wn_newVersion cfg transID l oldVerID oid (vbFBOs ! i) n)
                 (\<lambda>_ n. wn_bulkWriteLoop cfg transID oid vbFBOs ls (Suc i) n))"

definition wn_bulkWriteVBEntry :: "int option \<Rightarrow> VER_t \<Rightarrow> LBID_t list \<Rightarrow> OID_t \<Rightarrow> nat list \<Rightarrow> SlaveDBRMNode \<Rightarrow> (SlaveDBRMNode, int) outcome" where
  "wn_bulkWriteVBEntry cfg transID lbids oid vbFBOs n =
     node_catch (-1) (wn_bulkWriteLoop cfg transID oid vbFBOs lbids 0 (n\<lparr>vbbm_locked := True, vss_locked := True\<rparr>))"

section \<open>Copying to the version buffer\<close>

fun wn_anyLocked :: "LBIDRange list \<Rightarrow> VER_t \<Rightarrow> VSS \<Rightarrow> bool option" where
  "wn_anyLocked [] transID v = Some False"
| "wn_anyLocked (r # rs) transID v =
     (case vss_isLocked v r transID of None \<Rightarrow> None | Some True \<Rightarrow> Some True | Some False \<Rightarrow> wn_anyLocked rs transID v)"

text \<open>
  \<^verbatim>\<open>beginVBCopy\<close>: the return code, the free list and the blocks flushed from the caches. The free list is
  read by the caller only when the code is \<open>0\<close>. \<open>env k\<close> is what other processes do in a sleep.
\<close>

definition wn_beginVBCopy :: "int option \<Rightarrow> (nat \<Rightarrow> SlaveDBRMNode \<Rightarrow> SlaveDBRMNode) \<Rightarrow> VER_t \<Rightarrow> OID_t \<Rightarrow> LBIDRange list \<Rightarrow> bool \<Rightarrow>
    SlaveDBRMNode \<Rightarrow> (SlaveDBRMNode, int \<times> VBRange list \<times> LBID_t list) outcome" where
  "wn_beginVBCopy cfg env transID oid ranges flushPMCache n =
     (let total = sum_list (map range_size ranges);
          n = n\<lparr>vbbm_locked := True, vss_locked := True\<rparr> in
      case wn_anyLocked ranges transID (node_vss n) of
        None \<Rightarrow> (n, Inl Undefined)
      | Some True \<Rightarrow> (n, Inr (-1, [], []))
      | Some False \<Rightarrow>
          (case lock_ranges (\<lambda>r n. cl_isLocked r (node_cl n)) (\<lambda>r. on_cl (cl_lockRange transID r))
                  (\<lambda>r n. n\<lparr>node_cl := cl_forceRelease r (node_cl n)\<rparr>) env ranges (n\<lparr>cl_locked := True\<rparr>) of
             ((n, lockedRanges), res) \<Rightarrow>
               (case and_then (n, res) (\<lambda>_. on_vb (vb_getBlocks cfg (to_i32 (total mod 2 ^ 32)) oid flushPMCache)) of
                  (n, Inr (freeList, flushList)) \<Rightarrow> (n, Inr (0, freeList, flushList))
                | (n, Inl Undefined) \<Rightarrow> (n, Inl Undefined)
                | (n, Inl err) \<Rightarrow>
                    (release_flagged (\<lambda>r n. n\<lparr>node_cl := cl_releaseRange r (node_cl n)\<rparr>) lockedRanges n,
                     Inr (if err = VBBMBufferOverFlowExcept then ERR_VBBM_OVERFLOW else -1, [], [])))))"

definition wn_releaseRanges :: "LBIDRange list \<Rightarrow> SlaveDBRMNode \<Rightarrow> (SlaveDBRMNode, int) outcome" where
  "wn_releaseRanges ranges n =
     (let n = n\<lparr>cl_locked := True\<rparr> in (n\<lparr>node_cl := fold cl_releaseRange ranges (node_cl n)\<rparr>, Inr 0))"

definition wn_endVBCopy :: "VER_t \<Rightarrow> LBIDRange list \<Rightarrow> SlaveDBRMNode \<Rightarrow> (SlaveDBRMNode, int) outcome" where
  "wn_endVBCopy transID ranges n = wn_releaseRanges ranges n"

definition wn_dmlLockLBIDRanges :: "(nat \<Rightarrow> CopyLocks \<Rightarrow> CopyLocks) \<Rightarrow> LBIDRange list \<Rightarrow> VER_t \<Rightarrow> SlaveDBRMNode \<Rightarrow> (SlaveDBRMNode, int) outcome" where
  "wn_dmlLockLBIDRanges env ranges txnID n =
     (let n = n\<lparr>cl_locked := True\<rparr> in
      case lock_ranges cl_isLocked (cl_lockRange txnID) cl_forceRelease env ranges (node_cl n) of
        ((c, lockedRanges), Inr _) \<Rightarrow> (n\<lparr>node_cl := c\<rparr>, Inr 0)
      | ((c, lockedRanges), Inl Undefined) \<Rightarrow> (n\<lparr>node_cl := c\<rparr>, Inl Undefined)
      | ((c, lockedRanges), Inl err) \<Rightarrow> (n\<lparr>node_cl := release_flagged cl_releaseRange lockedRanges c\<rparr>, Inr (-1)))"

definition wn_dmlReleaseLBIDRanges :: "LBIDRange list \<Rightarrow> SlaveDBRMNode \<Rightarrow> (SlaveDBRMNode, int) outcome" where
  "wn_dmlReleaseLBIDRanges ranges n = wn_releaseRanges ranges n"

section \<open>Commit, rollback and the end of a command\<close>

definition wn_vbCommit :: "VER_t \<Rightarrow> SlaveDBRMNode \<Rightarrow> (SlaveDBRMNode, int) outcome" where
  "wn_vbCommit transID n = (n\<lparr>vss_locked := True, node_vss := vss_commit transID (node_vss n)\<rparr>, Inr 0)"

text \<open>One block of a rollback: the blocks to flush.\<close>

definition wn_rollbackBlock :: "VER_t \<Rightarrow> LBID_t \<Rightarrow> SlaveDBRMNode \<Rightarrow> (SlaveDBRMNode, LBID_t list) outcome" where
  "wn_rollbackBlock transID l n =
     (case vss_getHighestVerInVB (node_vss n) l transID of
        None \<Rightarrow> (n, Inl Undefined)
      | Some oldVerID \<Rightarrow>
          and_then (if oldVerID \<noteq> -1
                    then and_then (on_vbbm (vbbm_removeEntry l oldVerID) n) (\<lambda>_. on_vss (vss_setVBFlag l oldVerID False))
                    else (n, Inr ()))
            (\<lambda>_. on_vss (vss_removeEntry l transID)))"

fun wn_rollbackLoop :: "VER_t \<Rightarrow> LBID_t list \<Rightarrow> LBID_t list \<Rightarrow> SlaveDBRMNode \<Rightarrow> (SlaveDBRMNode, LBID_t list) outcome" where
  "wn_rollbackLoop transID [] flushList n = (n, Inr flushList)"
| "wn_rollbackLoop transID (l # ls) flushList n =
     and_then (wn_rollbackBlock transID l n) (\<lambda>fl. wn_rollbackLoop transID ls (flushList @ fl))"

text \<open>\<^verbatim>\<open>vbRollback\<close> of a list of blocks and of a list of ranges: the return code and the blocks flushed.\<close>

definition wn_vbRollback :: "VER_t \<Rightarrow> LBID_t list \<Rightarrow> bool \<Rightarrow> SlaveDBRMNode \<Rightarrow> (SlaveDBRMNode, int \<times> LBID_t list) outcome" where
  "wn_vbRollback transID lbidList flushPMCache n =
     (let n = n\<lparr>vbbm_locked := True, vss_locked := True, cl_locked := True\<rparr>;
          n = n\<lparr>node_cl := cl_rollback transID (node_cl n)\<rparr>
      in node_catch (-1, [])
           (and_then (wn_rollbackLoop transID lbidList [] n)
             (\<lambda>flushList n. (n, Inr (0, if flushPMCache then flushList else [])))))"

definition wn_vbRollback_ranges :: "VER_t \<Rightarrow> LBIDRange list \<Rightarrow> bool \<Rightarrow> SlaveDBRMNode \<Rightarrow> (SlaveDBRMNode, int \<times> LBID_t list) outcome" where
  "wn_vbRollback_ranges transID lbidList flushPMCache n =
     wn_vbRollback transID (concat (map range_lbids lbidList)) flushPMCache n"

definition wn_confirmChanges :: "SlaveDBRMNode \<Rightarrow> SlaveDBRMNode" where
  "wn_confirmChanges n =
     (let n = (if vbbm_locked n then n\<lparr>node_vbbm := vbbm_confirmChanges (node_vbbm n), vbbm_locked := False\<rparr> else n);
          n = (if vss_locked n then n\<lparr>node_vss := vss_confirmChanges (node_vss n), vss_locked := False\<rparr> else n)
      in if cl_locked n then n\<lparr>node_cl := cl_confirmChanges (node_cl n), cl_locked := False\<rparr> else n)"

definition wn_undoChanges :: "SlaveDBRMNode \<Rightarrow> (SlaveDBRMNode, unit) outcome" where
  "wn_undoChanges n =
     and_then (if vbbm_locked n then and_then (on_vbbm vbbm_undoChanges n) (\<lambda>_ n. (n\<lparr>vbbm_locked := False\<rparr>, Inr ())) else (n, Inr ()))
       (\<lambda>_ n. and_then (if vss_locked n then and_then (on_vss vss_undoChanges n) (\<lambda>_ n. (n\<lparr>vss_locked := False\<rparr>, Inr ())) else (n, Inr ()))
         (\<lambda>_ n. (if cl_locked n then n\<lparr>node_cl := cl_undoChanges (node_cl n), cl_locked := False\<rparr> else n, Inr ())))"

definition wn_clear :: "int option \<Rightarrow> SlaveDBRMNode \<Rightarrow> (SlaveDBRMNode, int) outcome" where
  "wn_clear cfg n =
     node_catch (-1) (and_then (on_vbbm (vbbm_clear cfg) n) (\<lambda>_ n. and_then (on_vss vss_clear n) (\<lambda>_ n. (n, Inr 0))))"

text \<open>\<^verbatim>\<open>checkConsistency\<close>, with the result of the check of the extent map.\<close>

definition wn_checkConsistency :: "(brm_error + int) \<Rightarrow> SlaveDBRMNode \<Rightarrow> brm_error + int" where
  "wn_checkConsistency em n =
     (case em of Inl err \<Rightarrow> (if err = Undefined then Inl Undefined else Inr (-1))
      | Inr _ \<Rightarrow>
        (case vss_checkConsistency (node_vbbm n, node_vss n) of Inl err \<Rightarrow> (if err = Undefined then Inl Undefined else Inr (-1))
         | Inr _ \<Rightarrow>
           (case vbbm_checkConsistency (node_vbbm n) of Inl err \<Rightarrow> (if err = Undefined then Inl Undefined else Inr (-1))
            | Inr _ \<Rightarrow> Inr 0)))"

end
