(* ===== verification/Worker_Versions.thy ===== *)
theory Worker_Versions
  imports Worker_Node
begin

text \<open>
  What the commands of a worker do to the versions of the blocks. A block has a current version and older ones in the
  version buffer; the VSS and the VBBM together say where each version is. The commands are shown to implement the
  functions on these versions, and to keep the VSS and the VBBM in agreement.
\<close>

section \<open>The versions of the blocks\<close>

text \<open>The rows of a block are dropped when none of them is in the version buffer or locked.\<close>

definition unpin :: "LBID_t \<Rightarrow> vss_row multiset \<Rightarrow> vss_row multiset" where
  "unpin l R = (if \<exists>v vb lk. (l, v, vb, lk) \<in># R \<and> (vb \<or> lk) then R else filter_mset (\<lambda>r. fst r \<noteq> l) R)"

lemma remove_rows_unpin: "remove_rows l r R = unpin l (R - {#r#})"
proof -
  have "(\<exists>(l', v, vb, lk) \<in># R'. l' = l \<and> (vb \<or> lk)) \<longleftrightarrow> (\<exists>v vb lk. (l, v, vb, lk) \<in># R' \<and> (vb \<or> lk))" for R' :: "vss_row multiset"
    by fastforce
  then show ?thesis by (simp add: remove_rows_def unpin_def Let_def)
qed

text \<open>
  The VSS and the VBBM agree: a version has one row; the version that is not in the version buffer is the newest one,
  and there is one for every block; the VBBM has exactly the versions that the VSS says are in the version buffer.
\<close>

definition versions_ok :: "vss_row multiset \<Rightarrow> vbbm_row multiset \<Rightarrow> bool" where
  "versions_ok V B \<longleftrightarrow> unique_keys V \<and> unique_keys B
     \<and> (\<forall>l v vb lk. (l, v, vb, lk) \<in># V \<longrightarrow> 0 \<le> l \<and> 0 \<le> v \<and> (lk \<longrightarrow> 0 < v))
     \<and> (\<forall>l v lk. (l, v, False, lk) \<in># V \<longrightarrow> 0 < v \<and> (\<forall>w vb lk'. (l, w, vb, lk') \<in># V \<longrightarrow> w \<le> v))
     \<and> (\<forall>l v lk. (l, v, True, lk) \<in># V \<longrightarrow> (\<exists>w lk'. (l, w, False, lk') \<in># V))
     \<and> (\<forall>l v. (\<exists>lk. (l, v, True, lk) \<in># V) \<longleftrightarrow> (\<exists>oid fbo. (l, v, oid, fbo) \<in># B))"

lemma versions_okD:
  assumes "versions_ok V B"
  shows "unique_keys V" "unique_keys B" "(l, v, vb, lk) \<in># V \<Longrightarrow> 0 \<le> l" "(l, v, vb, lk) \<in># V \<Longrightarrow> 0 \<le> v"
    "(l, v, False, lk) \<in># V \<Longrightarrow> 0 < v" "(l, v, False, lk) \<in># V \<Longrightarrow> (l, w, vb, lk') \<in># V \<Longrightarrow> w \<le> v"
    "(l, v, True, lk) \<in># V \<Longrightarrow> \<exists>w lk'. (l, w, False, lk') \<in># V"
    "(l, v, True, lk) \<in># V \<Longrightarrow> \<exists>oid fbo. (l, v, oid, fbo) \<in># B"
    "(l, v, oid, fbo) \<in># B \<Longrightarrow> \<exists>lk. (l, v, True, lk) \<in># V" "(l, v, vb, True) \<in># V \<Longrightarrow> 0 < v"
  using assms unfolding versions_ok_def by blast+

lemma unique_keys_mem_remove:
  assumes "unique_keys R" "(l, v, a) \<in># R"
  shows "(l', v', a') \<in># R - {#(l, v, a)#} \<longleftrightarrow> (l', v', a') \<in># R \<and> (l', v') \<noteq> (l, v)"
proof (cases "(l', v') = (l, v)")
  case True
  obtain R' where R: "R = add_mset (l, v, a) R'" using assms(2) by (blast dest: multi_member_split)
  have "(l, v, a') \<notin># R'"
  proof
    assume "(l, v, a') \<in># R'"
    then obtain R'' where "R' = add_mset (l, v, a') R''" by (blast dest: multi_member_split)
    then have "2 \<le> size {#r \<in># R. fst r = l \<and> fst (snd r) = v#}" by (simp add: R)
    moreover have "size {#r \<in># R. fst r = l \<and> fst (snd r) = v#} \<le> 1" using assms(1) unfolding unique_keys_def by blast
    ultimately show False by linarith
  qed
  with True R show ?thesis by auto
next
  case False
  then have "(l', v', a') \<noteq> (l, v, a)" by blast
  moreover obtain R' where "R = add_mset (l, v, a) R'" using assms(2) by (blast dest: multi_member_split)
  ultimately show ?thesis using False by auto
qed

lemma unique_keys_absent: "unique_keys R \<Longrightarrow> (l, v, a) \<in># R \<Longrightarrow> (l, v, x) \<notin># R - {#(l, v, a)#}"
  by (simp add: unique_keys_mem_remove)

lemma unique_keys_change:
  assumes "unique_keys R" "(l, v, a) \<in># R"
  shows "unique_keys (add_mset (l, v, b) (R - {#(l, v, a)#}))"
  by (rule unique_keys_insert) (use unique_keys_mono [OF assms(1)] unique_keys_absent [OF assms] in auto)

text \<open>A write by transaction \<open>txn\<close> of a block whose current version is \<open>old\<close> (\<open>0\<close> if it has none).\<close>

definition av_write :: "VER_t \<Rightarrow> LBID_t \<Rightarrow> VER_t \<Rightarrow> bool \<Rightarrow> OID_t \<Rightarrow> nat \<Rightarrow> vss_row multiset \<times> vbbm_row multiset \<Rightarrow> vss_row multiset \<times> vbbm_row multiset" where
  "av_write txn l old lk oid fbo VB =
     (add_mset (l, txn, False, True) (if 0 < old then add_mset (l, old, True, lk) (fst VB - {#(l, old, False, lk)#})
                                      else add_mset (l, 0, True, False) (fst VB)),
      add_mset (l, old, oid, fbo) (snd VB))"

definition av_current :: "LBID_t \<Rightarrow> VER_t \<Rightarrow> bool \<Rightarrow> vss_row multiset \<Rightarrow> bool" where
  "av_current l old lk V \<longleftrightarrow> (l, old, False, lk) \<in># V \<or> old = 0 \<and> \<not> lk \<and> (\<forall>v vb lk. (l, v, vb, lk) \<notin># V)"

lemma av_write_mem:
  assumes ok: "versions_ok V B" and cur: "av_current l old lk V" and lt: "old < txn"
  shows "(l', v', vb', lk') \<in># fst (av_write txn l old lk oid fbo (V, B)) \<longleftrightarrow>
      (l', v', vb', lk') = (l, txn, False, True) \<or> (l', v', vb', lk') = (l, old, True, lk)
      \<or> (l', v', vb', lk') \<in># V \<and> (l', v') \<noteq> (l, old)"
  using cur unfolding av_current_def
proof (elim disjE conjE)
  assume r: "(l, old, False, lk) \<in># V"
  have "0 < old" by (rule versions_okD(5) [OF ok r])
  then show ?thesis using unique_keys_mem_remove [OF versions_okD(1) [OF ok] r] by (auto simp: av_write_def)
next
  assume "old = 0" "\<not> lk" "\<forall>v vb lk. (l, v, vb, lk) \<notin># V"
  then show ?thesis by (auto simp: av_write_def)
qed

lemma av_write_ok:
  assumes ok: "versions_ok V B" and cur: "av_current l old lk V" and lt: "old < txn" and l: "0 \<le> l"
  shows "versions_ok (fst (av_write txn l old lk oid fbo (V, B))) (snd (av_write txn l old lk oid fbo (V, B)))"
proof -
  let ?V = "fst (av_write txn l old lk oid fbo (V, B))" and ?B = "snd (av_write txn l old lk oid fbo (V, B))"
  note mem = av_write_mem [OF ok cur lt, of _ _ _ _ oid fbo] and D = versions_okD [OF ok]
  have old: "0 \<le> old" "\<And>w vb k. (l, w, vb, k) \<in># V \<Longrightarrow> w \<le> old"
    using cur D(4,6) unfolding av_current_def by blast+
  have unf: "v = old" if "(l, v, False, k) \<in># V" for v k
    using cur that D(6) [OF that] unfolding av_current_def by (meson D(6) order.antisym)
  have lko: "lk \<Longrightarrow> 0 < old" using cur D(10) unfolding av_current_def by (cases lk) auto
  have noB: "(l, old, x) \<notin># B" for x
  proof
    assume "(l, old, x) \<in># B"
    then obtain k where "(l, old, True, k) \<in># V" using D(9) by (cases x) blast
    with cur D(1) show False unfolding av_current_def by (auto dest: unique_keys_eq)
  qed
  have memB: "(l', v', x) \<in># ?B \<longleftrightarrow> (l', v', x) = (l, old, oid, fbo) \<or> (l', v', x) \<in># B" for l' v' x
    by (auto simp: av_write_def)
  have nt: "(l, txn, x) \<notin># V" for x using old(2) lt by (cases x) fastforce
  have no: "(l, txn, x) \<notin># (if 0 < old then add_mset (l, old, True, lk) (V - {#(l, old, False, lk)#}) else add_mset (l, 0, True, False) V)" for x
    using nt [of x] lt old(1) by (auto dest: in_diffD)
  have uV: "unique_keys ?V"
    unfolding av_write_def fst_conv
  proof (rule unique_keys_insert [OF _ no])
    show "unique_keys (if 0 < old then add_mset (l, old, True, lk) (V - {#(l, old, False, lk)#}) else add_mset (l, 0, True, False) V)"
      using cur D(1) D(5) unique_keys_change [OF D(1)] unique_keys_insert [OF D(1)] unfolding av_current_def by fastforce
  qed
  have uB: "unique_keys ?B" unfolding av_write_def snd_conv by (rule unique_keys_insert [OF D(2) noB])
  show ?thesis unfolding versions_ok_def
  proof (intro conjI allI impI uV uB)
    fix l' v' vb' lk' assume "(l', v', vb', lk') \<in># ?V"
    then show "0 \<le> l'" "0 \<le> v'" using l old(1) lt D(3,4) unfolding mem by auto
  next
    fix l' v' vb' lk' assume "(l', v', vb', lk') \<in># ?V" "lk'"
    then show "0 < v'" using old(1) lt D(10) lko unfolding mem by auto
  next
    fix l' v' lk' assume c: "(l', v', False, lk') \<in># ?V"
    then show "0 < v'" using old(1) lt D(5) unfolding mem by auto
    fix w vb k assume "(l', w, vb, k) \<in># ?V"
    note m = this
    show "w \<le> v'"
    proof (cases "l' = l")
      case True
      with c have "v' = txn" unfolding mem using unf by auto
      moreover have "w \<le> txn" using m True old(2) [of w vb k] lt unfolding mem by auto
      ultimately show ?thesis by simp
    next
      case False
      then have "(l', v', False, lk') \<in># V" "(l', w, vb, k) \<in># V" using c m unfolding mem by auto
      then show ?thesis by (rule D(6))
    qed
  next
    fix l' v' lk' assume "(l', v', True, lk') \<in># ?V"
    then show "\<exists>w k. (l', w, False, k) \<in># ?V" using D(7) unfolding mem by (cases "l' = l") blast+
  next
    fix l' v'
    show "(\<exists>k. (l', v', True, k) \<in># ?V) \<longleftrightarrow> (\<exists>oid fbo. (l', v', oid, fbo) \<in># ?B)"
    proof (cases "(l', v') = (l, old)")
      case True
      then show ?thesis unfolding mem memB by blast
    next
      case False
      then have "(\<exists>k. (l', v', True, k) \<in># ?V) \<longleftrightarrow> (\<exists>k. (l', v', True, k) \<in># V)" unfolding mem using nt by auto
      also have "\<dots> \<longleftrightarrow> (\<exists>oid fbo. (l', v', oid, fbo) \<in># B)" using D(8,9) by blast
      also have "\<dots> \<longleftrightarrow> (\<exists>oid fbo. (l', v', oid, fbo) \<in># ?B)" unfolding memB using False by blast
      finally show ?thesis .
    qed
  qed
qed

text \<open>
  A rollback of a block that transaction \<open>txn\<close> has written: its version goes, and the newest version in the version
  buffer, if there is one, becomes the current one.
\<close>

definition av_previous :: "LBID_t \<Rightarrow> VER_t \<Rightarrow> bool \<Rightarrow> vss_row multiset \<Rightarrow> bool" where
  "av_previous l w lk V \<longleftrightarrow> (l, w, True, lk) \<in># V \<and> (\<forall>v k. (l, v, True, k) \<in># V \<longrightarrow> v \<le> w)"

definition av_rolled :: "VER_t \<Rightarrow> LBID_t \<Rightarrow> vss_row multiset \<times> vbbm_row multiset \<Rightarrow> vss_row multiset \<times> vbbm_row multiset \<Rightarrow> bool" where
  "av_rolled txn l VB VB' \<longleftrightarrow> (\<exists>lkt. (l, txn, False, lkt) \<in># fst VB \<and>
     ((\<exists>w lk oid fbo. av_previous l w lk (fst VB) \<and> (l, w, oid, fbo) \<in># snd VB
         \<and> fst VB' = unpin l (add_mset (l, w, False, lk) (fst VB - {#(l, w, True, lk)#}) - {#(l, txn, False, lkt)#})
         \<and> snd VB' = snd VB - {#(l, w, oid, fbo)#})
      \<or> (\<forall>v k. (l, v, True, k) \<notin># fst VB) \<and> fst VB' = unpin l (fst VB - {#(l, txn, False, lkt)#}) \<and> snd VB' = snd VB))"

lemma unpin_mem: "(l', v, vb, lk) \<in># unpin l R \<longleftrightarrow> (l', v, vb, lk) \<in># R \<and> (l' = l \<longrightarrow> (\<exists>v vb lk. (l, v, vb, lk) \<in># R \<and> (vb \<or> lk)))"
  by (auto simp: unpin_def)

lemma unpin_subset: "unpin l R \<subseteq># R"
  by (simp add: unpin_def)

lemma av_rolled_ok_aux:
  assumes ok: "versions_ok V B" and wV: "(l, w, True, lk) \<in># V" and b: "(l, w, oid, fbo) \<in># B" and wt: "w \<noteq> txn"
    and cur: "\<And>v k. (l, v, False, k) \<in># V \<Longrightarrow> v = txn"
    and M: "\<And>l' v vb k. (l', v, vb, k) \<in># M \<longleftrightarrow> (l', v, vb, k) = (l, w, False, lk) \<or> (l', v, vb, k) \<in># V \<and> (l', v) \<noteq> (l, w) \<and> (l', v) \<noteq> (l, txn)"
    and mV: "\<And>l' v vb k. (l', v, vb, k) \<in># V' \<longleftrightarrow> (l', v, vb, k) \<in># M \<and> (l' = l \<longrightarrow> (\<exists>v vb k. (l, v, vb, k) \<in># M \<and> (vb \<or> k)))"
    and mB: "\<And>l' v x. (l', v, x) \<in># B' \<longleftrightarrow> (l', v, x) \<in># B \<and> (l', v) \<noteq> (l, w)"
    and Ml: "\<And>v vb k. (l, v, vb, k) \<in># M \<Longrightarrow> (v, vb, k) = (w, False, lk) \<or> vb \<and> v < w"
    and u: "unique_keys V'" "unique_keys B'" and w0: "\<And>v vb k. (l, v, vb, k) \<in># V' \<Longrightarrow> 0 < w"
  shows "versions_ok V' B'"
proof -
  note D = versions_okD [OF ok]
  have other: "(l', v, vb, k) \<in># V' \<longleftrightarrow> (l', v, vb, k) \<in># V" if "l' \<noteq> l" for l' v vb k using that unfolding mV M by blast
  have here: "(v, vb, k) = (w, False, lk) \<or> vb \<and> v < w \<and> (l, v, vb, k) \<in># V" if "(l, v, vb, k) \<in># V'" for v vb k
  proof -
    have "(l, v, vb, k) \<in># M" using that unfolding mV by (rule conjunct1)
    from Ml [OF this] this show ?thesis unfolding M by auto
  qed
  have nt: "v \<noteq> txn" if "(l, v, True, k) \<in># V" for v k
  proof -
    from D(7) [OF that] obtain v' k' where v': "(l, v', False, k') \<in># V" by blast
    then have "v' = txn" by (rule cur)
    with v' that show ?thesis using unique_keys_eq [OF D(1)] by blast
  qed
  have keep: "(l, v, True, k) \<in># V' \<longleftrightarrow> (l, v, True, k) \<in># V \<and> v \<noteq> w" for v k
  proof -
    have "(l, v, True, k) \<in># M \<longleftrightarrow> (l, v, True, k) \<in># V \<and> v \<noteq> w"
      unfolding M using nt by auto
    then show ?thesis unfolding mV by auto
  qed
  show ?thesis unfolding versions_ok_def
  proof (intro conjI allI impI u)
    fix l' v vb k assume m: "(l', v, vb, k) \<in># V'"
    show "0 \<le> l'" using m other D(3) [OF wV] D(3) by (cases "l' = l") auto
    show "0 \<le> v"
    proof (cases "l' = l")
      case True
      then show ?thesis using m here [of v vb k] D(4) [OF wV] D(4) by auto
    next
      case False
      then show ?thesis using m other D(4) by auto
    qed
  next
    fix l' v vb k assume m: "(l', v, vb, k) \<in># V'" "k"
    show "0 < v"
    proof (cases "l' = l")
      case True
      then show ?thesis using m here [of v vb k] w0 D(10) by auto
    next
      case False
      then show ?thesis using m other D(10) by auto
    qed
  next
    fix l' v k assume m: "(l', v, False, k) \<in># V'"
    show "0 < v" using m other here [of v False k] D(5) w0 by (cases "l' = l") auto
    fix w' vb k' assume m': "(l', w', vb, k') \<in># V'"
    show "w' \<le> v"
    proof (cases "l' = l")
      case True
      then show ?thesis using here [of v False k] here [of w' vb k'] m m' by auto
    next
      case False
      then show ?thesis using m m' other D(6) by blast
    qed
  next
    fix l' v k assume m: "(l', v, True, k) \<in># V'"
    show "\<exists>w' k'. (l', w', False, k') \<in># V'"
    proof (cases "l' = l")
      case True
      have "(l, w, False, lk) \<in># V'" using m True unfolding mV M by blast
      with True show ?thesis by blast
    next
      case False
      then show ?thesis using m other D(7) by blast
    qed
  next
    fix l' v
    show "(\<exists>k. (l', v, True, k) \<in># V') \<longleftrightarrow> (\<exists>oid fbo. (l', v, oid, fbo) \<in># B')"
    proof (cases "l' = l")
      case True
      have "(\<exists>k. (l, v, True, k) \<in># V) \<longleftrightarrow> (\<exists>oid fbo. (l, v, oid, fbo) \<in># B)" using D(8,9) by blast
      with True show ?thesis unfolding True keep mB by auto
    next
      case False
      have "(\<exists>k. (l', v, True, k) \<in># V) \<longleftrightarrow> (\<exists>oid fbo. (l', v, oid, fbo) \<in># B)" using D(8,9) by blast
      with False show ?thesis unfolding other [OF False] mB by auto
    qed
  qed
qed

lemma av_rolled_ok:
  assumes ok: "versions_ok V B" and r: "av_rolled txn l (V, B) (V', B')"
  shows "versions_ok V' B'"
proof -
  note D = versions_okD [OF ok]
  from r obtain lkt where t: "(l, txn, False, lkt) \<in># V" and
    c: "(\<exists>w lk oid fbo. av_previous l w lk V \<and> (l, w, oid, fbo) \<in># B
         \<and> V' = unpin l (add_mset (l, w, False, lk) (V - {#(l, w, True, lk)#}) - {#(l, txn, False, lkt)#}) \<and> B' = B - {#(l, w, oid, fbo)#})
      \<or> (\<forall>v k. (l, v, True, k) \<notin># V) \<and> V' = unpin l (V - {#(l, txn, False, lkt)#}) \<and> B' = B"
    unfolding av_rolled_def fst_conv snd_conv by blast
  have cur: "v = txn" if "(l, v, False, k) \<in># V" for v k using D(6) [OF t that] D(6) [OF that t] by simp
  from c show ?thesis
  proof (elim disjE exE conjE)
    assume n: "\<forall>v k. (l, v, True, k) \<notin># V" and V': "V' = unpin l (V - {#(l, txn, False, lkt)#})" and B': "B' = B"
    have only: "v = txn" if "(l, v, vb, k) \<in># V" for v vb k using that n cur by (cases vb) auto
    have "(l', v, vb, lk) \<in># V' \<longleftrightarrow> (l', v, vb, lk) \<in># V \<and> l' \<noteq> l" for l' v vb lk
      unfolding V' unpin_mem unique_keys_mem_remove [OF D(1) t] using only by blast
    note mV = this
    have uV: "unique_keys V'" unfolding V' by (rule unique_keys_mono [OF D(1) subset_mset.trans [OF unpin_subset diff_subset_eq_self]])
    have noB: "(l, v, oid, fbo) \<notin># B" for v oid fbo using n D(9) by blast
    show ?thesis unfolding B' versions_ok_def
    proof (intro conjI uV D(2))
      show "\<forall>l' v. (\<exists>lk. (l', v, True, lk) \<in># V') \<longleftrightarrow> (\<exists>oid fbo. (l', v, oid, fbo) \<in># B)"
        using noB D(8,9) unfolding mV by metis
      show "\<forall>l v vb lk. (l, v, vb, lk) \<in># V' \<longrightarrow> 0 \<le> l \<and> 0 \<le> v \<and> (lk \<longrightarrow> 0 < v)" using D(3,4,10) unfolding mV by auto
      show "\<forall>l v lk. (l, v, False, lk) \<in># V' \<longrightarrow> 0 < v \<and> (\<forall>w vb lk'. (l, w, vb, lk') \<in># V' \<longrightarrow> w \<le> v)"
        using D(5,6) unfolding mV by blast
      show "\<forall>l v lk. (l, v, True, lk) \<in># V' \<longrightarrow> (\<exists>w lk'. (l, w, False, lk') \<in># V')" using D(7) unfolding mV by blast
    qed
  next
    fix w lk oid fbo
    assume w: "av_previous l w lk V" and b: "(l, w, oid, fbo) \<in># B"
      and V': "V' = unpin l (add_mset (l, w, False, lk) (V - {#(l, w, True, lk)#}) - {#(l, txn, False, lkt)#})"
      and B': "B' = B - {#(l, w, oid, fbo)#}"
    have wV: "(l, w, True, lk) \<in># V" and hi: "\<And>v k. (l, v, True, k) \<in># V \<Longrightarrow> v \<le> w" using w unfolding av_previous_def by blast+
    have wt: "w \<noteq> txn" using unique_keys_eq [OF D(1) t] wV by auto
    define M where "M = add_mset (l, w, False, lk) (V - {#(l, w, True, lk)#}) - {#(l, txn, False, lkt)#}"
    have uM0: "unique_keys (add_mset (l, w, False, lk) (V - {#(l, w, True, lk)#}))" by (rule unique_keys_change [OF D(1) wV])
    have t': "(l, txn, False, lkt) \<in># add_mset (l, w, False, lk) (V - {#(l, w, True, lk)#})"
      using t wt by (simp add: unique_keys_mem_remove [OF D(1) wV])
    have M: "(l', v, vb, k) \<in># M \<longleftrightarrow> (l', v, vb, k) = (l, w, False, lk) \<or> (l', v, vb, k) \<in># V \<and> (l', v) \<noteq> (l, w) \<and> (l', v) \<noteq> (l, txn)" for l' v vb k
      unfolding M_def unique_keys_mem_remove [OF uM0 t'] using wt by (auto simp: unique_keys_mem_remove [OF D(1) wV])
    have Ml: "(l, v, vb, k) \<in># M \<Longrightarrow> (v, vb, k) = (w, False, lk) \<or> vb \<and> v < w" for v vb k
      unfolding M using cur hi by (cases vb) force+
    have mB: "(l', v, x) \<in># B' \<longleftrightarrow> (l', v, x) \<in># B \<and> (l', v) \<noteq> (l, w)" for l' v x
      unfolding B' by (rule unique_keys_mem_remove [OF D(2) b])
    have uV: "unique_keys V'" unfolding V' M_def [symmetric]
      by (rule unique_keys_mono [OF uM0 subset_mset.trans [OF unpin_subset]]) (simp add: M_def)
    have uB: "unique_keys B'" unfolding B' by (rule unique_keys_mono [OF D(2) diff_subset_eq_self])
    have mV: "(l', v, vb, k) \<in># V' \<longleftrightarrow> (l', v, vb, k) \<in># M \<and> (l' = l \<longrightarrow> (\<exists>v vb k. (l, v, vb, k) \<in># M \<and> (vb \<or> k)))" for l' v vb k
      unfolding V' M_def [symmetric] unpin_mem ..
    have w0: "0 < w" if "(l, v, vb, k) \<in># V'" for v vb k
    proof -
      from that obtain v vb k where m: "(l, v, vb, k) \<in># M" "vb \<or> k" unfolding mV by blast
      from Ml [OF m(1)] show ?thesis
      proof (elim disjE)
        assume "(v, vb, k) = (w, False, lk)"
        with m(2) wV D(10) show ?thesis by auto
      next
        assume *: "vb \<and> v < w"
        with m(1) have "(l, v, vb, k) \<in># V" unfolding M by auto
        with D(4) * show ?thesis by fastforce
      qed
    qed
    show ?thesis by (rule av_rolled_ok_aux [OF ok wV b wt cur M mV mB Ml uV uB w0])
  qed
qed

section \<open>The commands on the versions\<close>

definition node_versions :: "SlaveDBRMNode \<Rightarrow> vss_row multiset \<times> vbbm_row multiset" where
  "node_versions n = (vss_abs (node_vss n), vbbm_abs (node_vbbm n))"

definition node_wf :: "SlaveDBRMNode \<Rightarrow> bool" where
  "node_wf n \<longleftrightarrow> vbbm_inv (node_vbbm n) \<and> vss_wf (node_vss n) \<and> cl_inv (node_cl n)"

definition node_ok :: "SlaveDBRMNode \<Rightarrow> bool" where
  "node_ok n \<longleftrightarrow> node_wf n \<and> versions_ok (fst (node_versions n)) (snd (node_versions n))"

text \<open>What the commands on versions leave alone.\<close>

definition same_rest :: "SlaveDBRMNode \<Rightarrow> SlaveDBRMNode \<Rightarrow> bool" where
  "same_rest n t \<longleftrightarrow> node_cl t = node_cl n \<and> vbbm_locked t = vbbm_locked n \<and> vss_locked t = vss_locked n \<and> cl_locked t = cl_locked n"

lemma same_rest_trans: "same_rest a b \<Longrightarrow> same_rest b c \<Longrightarrow> same_rest a c"
  by (simp add: same_rest_def)

lemma wn_currentVersion:
  assumes "node_ok n" "0 \<le> l"
  shows "\<exists>old lk. vss_getCurrentVersion (node_vss n) l = Some (old, lk) \<and> av_current l old lk (vss_abs (node_vss n))"
proof -
  have v: "vss_struct (node_vss n)" and ok: "versions_ok (vss_abs (node_vss n)) (vbbm_abs (node_vbbm n))"
    using assms(1) by (simp_all add: node_ok_def node_wf_def vss_wf_def node_versions_def)
  have l: "l \<noteq> -1" using assms(2) by simp
  have b: "r \<in> vss_block (node_vss n) l \<longleftrightarrow> r \<in># vss_abs (node_vss n)" if "fst r = l" for r using that by (simp add: vss_block_def)
  from vss_getCurrentVersion_struct [OF v l] show ?thesis
  proof (elim disjE exE conjE)
    fix old lk assume "(l, old, False, lk) \<in> vss_block (node_vss n) l" "vss_getCurrentVersion (node_vss n) l = Some (old, lk)"
    then show ?thesis by (auto simp: b av_current_def)
  next
    assume n: "\<forall>v lk. (l, v, False, lk) \<notin> vss_block (node_vss n) l" and g: "vss_getCurrentVersion (node_vss n) l = Some (0, False)"
    then have u: "(l, v, False, lk) \<notin># vss_abs (node_vss n)" for v lk using b by auto
    have "(l, v, vb, lk) \<notin># vss_abs (node_vss n)" for v vb lk 
    proof (cases vb)
      case True
      then show ?thesis using u versions_okD(7) [OF ok, of l v lk] by auto
    next
      case False
      then show ?thesis using u by simp
    qed
    with g show ?thesis by (auto simp: av_current_def)
  qed
qed

lemma wn_newVersion_flag:
  assumes n: "node_ok n" and cur: "av_current l old lk (vss_abs (node_vss n))" and l: "0 \<le> l"
  shows "\<exists>v. (if old > 0 then vss_setVBFlag l old True (node_vss n) else vss_insert l old True False False (node_vss n)) = (v, Inr ())
    \<and> vss_wf v \<and> vss_abs v = (if 0 < old then add_mset (l, old, True, lk) (vss_abs (node_vss n) - {#(l, old, False, lk)#})
        else add_mset (l, 0, True, False) (vss_abs (node_vss n)))"
proof -
  have wf: "vss_wf (node_vss n)" and ok: "versions_ok (vss_abs (node_vss n)) (vbbm_abs (node_vbbm n))"
    using n by (simp_all add: node_ok_def node_wf_def node_versions_def)
  show ?thesis
  proof (cases "0 < old")
    case True
    then have r: "(l, old, False, lk) \<in># vss_abs (node_vss n)" using cur by (auto simp: av_current_def)
    then have *: "(vb0, lk0) = (False, lk)" if "(l, old, vb0, lk0) \<in># vss_abs (node_vss n)" for vb0 lk0
      using unique_keys_eq [OF versions_okD(1) [OF ok] that r] by simp
    from vss_setVBFlag_wf [OF wf, of l old True] r obtain vb0 lk0 t where
      "(l, old, vb0, lk0) \<in># vss_abs (node_vss n)" "vss_setVBFlag l old True (node_vss n) = (t, Inr ())" "vss_wf t"
      "vss_abs t = add_mset (l, old, True, lk0) (vss_abs (node_vss n) - {#(l, old, vb0, lk0)#})" by blast
    with * True show ?thesis by fastforce
  next
    case False
    moreover have "0 \<le> old" using cur versions_okD(4) [OF ok] by (auto simp: av_current_def)
    ultimately have "old = 0" by simp
    with vss_insert_ok [OF wf, of l 0 True False False] l show ?thesis by auto
  qed
qed

lemma wn_newVersion_ok:
  assumes n: "node_ok n" and cur: "av_current l old lk (vss_abs (node_vss n))" and l: "0 \<le> l" and lt: "old < txn"
  shows "\<exists>t. wn_newVersion cfg txn l old oid fbo n = (t, Inr ()) \<and> node_ok t \<and> same_rest n t
    \<and> node_versions t = av_write txn l old lk oid fbo (node_versions n)"
proof -
  have wf: "vbbm_inv (node_vbbm n)" "cl_inv (node_cl n)" and ok: "versions_ok (vss_abs (node_vss n)) (vbbm_abs (node_vbbm n))"
    using n by (simp_all add: node_ok_def node_wf_def node_versions_def)
  have l': "l \<noteq> -1" using l by simp
  from vbbm_insert_ok [OF wf(1) l', of cfg old oid fbo False] obtain b where
    b: "vbbm_insert cfg l old oid fbo False (node_vbbm n) = (b, Inr ())" "vbbm_inv b" "vbbm_abs b = add_mset (l, old, oid, fbo) (vbbm_abs (node_vbbm n))"
    by blast
  from wn_newVersion_flag [OF n cur l] obtain v where
    v: "(if old > 0 then vss_setVBFlag l old True (node_vss n) else vss_insert l old True False False (node_vss n)) = (v, Inr ())" "vss_wf v"
      "vss_abs v = (if 0 < old then add_mset (l, old, True, lk) (vss_abs (node_vss n) - {#(l, old, False, lk)#})
        else add_mset (l, 0, True, False) (vss_abs (node_vss n)))" by blast
  from vss_insert_ok [OF v(2) l', of txn False True False] obtain u where
    u: "vss_insert l txn False True False v = (u, Inr ())" "vss_wf u" "vss_abs u = add_mset (l, txn, False, True) (vss_abs v)" by blast
  let ?n1 = "n\<lparr>node_vbbm := b\<rparr>" and ?t = "n\<lparr>node_vbbm := b, node_vss := u\<rparr>"
  have flag: "(if old > 0 then on_vss (vss_setVBFlag l old True) ?n1 else on_vss (vss_insert l old True False False) ?n1) = (?n1\<lparr>node_vss := v\<rparr>, Inr ())"
    using v(1) by (auto simp: on_vss_def)
  have "wn_newVersion cfg txn l old oid fbo n = (?t, Inr ())"
    unfolding wn_newVersion_def using b(1) by (simp add: on_vbbm_def flag) (simp add: on_vss_def u(1))
  moreover have vs: "node_versions ?t = av_write txn l old lk oid fbo (node_versions n)"
    by (simp add: node_versions_def av_write_def u(3) v(3) b(3))
  moreover have "node_ok ?t"
    using av_write_ok [OF ok cur lt l, of oid fbo] b(2) u(2) wf(2) vs by (simp add: node_ok_def node_wf_def node_versions_def)
  ultimately show ?thesis by (intro exI [of _ ?t]) (simp add: same_rest_def)
qed

lemma vbbm_removeEntry_row:
  assumes "vbbm_inv s" "(l, v, oid0, fbo0) \<in># vbbm_abs s"
  shows "\<exists>oid fbo t. vbbm_removeEntry l v s = (t, Inr ()) \<and> vbbm_inv t \<and> (l, v, oid, fbo) \<in># vbbm_abs s
    \<and> vbbm_abs t = vbbm_abs s - {#(l, v, oid, fbo)#}"
  using vbbm_removeEntry_cases [OF assms(1), of l v]
proof (elim disjE exE conjE)
  fix x t assume x: "x < length (vb_storage s)" "used (vb_storage s ! x)" "lbid (vb_storage s ! x) = l" "verID (vb_storage s ! x) = v"
    and t: "vbbm_removeEntry l v s = (t, Inr ())" "vbbm_inv t" "vbbm_abs t = vbbm_abs s - {#vbrow (vb_storage s ! x)#}"
  have r: "vbrow (vb_storage s ! x) = (l, v, vbOID (vb_storage s ! x), vbFBO (vb_storage s ! x))" by (simp add: vbrow_def x)
  moreover have "vbrow (vb_storage s ! x) \<in># vbbm_abs s" using x by (auto simp: mem_vbbm_abs)
  ultimately show ?thesis using t by auto
next
  assume "\<forall>i < length (vb_storage s). used (vb_storage s ! i) \<longrightarrow> \<not> (lbid (vb_storage s ! i) = l \<and> verID (vb_storage s ! i) = v)"
  with assms(2) show ?thesis by (fastforce simp: mem_vbbm_abs vbrow_def)
qed

lemma vss_removeEntry_row:
  assumes "vss_wf s" "l \<noteq> -1" "unique_keys (vss_abs s)" "(l, v, vb, lk) \<in># vss_abs s"
  shows "\<exists>t fl. vss_removeEntry l v s = (t, Inr fl) \<and> vss_wf t \<and> vss_abs t = unpin l (vss_abs s - {#(l, v, vb, lk)#})"
  using vss_removeEntry_wf [OF assms(1,2), of v]
proof (elim disjE exE conjE)
  fix vb' lk' t assume r: "(l, v, vb', lk') \<in># vss_abs s" and t: "vss_wf t" "vss_abs t = remove_rows l (l, v, vb', lk') (vss_abs s)"
    "vss_removeEntry l v s = (t, Inr (if \<exists>(l', v', vb'', lk'') \<in># vss_abs s - {#(l, v, vb', lk')#}. l' = l \<and> (vb'' \<or> lk'') then [] else [l]))"
  have "(vb', lk') = (vb, lk)" by (rule unique_keys_eq [OF assms(3) r assms(4)])
  with t show ?thesis by (simp add: remove_rows_unpin)
next
  assume "\<forall>vb lk. (l, v, vb, lk) \<notin># vss_abs s"
  with assms(4) show ?thesis by blast
qed

lemma vss_setVBFlag_row:
  assumes "vss_wf s" "unique_keys (vss_abs s)" "(l, v, vb, lk) \<in># vss_abs s"
  shows "\<exists>t. vss_setVBFlag l v vb' s = (t, Inr ()) \<and> vss_wf t \<and> vss_abs t = add_mset (l, v, vb', lk) (vss_abs s - {#(l, v, vb, lk)#})"
  using vss_setVBFlag_wf [OF assms(1), of l v vb']
proof (elim disjE exE conjE)
  fix vb0 lk0 t assume r: "(l, v, vb0, lk0) \<in># vss_abs s" and t: "vss_setVBFlag l v vb' s = (t, Inr ())" "vss_wf t"
    "vss_abs t = add_mset (l, v, vb', lk0) (vss_abs s - {#(l, v, vb0, lk0)#})"
  have "(vb0, lk0) = (vb, lk)" by (rule unique_keys_eq [OF assms(2) r assms(3)])
  with t show ?thesis by simp
next
  assume "\<forall>vb0 lk. (l, v, vb0, lk) \<notin># vss_abs s"
  with assms(3) show ?thesis by blast
qed

lemma wn_rollbackBlock_ok:
  assumes n: "node_ok n" and t: "(l, txn, False, lkt) \<in># vss_abs (node_vss n)"
  shows "\<exists>u fl. wn_rollbackBlock txn l n = (u, Inr fl) \<and> node_ok u \<and> same_rest n u \<and> av_rolled txn l (node_versions n) (node_versions u)"
proof -
  let ?V = "vss_abs (node_vss n)" and ?B = "vbbm_abs (node_vbbm n)"
  have wf: "vbbm_inv (node_vbbm n)" "vss_wf (node_vss n)" "cl_inv (node_cl n)" and ok: "versions_ok ?V ?B"
    using n by (simp_all add: node_ok_def node_wf_def node_versions_def)
  note D = versions_okD [OF ok]
  have l: "l \<noteq> -1" and S: "vss_struct (node_vss n)" using D(3) [OF t] wf(2) by (simp_all add: vss_wf_def)
  have fin: ?thesis if u: "wn_rollbackBlock txn l n = (n\<lparr>node_vbbm := b, node_vss := v\<rparr>, Inr fl)" "vbbm_inv b" "vss_wf v"
      "av_rolled txn l (?V, ?B) (vss_abs v, vbbm_abs b)" for b v fl
  proof -
    have "versions_ok (vss_abs v) (vbbm_abs b)" by (rule av_rolled_ok [OF ok u(4)])
    with u wf(3) show ?thesis
      by (intro exI [of _ "n\<lparr>node_vbbm := b, node_vss := v\<rparr>"] exI [of _ fl])
        (simp add: node_ok_def node_wf_def node_versions_def same_rest_def)
  qed
  from vss_getHighestVerInVB_struct [OF S l, of txn] obtain w where
    g: "vss_getHighestVerInVB (node_vss n) l txn = Some w" "w = -1 \<or> w \<le> txn \<and> (\<exists>lk. (l, w, True, lk) \<in> vss_block (node_vss n) l)"
      "\<forall>v lk. (l, v, True, lk) \<in> vss_block (node_vss n) l \<longrightarrow> v \<le> txn \<longrightarrow> v \<le> w" by blast
  have hi: "v \<le> w" if "(l, v, True, k) \<in># ?V" for v k using g(3) that D(6) [OF t that] by (auto simp: vss_block_def)
  show ?thesis
  proof (cases "w = -1")
    case True
    have none: "(l, v, True, k) \<notin># ?V" for v k using hi D(4) True by fastforce
    from vss_removeEntry_row [OF wf(2) l D(1) t] obtain v fl where
      v: "vss_removeEntry l txn (node_vss n) = (v, Inr fl)" "vss_wf v" "vss_abs v = unpin l (?V - {#(l, txn, False, lkt)#})" by blast
    have "wn_rollbackBlock txn l n = (n\<lparr>node_vbbm := node_vbbm n, node_vss := v\<rparr>, Inr fl)"
      by (simp add: wn_rollbackBlock_def g(1) True on_vss_def v(1))
    moreover have "av_rolled txn l (?V, ?B) (vss_abs v, ?B)"
      unfolding av_rolled_def fst_conv snd_conv v(3) using t none by blast
    ultimately show ?thesis by (rule fin [OF _ wf(1) v(2)])
  next
    case False
    with g(2) obtain lk where w: "(l, w, True, lk) \<in># ?V" by (auto simp: vss_block_def)
    then have prev: "av_previous l w lk ?V" using hi by (simp add: av_previous_def)
    from D(8) [OF w] vbbm_removeEntry_row [OF wf(1)] obtain oid fbo b where
      b: "vbbm_removeEntry l w (node_vbbm n) = (b, Inr ())" "vbbm_inv b" "(l, w, oid, fbo) \<in># ?B" "vbbm_abs b = ?B - {#(l, w, oid, fbo)#}" by blast
    from vss_setVBFlag_row [OF wf(2) D(1) w, of False] obtain v1 where
      v1: "vss_setVBFlag l w False (node_vss n) = (v1, Inr ())" "vss_wf v1" "vss_abs v1 = add_mset (l, w, False, lk) (?V - {#(l, w, True, lk)#})" by blast
    have u1: "unique_keys (vss_abs v1)" unfolding v1(3) by (rule unique_keys_change [OF D(1) w])
    have "txn \<noteq> w" using unique_keys_eq [OF D(1) t] w by auto
    then have t1: "(l, txn, False, lkt) \<in># vss_abs v1" unfolding v1(3) using t by (simp add: unique_keys_mem_remove [OF D(1) w])
    from vss_removeEntry_row [OF v1(2) l u1 t1] obtain v fl where
      v: "vss_removeEntry l txn v1 = (v, Inr fl)" "vss_wf v" "vss_abs v = unpin l (vss_abs v1 - {#(l, txn, False, lkt)#})" by blast
    have "wn_rollbackBlock txn l n = (n\<lparr>node_vbbm := b, node_vss := v\<rparr>, Inr fl)"
      by (simp add: wn_rollbackBlock_def g(1) False on_vbbm_def on_vss_def b(1) v1(1) v(1))
    moreover have "av_rolled txn l (?V, ?B) (vss_abs v, vbbm_abs b)"
      unfolding av_rolled_def fst_conv snd_conv using t prev b(3,4) v(3) [unfolded v1(3)] by blast
    ultimately show ?thesis by (rule fin [OF _ b(2) v(2)])
  qed
qed

end
