(* ===== verification/Worker_History.thy ===== *)
theory Worker_History
  imports Worker_Versions
begin

text \<open>
  Histories of a worker: the agreement of the VSS and the VBBM is kept by every command on versions, and a
  rollback takes the writes of a transaction back, block by block.
\<close>

section \<open>One block at a time\<close>

definition block :: "LBID_t \<Rightarrow> (LBID_t \<times> 'a) multiset \<Rightarrow> (LBID_t \<times> 'a) multiset" where
  "block l R = filter_mset (\<lambda>r. fst r = l) R"

lemma block_simps [simp]:
  "block l (add_mset (l', x) R) = (if l' = l then add_mset (l', x) (block l R) else block l R)"
  "block l (A - C) = block l A - block l C" "block l {#} = {#}" "block l (block l R) = block l R"
  "(l', x) \<in># block l R \<longleftrightarrow> (l', x) \<in># R \<and> l' = l"
  by (auto simp: block_def filter_filter_mset)

lemma block_ext:
  assumes "\<And>l. block l A = block l C"
  shows "A = C"
proof (rule multiset_eqI)
  fix x :: "LBID_t \<times> 'a"
  have "count (block (fst x) A) x = count (block (fst x) C) x" using assms by simp
  then show "count A x = count C x" by (simp add: block_def)
qed

lemma block_unpin: "block l (unpin l R) = unpin l (block l R)" "l' \<noteq> l \<Longrightarrow> block l' (unpin l R) = block l' R"
  by (auto simp: unpin_def block_def filter_filter_mset conj_commute intro: filter_mset_cong)

lemma block_av_write:
  "l' \<noteq> l \<Longrightarrow> block l' (fst (av_write txn l old lk oid fbo VB)) = block l' (fst VB)"
  "l' \<noteq> l \<Longrightarrow> block l' (snd (av_write txn l old lk oid fbo VB)) = block l' (snd VB)"
  "(block l (fst (av_write txn l old lk oid fbo VB)), block l (snd (av_write txn l old lk oid fbo VB)))
     = av_write txn l old lk oid fbo (block l (fst VB), block l (snd VB))"
  by (simp_all add: av_write_def)

lemma av_current_block: "av_current l old lk (block l V) = av_current l old lk V"
  by (simp add: av_current_def)

lemma av_previous_block: "av_previous l w lk (block l V) = av_previous l w lk V"
  by (simp add: av_previous_def)

lemma av_rolled_block:
  assumes "av_rolled txn l (V, B) (V', B')"
  shows "l' \<noteq> l \<Longrightarrow> block l' V' = block l' V \<and> block l' B' = block l' B"
    "av_rolled txn l (block l V, block l B) (block l V', block l B')"
proof -
  from assms obtain lkt where t: "(l, txn, False, lkt) \<in># V" and
    c: "(\<exists>w lk oid fbo. av_previous l w lk V \<and> (l, w, oid, fbo) \<in># B
         \<and> V' = unpin l (add_mset (l, w, False, lk) (V - {#(l, w, True, lk)#}) - {#(l, txn, False, lkt)#}) \<and> B' = B - {#(l, w, oid, fbo)#})
      \<or> (\<forall>v k. (l, v, True, k) \<notin># V) \<and> V' = unpin l (V - {#(l, txn, False, lkt)#}) \<and> B' = B"
    unfolding av_rolled_def fst_conv snd_conv by blast
  from c show "l' \<noteq> l \<Longrightarrow> block l' V' = block l' V \<and> block l' B' = block l' B"
    by (elim disjE exE conjE) (simp_all add: block_unpin(2))
  have t': "(l, txn, False, lkt) \<in># block l V" using t by simp
  from c show "av_rolled txn l (block l V, block l B) (block l V', block l B')"
  proof (elim disjE exE conjE)
    fix w lk oid fbo
    assume "av_previous l w lk V" "(l, w, oid, fbo) \<in># B"
      "V' = unpin l (add_mset (l, w, False, lk) (V - {#(l, w, True, lk)#}) - {#(l, txn, False, lkt)#})" "B' = B - {#(l, w, oid, fbo)#}"
    then have "av_previous l w lk (block l V)" "(l, w, oid, fbo) \<in># block l B"
      "block l V' = unpin l (add_mset (l, w, False, lk) (block l V - {#(l, w, True, lk)#}) - {#(l, txn, False, lkt)#})"
      "block l B' = block l B - {#(l, w, oid, fbo)#}"
      by (simp_all add: av_previous_block block_unpin(1))
    with t' show ?thesis unfolding av_rolled_def fst_conv snd_conv by blast
  next
    assume "\<forall>v k. (l, v, True, k) \<notin># V" "V' = unpin l (V - {#(l, txn, False, lkt)#})" "B' = B"
    then have "\<forall>v k. (l, v, True, k) \<notin># block l V" "block l V' = unpin l (block l V - {#(l, txn, False, lkt)#})" "block l B' = block l B"
      by (simp_all add: block_unpin(1))
    with t' show ?thesis unfolding av_rolled_def fst_conv snd_conv by blast
  qed
qed

text \<open>A rollback after a write gives the rows of the block back, or none when they are not needed any more.\<close>

lemma av_rolled_write:
  assumes ok: "versions_ok V B" and cur: "av_current l old lk V" and lt: "old < txn"
    and u: "unique_keys (fst (av_write txn l old lk oid fbo (V, B)))" "unique_keys (snd (av_write txn l old lk oid fbo (V, B)))"
    and r: "av_rolled txn l (av_write txn l old lk oid fbo (V, B)) (V', B')"
  shows "V' = unpin l V \<and> B' = B"
proof -
  let ?W = "av_write txn l old lk oid fbo (V, B)"
  note D = versions_okD [OF ok] and mem = av_write_mem [OF ok cur lt, of _ _ _ _ oid fbo]
  have prev: "(l, old, True, lk) \<in># fst ?W" and new: "(l, txn, False, True) \<in># fst ?W" unfolding mem by blast+
  have hi: "v \<le> old" if "(l, v, True, k) \<in># fst ?W" for v k
    using that cur D(6) lt unfolding mem av_current_def by auto
  from r obtain lkt where t: "(l, txn, False, lkt) \<in># fst ?W" and
    c: "(\<exists>w lk oid fbo. av_previous l w lk (fst ?W) \<and> (l, w, oid, fbo) \<in># snd ?W
         \<and> V' = unpin l (add_mset (l, w, False, lk) (fst ?W - {#(l, w, True, lk)#}) - {#(l, txn, False, lkt)#}) \<and> B' = snd ?W - {#(l, w, oid, fbo)#})
      \<or> (\<forall>v k. (l, v, True, k) \<notin># fst ?W)"
    unfolding av_rolled_def fst_conv snd_conv by blast
  have lkt: "lkt" using unique_keys_eq [OF u(1) t new] by simp
  from c prev obtain w lk' oid' fbo' where w: "av_previous l w lk' (fst ?W)" "(l, w, oid', fbo') \<in># snd ?W"
      "V' = unpin l (add_mset (l, w, False, lk') (fst ?W - {#(l, w, True, lk')#}) - {#(l, txn, False, lkt)#})" "B' = snd ?W - {#(l, w, oid', fbo')#}"
    by blast
  have wo: "w = old" using w(1) prev hi unfolding av_previous_def by (meson order.antisym)
  have lk': "lk' = lk" using w(1) unique_keys_eq [OF u(1) _ prev] unfolding av_previous_def wo by blast
  have "(l, old, oid, fbo) \<in># snd ?W" by (simp add: av_write_def)
  then have b: "(oid', fbo') = (oid, fbo)" using unique_keys_eq [OF u(2) w(2) [unfolded wo]] by blast
  have "B' = B" using w(4) b wo by (simp add: av_write_def)
  moreover have "V' = unpin l V"
  proof (cases "0 < old")
    case True
    with cur have m: "(l, old, False, lk) \<in># V" by (auto simp: av_current_def)
    have "fst ?W - {#(l, old, True, lk)#} = add_mset (l, txn, False, True) (V - {#(l, old, False, lk)#})"
      using True by (simp add: av_write_def)
    then show ?thesis using w(3) wo lk' lkt lt m by (simp add: diff_add_mset_swap)
  next
    case False
    with cur D(5) have n: "\<forall>v vb k. (l, v, vb, k) \<notin># V" "old = 0" "\<not> lk" unfolding av_current_def by auto
    have "fst ?W - {#(l, 0, True, False)#} = add_mset (l, txn, False, True) V" using n by (simp add: av_write_def)
    then have "V' = unpin l (add_mset (l, 0, False, False) V)" using w(3) wo lk' lkt n lt by simp
    then show ?thesis using n(1) by (auto simp: unpin_def)
  qed
  ultimately show ?thesis by simp
qed

lemma versions_ok_block:
  assumes "versions_ok V B"
  shows "versions_ok (block l V) (block l B)"
proof -
  note D = versions_okD [OF assms]
  have u: "unique_keys (block l V)" "unique_keys (block l B)"
    using unique_keys_mono [OF D(1)] unique_keys_mono [OF D(2)] by (simp_all add: block_def)
  note A = assms [unfolded versions_ok_def]
  show ?thesis unfolding versions_ok_def block_simps by (intro conjI u; (use A in blast))
qed

section \<open>Writes and rollbacks of many blocks\<close>

lemma wn_bulkWriteLoop_ok:
  assumes "node_ok n" "distinct ls" "i + length ls \<le> length fbos"
    and "\<forall>l \<in> set ls. 0 \<le> l \<and> (\<exists>old lk. av_current l old lk (fst (node_versions n)) \<and> old < txn)"
  shows "\<exists>t. wn_bulkWriteLoop cfg txn oid fbos ls i n = (t, Inr 0) \<and> node_ok t \<and> same_rest n t
    \<and> (\<forall>l. l \<notin> set ls \<longrightarrow> block l (fst (node_versions t)) = block l (fst (node_versions n)) \<and> block l (snd (node_versions t)) = block l (snd (node_versions n)))
    \<and> (\<forall>l \<in> set ls. \<exists>old lk fbo. av_current l old lk (fst (node_versions n)) \<and> old < txn
         \<and> (block l (fst (node_versions t)), block l (snd (node_versions t)))
             = av_write txn l old lk oid fbo (block l (fst (node_versions n)), block l (snd (node_versions n))))"
  using assms
proof (induction ls arbitrary: i n)
  case Nil
  then show ?case by (simp add: same_rest_def)
next
  case (Cons l ls)
  have l: "0 \<le> l" and i: "i < length fbos" using Cons.prems by auto
  from wn_currentVersion [OF Cons.prems(1) l] obtain old lk where
    c: "vss_getCurrentVersion (node_vss n) l = Some (old, lk)" "av_current l old lk (fst (node_versions n))" by (auto simp: node_versions_def)
  have ok: "versions_ok (fst (node_versions n)) (snd (node_versions n))" using Cons.prems(1) by (simp add: node_ok_def)
  from Cons.prems(4) obtain old' lk' where c': "av_current l old' lk' (fst (node_versions n))" "old' < txn" by auto
  have lt: "old < txn" using c(2) c' versions_okD(6) [OF ok] unfolding av_current_def by fastforce
  from wn_newVersion_ok [OF Cons.prems(1) _ l lt, of lk cfg oid "fbos ! i"] c(2) obtain u where
    u: "wn_newVersion cfg txn l old oid (fbos ! i) n = (u, Inr ())" "node_ok u" "same_rest n u"
      "node_versions u = av_write txn l old lk oid (fbos ! i) (node_versions n)" by (auto simp: node_versions_def)
  have o: "block l' (fst (node_versions u)) = block l' (fst (node_versions n))" "block l' (snd (node_versions u)) = block l' (snd (node_versions n))"
    if "l' \<noteq> l" for l' using that by (simp_all add: u(4) block_av_write(1,2))
  have cu: "av_current l' x k (fst (node_versions u)) = av_current l' x k (fst (node_versions n))" if "l' \<noteq> l" for l' x k
    using o(1) [OF that] av_current_block [of l' x k] by metis
  have "\<forall>l \<in> set ls. 0 \<le> l \<and> (\<exists>old lk. av_current l old lk (fst (node_versions u)) \<and> old < txn)"
    using Cons.prems(2,4) cu by (metis distinct.simps(2) list.set_intros(2))
  from Cons.IH [OF u(2) _ _ this, of "Suc i"] Cons.prems(2,3) obtain t where
    t: "wn_bulkWriteLoop cfg txn oid fbos ls (Suc i) u = (t, Inr 0)" "node_ok t" "same_rest u t"
      "\<forall>l. l \<notin> set ls \<longrightarrow> block l (fst (node_versions t)) = block l (fst (node_versions u)) \<and> block l (snd (node_versions t)) = block l (snd (node_versions u))"
      "\<forall>l \<in> set ls. \<exists>old lk fbo. av_current l old lk (fst (node_versions u)) \<and> old < txn
         \<and> (block l (fst (node_versions t)), block l (snd (node_versions t)))
             = av_write txn l old lk oid fbo (block l (fst (node_versions u)), block l (snd (node_versions u)))" by auto
  have "wn_bulkWriteLoop cfg txn oid fbos (l # ls) i n = (t, Inr 0)" using c(1) lt i u(1) t(1) by simp
  moreover have "\<forall>l'. l' \<notin> set (l # ls) \<longrightarrow> block l' (fst (node_versions t)) = block l' (fst (node_versions n)) \<and> block l' (snd (node_versions t)) = block l' (snd (node_versions n))"
    using t(4) o by auto
  moreover have "\<forall>l' \<in> set (l # ls). \<exists>old lk fbo. av_current l' old lk (fst (node_versions n)) \<and> old < txn
         \<and> (block l' (fst (node_versions t)), block l' (snd (node_versions t)))
             = av_write txn l' old lk oid fbo (block l' (fst (node_versions n)), block l' (snd (node_versions n)))"
  proof
    fix l' assume l': "l' \<in> set (l # ls)"
    show "\<exists>old lk fbo. av_current l' old lk (fst (node_versions n)) \<and> old < txn \<and> (block l' (fst (node_versions t)), block l' (snd (node_versions t)))
             = av_write txn l' old lk oid fbo (block l' (fst (node_versions n)), block l' (snd (node_versions n)))"
    proof (cases "l' = l")
      case True
      then have "(block l (fst (node_versions t)), block l (snd (node_versions t))) = av_write txn l old lk oid (fbos ! i) (block l (fst (node_versions n)), block l (snd (node_versions n)))"
        using t(4) Cons.prems(2) block_av_write(3) [of l txn old lk oid "fbos ! i" "node_versions n"] by (simp add: u(4))
      with True c(2) lt show ?thesis by blast
    next
      case False
      then have "l' \<in> set ls" using l' by simp
      from t(5) [rule_format, OF this] show ?thesis unfolding cu [OF False] o [OF False] .
    qed
  qed
  ultimately show ?case using t(2) same_rest_trans [OF u(3) t(3)] by blast
qed

lemma wn_rollbackLoop_ok:
  assumes "node_ok n" "distinct ls" "\<forall>l \<in> set ls. \<exists>lk. (l, txn, False, lk) \<in># fst (node_versions n)"
  shows "\<exists>t fl'. wn_rollbackLoop txn ls fl n = (t, Inr fl') \<and> node_ok t \<and> same_rest n t
    \<and> (\<forall>l. l \<notin> set ls \<longrightarrow> block l (fst (node_versions t)) = block l (fst (node_versions n)) \<and> block l (snd (node_versions t)) = block l (snd (node_versions n)))
    \<and> (\<forall>l \<in> set ls. av_rolled txn l (block l (fst (node_versions n)), block l (snd (node_versions n)))
         (block l (fst (node_versions t)), block l (snd (node_versions t))))"
  using assms
proof (induction ls arbitrary: fl n)
  case Nil
  then show ?case by (simp add: same_rest_def)
next
  case (Cons l ls)
  from Cons.prems(3) obtain lkt where "(l, txn, False, lkt) \<in># vss_abs (node_vss n)" by (auto simp: node_versions_def)
  from wn_rollbackBlock_ok [OF Cons.prems(1) this] obtain u f where
    u: "wn_rollbackBlock txn l n = (u, Inr f)" "node_ok u" "same_rest n u" "av_rolled txn l (node_versions n) (node_versions u)" by blast
  note R = av_rolled_block [of txn l "fst (node_versions n)" "snd (node_versions n)" "fst (node_versions u)" "snd (node_versions u)", unfolded prod.collapse, OF u(4)]
  have o: "block l' (fst (node_versions u)) = block l' (fst (node_versions n))" "block l' (snd (node_versions u)) = block l' (snd (node_versions n))"
    if "l' \<noteq> l" for l' using R(1) [OF that] by blast+
  have "(l', x) \<in># fst (node_versions u)" if "(l', x) \<in># fst (node_versions n)" "l' \<noteq> l" for l' x
    using that(1) o(1) [OF that(2)] block_simps(5) [of l' x l'] by metis
  then have "\<forall>l \<in> set ls. \<exists>lk. (l, txn, False, lk) \<in># fst (node_versions u)" using Cons.prems(2,3) by (metis distinct.simps(2) list.set_intros(2))
  from Cons.IH [OF u(2) _ this, of "fl @ f"] Cons.prems(2) obtain t fl' where
    t: "wn_rollbackLoop txn ls (fl @ f) u = (t, Inr fl')" "node_ok t" "same_rest u t"
      "\<forall>l. l \<notin> set ls \<longrightarrow> block l (fst (node_versions t)) = block l (fst (node_versions u)) \<and> block l (snd (node_versions t)) = block l (snd (node_versions u))"
      "\<forall>l \<in> set ls. av_rolled txn l (block l (fst (node_versions u)), block l (snd (node_versions u)))
         (block l (fst (node_versions t)), block l (snd (node_versions t)))" by auto
  have "wn_rollbackLoop txn (l # ls) fl n = (t, Inr fl')" using u(1) t(1) by simp
  moreover have "\<forall>l'. l' \<notin> set (l # ls) \<longrightarrow> block l' (fst (node_versions t)) = block l' (fst (node_versions n)) \<and> block l' (snd (node_versions t)) = block l' (snd (node_versions n))"
    using t(4) o by auto
  moreover have "av_rolled txn l' (block l' (fst (node_versions n)), block l' (snd (node_versions n))) (block l' (fst (node_versions t)), block l' (snd (node_versions t)))"
    if "l' \<in> set (l # ls)" for l'
    using that R(2) t(4,5) o [of l'] Cons.prems(2) by (cases "l' = l") auto
  ultimately show ?case using t(2) same_rest_trans [OF u(3) t(3)] by blast
qed

end
