(* ===== verification/Worker_Contract.thy ===== *)
theory Worker_Contract
  imports Worker_History
begin

text \<open>What a worker promises about versions: the effect of a write, what the commands keep, and the round trip of a rollback.\<close>

section \<open>Effects of the commands\<close>

lemma node_locks_irrelevant [simp]:
  "node_ok (n\<lparr>vbbm_locked := a\<rparr>) = node_ok n" "node_ok (n\<lparr>vss_locked := a\<rparr>) = node_ok n" "node_ok (n\<lparr>cl_locked := a\<rparr>) = node_ok n"
  "node_versions (n\<lparr>vbbm_locked := a\<rparr>) = node_versions n" "node_versions (n\<lparr>vss_locked := a\<rparr>) = node_versions n"
  "node_versions (n\<lparr>cl_locked := a\<rparr>) = node_versions n" "node_versions (n\<lparr>node_cl := c\<rparr>) = node_versions n"
  by (simp_all add: node_ok_def node_wf_def node_versions_def)

lemma node_catch_Inr [simp]: "node_catch a (n, Inr r) = (n, Inr r)"
  by (simp add: node_catch_def)

lemma wn_writeVBEntry_cases:
  assumes "node_ok n" "0 \<le> l"
  shows "\<exists>old lk t code. av_current l old lk (fst (node_versions n)) \<and> wn_writeVBEntry cfg txn l oid fbo n = (t, Inr code)
    \<and> node_ok t \<and> node_cl t = node_cl n \<and> vbbm_locked t \<and> vss_locked t
    \<and> (if old < txn then code = 0 \<and> node_versions t = av_write txn l old lk oid fbo (node_versions n)
       else code = (if old = txn then 0 else ERR_OLDTXN_OVERWRITING_NEWTXN) \<and> node_versions t = node_versions n)"
proof -
  let ?n = "n\<lparr>vbbm_locked := True, vss_locked := True\<rparr>"
  from wn_currentVersion [OF assms] obtain old lk where
    c: "vss_getCurrentVersion (node_vss n) l = Some (old, lk)" "av_current l old lk (fst (node_versions n))" by (auto simp: node_versions_def)
  show ?thesis
  proof (cases "old < txn")
    case True
    have "node_ok ?n" using assms(1) by simp
    from wn_newVersion_ok [OF this _ assms(2) True, of lk cfg oid fbo] c(2) obtain t where
      t: "wn_newVersion cfg txn l old oid fbo ?n = (t, Inr ())" "node_ok t" "same_rest ?n t"
        "node_versions t = av_write txn l old lk oid fbo (node_versions n)" by (auto simp: node_versions_def)
    have "wn_writeVBEntry cfg txn l oid fbo n = (t, Inr 0)" using c(1) True t(1) by (simp add: wn_writeVBEntry_def Let_def)
    with t c(2) True show ?thesis by (intro exI [of _ old] exI [of _ lk] exI [of _ t] exI [of _ 0]) (simp add: same_rest_def)
  next
    case False
    then have "wn_writeVBEntry cfg txn l oid fbo n = (?n, Inr (if old = txn then 0 else ERR_OLDTXN_OVERWRITING_NEWTXN))"
      using c(1) by (simp add: wn_writeVBEntry_def Let_def)
    with False c(2) assms(1) show ?thesis by (intro exI [of _ old] exI [of _ lk] exI [of _ ?n] exI) auto
  qed
qed

text \<open>
  C14. \<^verbatim>\<open>writeVBEntry\<close> on a consistent worker. A block whose current version is older than the transaction: the version moves
  to the version buffer at the given place, the transaction's version becomes the current one, locked, and the result is \<open>0\<close>. A
  block the transaction has already written is left alone with result \<open>0\<close>; a block with a newer version is left alone with
  \<^verbatim>\<open>ERR_OLDTXN_OVERWRITING_NEWTXN\<close>. The VSS and the VBBM agree afterwards.
\<close>

theorem wn_writeVBEntry_versions:
  assumes "node_ok n" "0 \<le> l"
  shows "\<exists>old lk t code. av_current l old lk (fst (node_versions n)) \<and> wn_writeVBEntry cfg txn l oid fbo n = (t, Inr code)
    \<and> node_ok t \<and> node_cl t = node_cl n
    \<and> (if old < txn then code = 0 \<and> node_versions t = av_write txn l old lk oid fbo (node_versions n)
       else code = (if old = txn then 0 else ERR_OLDTXN_OVERWRITING_NEWTXN) \<and> node_versions t = node_versions n)"
  using wn_writeVBEntry_cases [OF assms, of cfg txn oid fbo] by blast

definition node_ex :: SlaveDBRMNode where
  "node_ex = \<lparr>node_vbbm = fst (vbbm_removeEntry 20 2 vbbm_ex), node_vss = vss_ex, node_cl = cl_ex,
     vbbm_locked = False, vss_locked = False, cl_locked = False\<rparr>"

lemma node_ex_versions: "node_versions node_ex = ({#(10, 5, False, False), (10, 3, True, False), (20, 7, False, True)#}, {#(10, 3, 7, 50)#})"
  and node_ex_ok: "node_ok node_ex"
proof -
  have "(20, 2, 7, 150) \<in># vbbm_abs vbbm_ex" by (simp add: vbbm_ex_abs)
  from vbbm_removeEntry_row [OF vbbm_ex_inv this] obtain b where
    b: "vbbm_removeEntry 20 2 vbbm_ex = (b, Inr ())" "vbbm_inv b" "vbbm_abs b = {#(10, 3, 7, 50)#}" by (auto simp: vbbm_ex_abs)
  then show v: "node_versions node_ex = ({#(10, 5, False, False), (10, 3, True, False), (20, 7, False, True)#}, {#(10, 3, 7, 50)#})"
    by (simp add: node_versions_def node_ex_def vss_ex_abs)
  have "versions_ok {#(10, 5, False, False), (10, 3, True, False), (20, 7, False, True)#} {#(10, 3, 7, 50)#}"
    unfolding versions_ok_def by (intro conjI) (auto simp: unique_keys_def)
  with b v show "node_ok node_ex"
    by (simp add: node_ok_def node_wf_def) (simp add: node_ex_def vss_ex_wf cl_ex_inv)
qed

theorem wn_writeVBEntry_versions_witness:
  "\<exists>t. wn_writeVBEntry None 8 10 7 51 node_ex = (t, Inr 0) \<and> node_ok t
     \<and> node_versions t = ({#(10, 8, False, True), (10, 5, True, False), (10, 3, True, False), (20, 7, False, True)#},
         {#(10, 5, 7, 51), (10, 3, 7, 50)#})"
proof -
  from wn_writeVBEntry_versions [OF node_ex_ok, of 10 None 8 7 51] obtain old lk t code where
    t: "av_current 10 old lk (fst (node_versions node_ex))" "wn_writeVBEntry None 8 10 7 51 node_ex = (t, Inr code)" "node_ok t"
      "if old < 8 then code = 0 \<and> node_versions t = av_write 8 10 old lk 7 51 (node_versions node_ex)
       else code = (if old = 8 then 0 else ERR_OLDTXN_OVERWRITING_NEWTXN) \<and> node_versions t = node_versions node_ex" by auto
  have "old = 5 \<and> \<not> lk" using t(1) by (auto simp: av_current_def node_ex_versions)
  with t(2-4) show ?thesis by (simp add: av_write_def node_ex_versions)
qed

section \<open>What the commands keep\<close>

lemma versions_ok_commit:
  assumes "versions_ok V B"
  shows "versions_ok (image_mset (commit_row txn) V) B"
proof -
  note D = versions_okD [OF assms]
  have m: "(l, v, vb, lk) \<in># image_mset (commit_row txn) V \<longleftrightarrow> (\<exists>k. (l, v, vb, k) \<in># V \<and> lk = (k \<and> v \<noteq> txn))" for l v vb lk
    unfolding set_image_mset image_iff Bex_def split_paired_Ex commit_row.simps prod.inject by blast
  have f: "{#r \<in># image_mset (commit_row txn) V. fst r = l \<and> fst (snd r) = v#} = image_mset (commit_row txn) {#r \<in># V. fst r = l \<and> fst (snd r) = v#}" for l v
  proof -
    have "(fst (commit_row txn r) = l \<and> fst (snd (commit_row txn r)) = v) = (fst r = l \<and> fst (snd r) = v)" for r
      by (cases r) simp
    then show ?thesis by (simp add: filter_mset_image_mset)
  qed
  have u: "unique_keys (image_mset (commit_row txn) V)" using D(1) unfolding unique_keys_def f size_image_mset .
  show ?thesis unfolding versions_ok_def
  proof (intro conjI u D(2))
    show "\<forall>l v. (\<exists>lk. (l, v, True, lk) \<in># image_mset (commit_row txn) V) \<longleftrightarrow> (\<exists>oid fbo. (l, v, oid, fbo) \<in># B)"
      unfolding m using D(8,9) by blast
    show "\<forall>l v vb lk. (l, v, vb, lk) \<in># image_mset (commit_row txn) V \<longrightarrow> 0 \<le> l \<and> 0 \<le> v \<and> (lk \<longrightarrow> 0 < v)"
      unfolding m using D(3,4,10) by auto
    show "\<forall>l v lk. (l, v, False, lk) \<in># image_mset (commit_row txn) V \<longrightarrow> 0 < v \<and> (\<forall>w vb lk'. (l, w, vb, lk') \<in># image_mset (commit_row txn) V \<longrightarrow> w \<le> v)"
      unfolding m using D(5,6) by blast
    show "\<forall>l v lk. (l, v, True, lk) \<in># image_mset (commit_row txn) V \<longrightarrow> (\<exists>w lk'. (l, w, False, lk') \<in># image_mset (commit_row txn) V)"
      unfolding m using D(7) by blast
  qed
qed

lemma wn_vbCommit_ok:
  assumes "node_ok n"
  shows "node_ok (fst (wn_vbCommit txn n))"
  using assms vss_commit_wf [of "node_vss n" txn] versions_ok_commit
  by (simp add: wn_vbCommit_def node_ok_def node_wf_def node_versions_def)

lemma wn_bulkWriteLoop_keeps:
  assumes "node_ok n" "\<forall>l \<in> set ls. 0 \<le> l" "i + length ls \<le> length fbos"
  shows "\<exists>t code. wn_bulkWriteLoop cfg txn oid fbos ls i n = (t, Inr code) \<and> node_ok t \<and> same_rest n t \<and> code \<in> {0, ERR_OLDTXN_OVERWRITING_NEWTXN}"
  using assms
proof (induction ls arbitrary: i n)
  case Nil
  then show ?case by (simp add: same_rest_def)
next
  case (Cons l ls)
  from wn_currentVersion [OF Cons.prems(1), of l] Cons.prems(2) obtain old lk where
    c: "vss_getCurrentVersion (node_vss n) l = Some (old, lk)" "av_current l old lk (vss_abs (node_vss n))" by auto
  have len: "Suc i + length ls \<le> length fbos" "i < length fbos" and ls: "\<forall>l \<in> set ls. 0 \<le> l" using Cons.prems by simp_all
  consider "old = txn" | "old > txn" | "old < txn" by linarith
  then show ?case
  proof cases
    case 1
    with c Cons.IH [OF Cons.prems(1) ls len(1)] show ?thesis by simp
  next
    case 2
    with c Cons.prems(1) show ?thesis by (simp add: same_rest_def)
  next
    case 3
    from wn_newVersion_ok [OF Cons.prems(1) c(2) _ 3, of cfg oid "fbos ! i"] Cons.prems(2) obtain u where
      u: "wn_newVersion cfg txn l old oid (fbos ! i) n = (u, Inr ())" "node_ok u" "same_rest n u" by auto
    from Cons.IH [OF u(2) ls len(1)] obtain t code where
      "wn_bulkWriteLoop cfg txn oid fbos ls (Suc i) u = (t, Inr code)" "node_ok t" "same_rest u t" "code \<in> {0, ERR_OLDTXN_OVERWRITING_NEWTXN}" by blast
    with 3 c u len(2) same_rest_trans [OF u(3)] show ?thesis by simp
  qed
qed

lemma wn_releaseRanges_ok:
  assumes "node_ok n"
  shows "node_ok (fst (wn_releaseRanges ranges n))"
proof -
  have "cl_inv (fold cl_releaseRange ranges c)" if "cl_inv c" for c
    using that by (induction ranges arbitrary: c) (simp_all add: cl_table.releaseRange_inv)
  with assms show ?thesis by (simp add: wn_releaseRanges_def node_ok_def node_wf_def node_versions_def)
qed

lemma wn_vbRollback_ok:
  assumes "node_ok n" "distinct ls" "\<forall>l \<in> set ls. \<exists>lk. (l, txn, False, lk) \<in># fst (node_versions n)"
  shows "\<exists>t fl. wn_vbRollback txn ls flush n = (t, Inr (0, fl)) \<and> node_ok t \<and> node_cl t = cl_rollback txn (node_cl n)
    \<and> (\<forall>l. l \<notin> set ls \<longrightarrow> block l (fst (node_versions t)) = block l (fst (node_versions n)) \<and> block l (snd (node_versions t)) = block l (snd (node_versions n)))
    \<and> (\<forall>l \<in> set ls. av_rolled txn l (block l (fst (node_versions n)), block l (snd (node_versions n)))
         (block l (fst (node_versions t)), block l (snd (node_versions t))))"
proof -
  let ?n = "n\<lparr>vbbm_locked := True, vss_locked := True, cl_locked := True\<rparr>"
  let ?m = "?n\<lparr>node_cl := cl_rollback txn (node_cl ?n)\<rparr>"
  have "node_ok ?m" using assms(1) cl_rollback_locks(1) by (simp add: node_ok_def node_wf_def node_versions_def)
  moreover have v: "node_versions ?m = node_versions n" by (simp add: node_versions_def)
  ultimately obtain t fl where t: "wn_rollbackLoop txn ls [] ?m = (t, Inr fl)" "node_ok t" "same_rest ?m t"
    "\<forall>l. l \<notin> set ls \<longrightarrow> block l (fst (node_versions t)) = block l (fst (node_versions n)) \<and> block l (snd (node_versions t)) = block l (snd (node_versions n))"
    "\<forall>l \<in> set ls. av_rolled txn l (block l (fst (node_versions n)), block l (snd (node_versions n)))
         (block l (fst (node_versions t)), block l (snd (node_versions t)))"
    using wn_rollbackLoop_ok [of ?m ls txn "[]"] assms(2,3) unfolding v by blast
  have "wn_vbRollback txn ls flush n = (t, Inr (0, if flush then fl else []))"
    using t(1) by (simp add: wn_vbRollback_def Let_def)
  with t show ?thesis by (auto simp: same_rest_def)
qed

lemma wn_confirmChanges_ok:
  assumes "node_ok n"
  shows "node_ok (wn_confirmChanges n)"
proof -
  have b: "vbbm_inv (vbbm_confirmChanges s) = vbbm_inv s" "vbbm_abs (vbbm_confirmChanges s) = vbbm_abs s" for s
    by (simp_all add: vbbm_confirmChanges_def vbbm_inv_def vbbm_struct_def vbbm_count_def vbbm_abs_def)
  have "vss_wf (vss_confirmChanges s) = vss_wf s" "vss_abs (vss_confirmChanges s) = vss_abs s" for s
    by (simp_all add: vss_confirmChanges_def)
  moreover have "cl_inv (cl_confirmChanges c) = cl_inv c" for c by (simp add: cl_confirmChanges_def cl_inv_def)
  ultimately show ?thesis using assms by (simp add: wn_confirmChanges_def Let_def node_ok_def node_wf_def node_versions_def b)
qed

text \<open>
  C3. A transaction that writes a list of blocks with \<^verbatim>\<open>bulkWriteVBEntry\<close> and is rolled back leaves no trace: both calls return
  \<open>0\<close>, the VBBM has exactly the entries it had, every other block has exactly its rows, and each of the written
  blocks has its rows back, unless none of them is in the version buffer or locked, in which case the VSS does not keep
  them. The copy locks of the transaction are gone.
\<close>

theorem wn_rollback_restores:
  assumes "node_ok n" "distinct ls" "length ls \<le> length fbos" "distinct ls'" "set ls' = set ls"
    and "\<forall>l \<in> set ls. 0 \<le> l \<and> (\<exists>old lk. vss_getCurrentVersion (node_vss n) l = Some (old, lk) \<and> old < txn)"
  shows "\<exists>t u fl. wn_bulkWriteVBEntry cfg txn ls oid fbos n = (t, Inr 0) \<and> wn_vbRollback txn ls' flush t = (u, Inr (0, fl)) \<and> node_ok u
    \<and> vbbm_abs (node_vbbm u) = vbbm_abs (node_vbbm n) \<and> node_cl u = cl_rollback txn (node_cl n)
    \<and> (\<forall>l. block l (vss_abs (node_vss u)) = (if l \<in> set ls then unpin l (block l (vss_abs (node_vss n))) else block l (vss_abs (node_vss n))))"
proof -
  let ?n = "n\<lparr>vbbm_locked := True, vss_locked := True\<rparr>"
  let ?V = "fst (node_versions n)" and ?B = "snd (node_versions n)"
  have ok: "versions_ok ?V ?B" using assms(1) by (simp add: node_ok_def)
  have cur: "0 \<le> l \<and> (\<exists>old lk. av_current l old lk ?V \<and> old < txn)" if "l \<in> set ls" for l
    using wn_currentVersion [OF assms(1), of l] assms(6) that by (fastforce simp: node_versions_def)
  from wn_bulkWriteLoop_ok [of ?n ls 0 fbos txn cfg oid] assms(1-3) cur obtain t where
    t: "wn_bulkWriteLoop cfg txn oid fbos ls 0 ?n = (t, Inr 0)" "node_ok t" "same_rest ?n t"
      "\<forall>l. l \<notin> set ls \<longrightarrow> block l (fst (node_versions t)) = block l ?V \<and> block l (snd (node_versions t)) = block l ?B"
      "\<forall>l \<in> set ls. \<exists>old lk fbo. av_current l old lk ?V \<and> old < txn
         \<and> (block l (fst (node_versions t)), block l (snd (node_versions t))) = av_write txn l old lk oid fbo (block l ?V, block l ?B)" by auto
  have okt: "versions_ok (fst (node_versions t)) (snd (node_versions t))" using t(2) by (simp add: node_ok_def)
  have "\<exists>lk. (l, txn, False, lk) \<in># fst (node_versions t)" if "l \<in> set ls'" for l
  proof -
    from t(5) that assms(5) obtain old lk fbo where "(block l (fst (node_versions t)), block l (snd (node_versions t))) = av_write txn l old lk oid fbo (block l ?V, block l ?B)" by blast
    then have "(l, txn, False, True) \<in># block l (fst (node_versions t))" by (simp add: av_write_def)
    then show ?thesis by auto
  qed
  with wn_vbRollback_ok [OF t(2) assms(4), of txn flush] assms(5) obtain u fl where
    u: "wn_vbRollback txn ls' flush t = (u, Inr (0, fl))" "node_ok u" "node_cl u = cl_rollback txn (node_cl t)"
      "\<forall>l. l \<notin> set ls \<longrightarrow> block l (fst (node_versions u)) = block l (fst (node_versions t)) \<and> block l (snd (node_versions u)) = block l (snd (node_versions t))"
      "\<forall>l \<in> set ls. av_rolled txn l (block l (fst (node_versions t)), block l (snd (node_versions t))) (block l (fst (node_versions u)), block l (snd (node_versions u)))"
    by blast
  have in_ls: "block l (fst (node_versions u)) = unpin l (block l ?V) \<and> block l (snd (node_versions u)) = block l ?B" if l: "l \<in> set ls" for l
  proof -
    from t(5) l obtain old lk fbo where c: "av_current l old lk ?V" "old < txn" and
      w: "(block l (fst (node_versions t)), block l (snd (node_versions t))) = av_write txn l old lk oid fbo (block l ?V, block l ?B)" by blast
    have ub: "unique_keys (block l (fst (node_versions t)))" "unique_keys (block l (snd (node_versions t)))"
      using versions_okD(1,2) [OF versions_ok_block [OF okt, of l]] by simp_all
    have "unique_keys (fst (av_write txn l old lk oid fbo (block l ?V, block l ?B)))" "unique_keys (snd (av_write txn l old lk oid fbo (block l ?V, block l ?B)))"
      using ub unfolding w [symmetric] by simp_all
    moreover have "av_current l old lk (block l ?V)" using c(1) by (simp add: av_current_block)
    moreover have "av_rolled txn l (av_write txn l old lk oid fbo (block l ?V, block l ?B)) (block l (fst (node_versions u)), block l (snd (node_versions u)))"
      using u(5) l unfolding w [symmetric] by blast
    ultimately show ?thesis using av_rolled_write [OF versions_ok_block [OF ok, of l] _ c(2)] by blast
  qed
  have out_ls: "block l (fst (node_versions u)) = block l ?V \<and> block l (snd (node_versions u)) = block l ?B" if "l \<notin> set ls" for l
    using that t(4) u(4) by simp
  have "snd (node_versions u) = ?B" by (rule block_ext) (use in_ls out_ls in blast)
  moreover have "wn_bulkWriteVBEntry cfg txn ls oid fbos n = (t, Inr 0)" using t(1) by (simp add: wn_bulkWriteVBEntry_def)
  moreover have "node_cl t = node_cl n" using t(3) by (simp add: same_rest_def)
  ultimately show ?thesis using u(1-3) in_ls out_ls by (simp add: node_versions_def)
qed

lemma node_ex_current: "vss_getCurrentVersion (node_vss node_ex) 10 = Some (5, False)"
proof -
  from wn_currentVersion [OF node_ex_ok, of 10] obtain old lk where
    c: "vss_getCurrentVersion (node_vss node_ex) 10 = Some (old, lk)" "av_current 10 old lk (fst (node_versions node_ex))"
    by (auto simp: node_versions_def)
  from c(2) have "old = 5 \<and> \<not> lk" by (auto simp: av_current_def node_ex_versions)
  with c(1) show ?thesis by simp
qed

theorem wn_rollback_restores_witness:
  "\<exists>t u fl. wn_bulkWriteVBEntry None 8 [10] 7 [51] node_ex = (t, Inr 0) \<and> wn_vbRollback 8 [10] True t = (u, Inr (0, fl))
     \<and> vbbm_abs (node_vbbm u) = {#(10, 3, 7, 50)#} \<and> block 10 (vss_abs (node_vss u)) = {#(10, 5, False, False), (10, 3, True, False)#}"
proof -
  have "\<forall>l \<in> set [10]. 0 \<le> l \<and> (\<exists>old lk. vss_getCurrentVersion (node_vss node_ex) l = Some (old, lk) \<and> old < 8)"
    by (simp add: node_ex_current) blast
  from wn_rollback_restores [OF node_ex_ok _ _ _ _ this, of "[51]" "[10]" None 7 True] obtain t u fl where
    u: "wn_bulkWriteVBEntry None 8 [10] 7 [51] node_ex = (t, Inr 0)" "wn_vbRollback 8 [10] True t = (u, Inr (0, fl))"
      "vbbm_abs (node_vbbm u) = vbbm_abs (node_vbbm node_ex)" "block 10 (vss_abs (node_vss u)) = unpin 10 (block 10 (vss_abs (node_vss node_ex)))"
    by auto
  have "vss_abs (node_vss node_ex) = {#(10, 5, False, False), (10, 3, True, False), (20, 7, False, True)#}"
    "vbbm_abs (node_vbbm node_ex) = {#(10, 3, 7, 50)#}" using node_ex_versions by (simp_all add: node_versions_def)
  with u show ?thesis by (auto simp: unpin_def)
qed

end
