(* ===== verification/Worker_Atomic.thy ===== *)
theory Worker_Atomic
  imports Worker_Contract VSS_Undo
begin

text \<open>
  Commands of a worker that are not confirmed leave no trace: \<^verbatim>\<open>undoChanges\<close> gives back the node as it was, to the last bit of
  the shared segments, as long as no segment had to grow.
\<close>

section \<open>Undo over the three structures\<close>

text \<open>Between commands no inter-process lock is held and there are no undo records.\<close>

definition wn_idle :: "SlaveDBRMNode \<Rightarrow> bool" where
  "wn_idle n \<longleftrightarrow> \<not> vbbm_locked n \<and> \<not> vss_locked n \<and> \<not> cl_locked n \<and> vb_undo (node_vbbm n) = [] \<and> vss_undo (node_vss n) = [] \<and> cl_undo (node_cl n) = []"

text \<open>Room for \<open>k\<close> more blocks with new versions.\<close>

definition wn_room :: "nat \<Rightarrow> SlaveDBRMNode \<Rightarrow> bool" where
  "wn_room k n \<longleftrightarrow> vbCurrentSize (vb_hdr (node_vbbm n)) + int k \<le> vbCapacity (vb_hdr (node_vbbm n))
     \<and> currentSize (vss_hdr (node_vss n)) + 2 * int k \<le> capacity (vss_hdr (node_vss n))"

definition node_undo_ok :: "SlaveDBRMNode \<Rightarrow> SlaveDBRMNode \<Rightarrow> bool" where
  "node_undo_ok n0 n \<longleftrightarrow> vbbm_undo_ok (node_vbbm n0) (node_vbbm n) \<and> undo_ok (node_vss n0) (node_vss n) \<and> cl_undo_ok (node_cl n0) (node_cl n)"

lemma node_undo_ok_start: "wn_idle n \<Longrightarrow> node_undo_ok n n"
  by (simp add: wn_idle_def node_undo_ok_def vbbm_undo_ok_start undo_ok_start cl_undo_ok_def cl_undoChanges_def)

lemma node_undo_ok_locks [simp]:
  "node_undo_ok n0 (n\<lparr>vbbm_locked := a\<rparr>) = node_undo_ok n0 n" "node_undo_ok n0 (n\<lparr>vss_locked := a\<rparr>) = node_undo_ok n0 n"
  "node_undo_ok n0 (n\<lparr>cl_locked := a\<rparr>) = node_undo_ok n0 n"
  by (simp_all add: node_undo_ok_def)

lemma wn_undoChanges_restores:
  assumes "wn_idle n0" "node_undo_ok n0 n" "vbbm_locked n \<or> node_vbbm n = node_vbbm n0" "vss_locked n \<or> node_vss n = node_vss n0"
    "cl_locked n \<or> node_cl n = node_cl n0"
  shows "wn_undoChanges n = (n0, Inr ())"
proof -
  have u: "vbbm_undoChanges (node_vbbm n) = (node_vbbm n0, Inr ())" "vss_undoChanges (node_vss n) = (node_vss n0, Inr ())"
    "cl_undoChanges (node_cl n) = node_cl n0"
    using assms(2) by (simp_all add: node_undo_ok_def vbbm_undo_ok_undoChanges undo_ok_undoChanges cl_undo_ok_def)
  obtain b v c where "node_vbbm n0 = b" "node_vss n0 = v" "node_cl n0 = c" by blast
  with u assms(1,3-5) show ?thesis
    by (cases n; cases n0) (auto simp: wn_undoChanges_def on_vbbm_def on_vss_def wn_idle_def)
qed

section \<open>The commands\<close>

lemma on_vbbm_undo:
  assumes "node_undo_ok n0 n" "vbbm_undo_ok (node_vbbm n0) (node_vbbm n) \<Longrightarrow> vbbm_undo_ok (node_vbbm n0) (fst (f (node_vbbm n)))"
  shows "node_undo_ok n0 (fst (on_vbbm f n))"
  using assms by (cases "f (node_vbbm n)") (simp add: on_vbbm_def node_undo_ok_def)

lemma on_vss_undo:
  assumes "node_undo_ok n0 n" "undo_ok (node_vss n0) (node_vss n) \<Longrightarrow> undo_ok (node_vss n0) (fst (f (node_vss n)))"
  shows "node_undo_ok n0 (fst (on_vss f n))"
  using assms by (cases "f (node_vss n)") (simp add: on_vss_def node_undo_ok_def)

lemma on_same_rest: "same_rest n (fst (on_vbbm f n))" "same_rest n (fst (on_vss g n))"
  by (simp_all add: on_vbbm_def on_vss_def same_rest_def split: prod.splits)

text \<open>A property of states that both halves of a sequence keep.\<close>

lemma and_then_keeps:
  assumes "P (fst m)" "\<And>a s. m = (s, Inr a) \<Longrightarrow> P s \<Longrightarrow> P (fst (f a s))"
  shows "P (fst (and_then m f))"
  using assms by (cases m) (auto simp: and_then_def split: sum.splits)

lemma wn_rollbackBlock_undo:
  assumes "node_undo_ok n0 n"
  shows "node_undo_ok n0 (fst (wn_rollbackBlock txn l n)) \<and> same_rest n (fst (wn_rollbackBlock txn l n))"
proof (cases "vss_getHighestVerInVB (node_vss n) l txn")
  case None
  with assms show ?thesis by (simp add: wn_rollbackBlock_def same_rest_def)
next
  case (Some w)
  let ?P = "\<lambda>m. node_undo_ok n0 m \<and> same_rest n m"
  have vb: "?P (fst (on_vbbm (vbbm_removeEntry l w) m))" if "?P m" for m
    using that on_vbbm_undo [of n0 m "vbbm_removeEntry l w"] vbbm_undo_ok_removeEntry same_rest_trans on_same_rest(1) by blast
  have vs: "?P (fst (on_vss (vss_setVBFlag l w False) m))" if "?P m" for m
    using that on_vss_undo [of n0 m "vss_setVBFlag l w False"] undo_ok_setVBFlag same_rest_trans on_same_rest(2) by blast
  have vr: "?P (fst (on_vss (vss_removeEntry l txn) m))" if "?P m" for m
    using that on_vss_undo [of n0 m "vss_removeEntry l txn"] undo_ok_removeEntry same_rest_trans on_same_rest(2) by blast
  have n: "?P n" using assms by (simp add: same_rest_def)
  have first: "?P (fst (and_then (on_vbbm (vbbm_removeEntry l w) n) (\<lambda>_. on_vss (vss_setVBFlag l w False))))"
    by (rule and_then_keeps [of ?P, OF vb [OF n] vs])
  show ?thesis unfolding wn_rollbackBlock_def Some option.case
  proof (rule and_then_keeps [of ?P])
    show "?P (fst (if w \<noteq> -1 then and_then (on_vbbm (vbbm_removeEntry l w) n) (\<lambda>_. on_vss (vss_setVBFlag l w False)) else (n, Inr ())))"
      using n first by (simp only: fst_conv split: if_split) blast
    show "?P (fst (on_vss (vss_removeEntry l txn) s))" if "?P s" for s using that by (rule vr)
  qed
qed

lemma wn_rollbackLoop_undo:
  "node_undo_ok n0 n \<Longrightarrow> node_undo_ok n0 (fst (wn_rollbackLoop txn ls fl n)) \<and> same_rest n (fst (wn_rollbackLoop txn ls fl n))"
proof (induction ls arbitrary: fl n)
  case (Cons l ls)
  let ?P = "\<lambda>m. node_undo_ok n0 m \<and> same_rest n m"
  show ?case unfolding wn_rollbackLoop.simps
  proof (rule and_then_keeps [of ?P])
    show "?P (fst (wn_rollbackBlock txn l n))" by (rule wn_rollbackBlock_undo [OF Cons.prems])
    show "?P (fst (wn_rollbackLoop txn ls (fl @ a) s))" if "?P s" for a s
      using that Cons.IH [of s "fl @ a"] same_rest_trans by blast
  qed
qed (simp add: same_rest_def)

lemma vbbm_insert_sizes:
  assumes "vbCurrentSize (vb_hdr s) \<noteq> vbCapacity (vb_hdr s)"
  shows "vbCapacity (vb_hdr (fst (vbbm_insert cfg l v oid fbo False s))) = vbCapacity (vb_hdr s)"
    "vbCurrentSize (vb_hdr (fst (vbbm_insert cfg l v oid fbo False s))) \<le> vbCurrentSize (vb_hdr s) + 1"
  using assms by (cases "find_empty (vb_storage s) (nat (vbLWM (vb_hdr s)))"; simp add: vbbm_insert_def vbbm_insert_entry_def Let_def)+

lemma vss_insert_sizes:
  assumes "currentSize (vss_hdr s) \<noteq> capacity (vss_hdr s)"
  shows "capacity (vss_hdr (fst (vss_insert l v vb lk False s))) = capacity (vss_hdr s)"
    "currentSize (vss_hdr (fst (vss_insert l v vb lk False s))) \<le> currentSize (vss_hdr s) + 1"
  using assms by (cases "find_empty (vss_storage s) (nat (LWM (vss_hdr s)))"; simp add: vss_insert_def vss_insert_entry_def Let_def)+

lemma vss_setVBFlag_hdr: "vss_hdr (fst (vss_setVBFlag l v vb s)) = vss_hdr s"
  by (simp add: vss_setVBFlag_def Let_def split: option.splits prod.splits)

text \<open>The sizes after the first and the second step of a new version.\<close>

definition wn_room2 :: "nat \<Rightarrow> nat \<Rightarrow> SlaveDBRMNode \<Rightarrow> bool" where
  "wn_room2 k j n \<longleftrightarrow> vbCurrentSize (vb_hdr (node_vbbm n)) + int k \<le> vbCapacity (vb_hdr (node_vbbm n))
     \<and> currentSize (vss_hdr (node_vss n)) + int j \<le> capacity (vss_hdr (node_vss n))"

lemma wn_insert_vbbm_undo:
  assumes "node_undo_ok n0 m \<and> same_rest n m \<and> wn_room2 (Suc k) j m"
  shows "node_undo_ok n0 (fst (on_vbbm (vbbm_insert cfg l v oid fbo False) m)) \<and> same_rest n (fst (on_vbbm (vbbm_insert cfg l v oid fbo False) m))
    \<and> wn_room2 k j (fst (on_vbbm (vbbm_insert cfg l v oid fbo False) m))"
proof -
  let ?f = "vbbm_insert cfg l v oid fbo False"
  have ne: "vbCurrentSize (vb_hdr (node_vbbm m)) \<noteq> vbCapacity (vb_hdr (node_vbbm m))" using assms by (simp add: wn_room2_def)
  have "node_undo_ok n0 (fst (on_vbbm ?f m))" by (rule on_vbbm_undo) (use assms vbbm_undo_ok_insert [OF _ ne] in blast)+
  moreover have "wn_room2 k j (fst (on_vbbm ?f m))"
    using assms vbbm_insert_sizes [OF ne, of cfg l v oid fbo] by (cases "?f (node_vbbm m)") (simp add: wn_room2_def on_vbbm_def)
  ultimately show ?thesis using assms same_rest_trans on_same_rest(1) by blast
qed

lemma wn_insert_vss_undo:
  assumes "node_undo_ok n0 m \<and> same_rest n m \<and> wn_room2 k (Suc j) m"
  shows "node_undo_ok n0 (fst (on_vss (vss_insert l v vb lk False) m)) \<and> same_rest n (fst (on_vss (vss_insert l v vb lk False) m))
    \<and> wn_room2 k j (fst (on_vss (vss_insert l v vb lk False) m))"
proof -
  let ?f = "vss_insert l v vb lk False"
  have ne: "currentSize (vss_hdr (node_vss m)) \<noteq> capacity (vss_hdr (node_vss m))" using assms by (simp add: wn_room2_def)
  have "node_undo_ok n0 (fst (on_vss ?f m))" by (rule on_vss_undo) (use assms undo_ok_insert [OF _ ne] in blast)+
  moreover have "wn_room2 k j (fst (on_vss ?f m))"
    using assms vss_insert_sizes [OF ne, of l v vb lk] by (cases "?f (node_vss m)") (simp add: wn_room2_def on_vss_def)
  ultimately show ?thesis using assms same_rest_trans on_same_rest(2) by blast
qed

lemma wn_flag_vss_undo:
  assumes "node_undo_ok n0 m \<and> same_rest n m \<and> wn_room2 k (Suc j) m"
  shows "node_undo_ok n0 (fst (on_vss (vss_setVBFlag l v vb) m)) \<and> same_rest n (fst (on_vss (vss_setVBFlag l v vb) m))
    \<and> wn_room2 k j (fst (on_vss (vss_setVBFlag l v vb) m))"
proof -
  have "node_undo_ok n0 (fst (on_vss (vss_setVBFlag l v vb) m))" by (rule on_vss_undo) (use assms undo_ok_setVBFlag in blast)+
  moreover have "wn_room2 k j (fst (on_vss (vss_setVBFlag l v vb) m))"
    using assms vss_setVBFlag_hdr [of l v vb "node_vss m"] by (cases "vss_setVBFlag l v vb (node_vss m)") (simp add: wn_room2_def on_vss_def)
  ultimately show ?thesis using assms same_rest_trans on_same_rest(2) by blast
qed

lemma wn_newVersion_undo:
  assumes "node_undo_ok n0 n" "wn_room2 (Suc k) (Suc (Suc j)) n"
  shows "node_undo_ok n0 (fst (wn_newVersion cfg txn l old oid fbo n)) \<and> same_rest n (fst (wn_newVersion cfg txn l old oid fbo n))
    \<and> (snd (wn_newVersion cfg txn l old oid fbo n) = Inr () \<longrightarrow> wn_room2 k j (fst (wn_newVersion cfg txn l old oid fbo n)))"
proof -
  let ?P = "\<lambda>i m. node_undo_ok n0 m \<and> same_rest n m \<and> wn_room2 k i m"
  have "?P (Suc (Suc j)) (fst (on_vbbm (vbbm_insert cfg l old oid fbo False) n))"
    by (rule wn_insert_vbbm_undo) (use assms in \<open>simp add: same_rest_def\<close>)
  moreover obtain m r where m: "on_vbbm (vbbm_insert cfg l old oid fbo False) n = (m, r)" by force
  ultimately have P1: "?P (Suc (Suc j)) m" by simp
  obtain m' r' where m': "(if old > 0 then on_vss (vss_setVBFlag l old True) m else on_vss (vss_insert l old True False False) m) = (m', r')" by force
  have P2: "?P (Suc j) m'"
    using wn_flag_vss_undo [OF P1, of l old True] wn_insert_vss_undo [OF P1, of l old True False] m' by (auto split: if_splits)
  obtain m'' r'' where m'': "on_vss (vss_insert l txn False True False) m' = (m'', r'')" by force
  have P3: "?P j m''" using wn_insert_vss_undo [OF P2, of l txn False True] m'' by simp
  show ?thesis using P1 P2 P3 m'' by (cases r; cases r') (simp_all add: wn_newVersion_def m m')
qed

lemma wn_bulkWriteLoop_undo:
  assumes "node_undo_ok n0 n" "wn_room2 (length ls) (2 * length ls) n"
  shows "node_undo_ok n0 (fst (wn_bulkWriteLoop cfg txn oid fbos ls i n)) \<and> same_rest n (fst (wn_bulkWriteLoop cfg txn oid fbos ls i n))"
  using assms
proof (induction ls arbitrary: i n)
  case (Cons l ls)
  have room: "wn_room2 (Suc (length ls)) (Suc (Suc (2 * length ls))) n" using Cons.prems(2) by simp
  then have room': "wn_room2 (length ls) (2 * length ls) n" by (simp add: wn_room2_def)
  show ?case
  proof (cases "vss_getCurrentVersion (node_vss n) l")
    case None
    with Cons.prems show ?thesis by (simp add: same_rest_def)
  next
    case (Some r)
    obtain old lk where r: "r = (old, lk)" by (cases r)
    obtain m res where m: "wn_newVersion cfg txn l old oid (fbos ! i) n = (m, res)" by force
    have P: "node_undo_ok n0 m" "same_rest n m" "res = Inr () \<longrightarrow> wn_room2 (length ls) (2 * length ls) m"
      using wn_newVersion_undo [OF Cons.prems(1) room, of cfg txn l old oid "fbos ! i"] by (simp_all add: m)
    have rest: "node_undo_ok n0 (fst (and_then (m, res) (\<lambda>_ n. wn_bulkWriteLoop cfg txn oid fbos ls (Suc i) n)))
      \<and> same_rest n (fst (and_then (m, res) (\<lambda>_ n. wn_bulkWriteLoop cfg txn oid fbos ls (Suc i) n)))"
      using P Cons.IH [of m "Suc i"] same_rest_trans by (cases res) auto
    show ?thesis
      using rest Cons.prems(1) Cons.IH [OF Cons.prems(1) room', of "Suc i"] by (simp add: Some r m same_rest_def)
  qed
qed (simp add: same_rest_def)

lemma node_catch_fst: "fst (node_catch a m) = fst m"
  by (cases m) (auto simp: node_catch_def split: sum.splits brm_error.splits)

lemma cl_releaseRanges_undo: "cl_undo_ok s0 s \<Longrightarrow> cl_undo_ok s0 (fold cl_releaseRange ranges s)"
  by (induction ranges arbitrary: s) (simp_all add: cl_releaseRange_def cl_undo_clearWhere)

lemma wn_writeVBEntry_undo:
  assumes "node_undo_ok n0 n" "wn_room 1 n"
  shows "node_undo_ok n0 (fst (wn_writeVBEntry cfg txn l oid fbo n))
    \<and> same_rest (n\<lparr>vbbm_locked := True, vss_locked := True\<rparr>) (fst (wn_writeVBEntry cfg txn l oid fbo n))"
proof -
  let ?n = "n\<lparr>vbbm_locked := True, vss_locked := True\<rparr>"
  have ok: "node_undo_ok n0 ?n" and room: "wn_room2 (Suc 0) (Suc (Suc 0)) ?n" using assms by (simp_all add: wn_room_def wn_room2_def)
  show ?thesis
  proof (cases "vss_getCurrentVersion (node_vss n) l")
    case None
    with ok show ?thesis by (simp add: wn_writeVBEntry_def Let_def same_rest_def)
  next
    case (Some r)
    obtain old lk where r: "r = (old, lk)" by (cases r)
    obtain m res where m: "wn_newVersion cfg txn l old oid fbo ?n = (m, res)" by (rule prod.exhaust)
    have "node_undo_ok n0 m \<and> same_rest ?n m" using wn_newVersion_undo [OF ok room, of cfg txn l old oid fbo] by (simp add: m)
    with ok show ?thesis by (cases res) (simp_all add: wn_writeVBEntry_def Let_def Some r m node_catch_fst same_rest_def)
  qed
qed

lemma wn_undo_vbRollback:
  assumes "wn_idle n"
  shows "wn_undoChanges (fst (wn_vbRollback txn ls flush n)) = (n, Inr ())"
proof -
  let ?m = "n\<lparr>vbbm_locked := True, vss_locked := True, cl_locked := True, node_cl := cl_rollback txn (node_cl n)\<rparr>"
  have "node_undo_ok n ?m" using node_undo_ok_start [OF assms] by (simp add: node_undo_ok_def cl_rollback_def cl_undo_clearWhere)
  from wn_rollbackLoop_undo [OF this, of txn ls "[]"]
  have "node_undo_ok n (fst (wn_vbRollback txn ls flush n)) \<and> same_rest ?m (fst (wn_vbRollback txn ls flush n))"
    by (cases "wn_rollbackLoop txn ls [] ?m") (auto simp: wn_vbRollback_def Let_def node_catch_fst and_then_def split: sum.splits)
  then show ?thesis by (intro wn_undoChanges_restores [OF assms]) (simp_all add: same_rest_def)
qed

lemma wn_undo_releaseRanges:
  assumes "wn_idle n"
  shows "wn_undoChanges (fst (wn_releaseRanges ranges n)) = (n, Inr ())"
  using node_undo_ok_start [OF assms] by (intro wn_undoChanges_restores [OF assms])
    (simp_all add: wn_releaseRanges_def node_undo_ok_def cl_releaseRanges_undo)

lemma wn_undo_writeVBEntry:
  assumes "wn_idle n" "wn_room 1 n"
  shows "wn_undoChanges (fst (wn_writeVBEntry cfg txn l oid fbo n)) = (n, Inr ())"
  using wn_writeVBEntry_undo [OF node_undo_ok_start [OF assms(1)] assms(2), of cfg txn l oid fbo]
  by (intro wn_undoChanges_restores [OF assms(1)]) (simp_all add: same_rest_def)

lemma wn_undo_bulkWriteVBEntry:
  assumes "wn_idle n" "wn_room (length ls) n"
  shows "wn_undoChanges (fst (wn_bulkWriteVBEntry cfg txn ls oid fbos n)) = (n, Inr ())"
proof -
  let ?n = "n\<lparr>vbbm_locked := True, vss_locked := True\<rparr>"
  have "wn_room2 (length ls) (2 * length ls) ?n" using assms(2) by (simp add: wn_room_def wn_room2_def)
  moreover have "node_undo_ok n ?n" using node_undo_ok_start [OF assms(1)] by simp
  ultimately have "node_undo_ok n (fst (wn_bulkWriteVBEntry cfg txn ls oid fbos n)) \<and> same_rest ?n (fst (wn_bulkWriteVBEntry cfg txn ls oid fbos n))"
    using wn_bulkWriteLoop_undo by (simp add: wn_bulkWriteVBEntry_def node_catch_fst)
  then show ?thesis by (intro wn_undoChanges_restores [OF assms(1)]) (simp_all add: same_rest_def)
qed

text \<open>
  C4. Atomicity of five commands of a worker. From a node between commands: whatever \<^verbatim>\<open>vbRollback\<close>, \<^verbatim>\<open>endVBCopy\<close> or \<^verbatim>\<open>dmlReleaseLBIDRanges\<close> does and
  returns, and whatever \<^verbatim>\<open>writeVBEntry\<close> and \<^verbatim>\<open>bulkWriteVBEntry\<close> do and return when the segments have room for their blocks, an
  \<^verbatim>\<open>undoChanges\<close> gives back exactly the node before the command: the VBBM, the VSS, the copy locks, and the released
  inter-process locks. It does not hold for \<^verbatim>\<open>vbCommit\<close>, nor after a segment has grown, and it is not claimed of \<^verbatim>\<open>beginVBCopy\<close> and
  \<^verbatim>\<open>dmlLockLBIDRanges\<close>, which let other processes in.
\<close>

theorem wn_commands_atomic:
  assumes "wn_idle n"
  shows "wn_undoChanges (fst (wn_vbRollback txn ls flush n)) = (n, Inr ())
    \<and> wn_undoChanges (fst (wn_endVBCopy txn ranges n)) = (n, Inr ())
    \<and> wn_undoChanges (fst (wn_dmlReleaseLBIDRanges ranges n)) = (n, Inr ())
    \<and> (wn_room 1 n \<longrightarrow> wn_undoChanges (fst (wn_writeVBEntry cfg txn l oid fbo n)) = (n, Inr ()))
    \<and> (wn_room (length ls) n \<longrightarrow> wn_undoChanges (fst (wn_bulkWriteVBEntry cfg txn ls oid fbos n)) = (n, Inr ()))"
  using assms wn_undo_vbRollback wn_undo_releaseRanges wn_undo_writeVBEntry wn_undo_bulkWriteVBEntry
  by (simp add: wn_endVBCopy_def wn_dmlReleaseLBIDRanges_def)

definition node_ex2 :: SlaveDBRMNode where
  "node_ex2 = \<lparr>node_vbbm = vbbm_ex,
     node_vss = vss_ex\<lparr>vss_hdr := (vss_hdr vss_ex)\<lparr>capacity := 5\<rparr>, vss_storage := vss_storage vss_ex @ [empty_entry]\<rparr>, node_cl = cl_ex, vbbm_locked = False, vss_locked = False, cl_locked = False\<rparr>"

theorem wn_commands_atomic_witness:
  "wn_undoChanges (fst (wn_vbRollback 7 [20] True node_ex2)) = (node_ex2, Inr ())
     \<and> wn_undoChanges (fst (wn_writeVBEntry None 8 10 7 51 node_ex2)) = (node_ex2, Inr ())
     \<and> wn_undoChanges (fst (wn_bulkWriteVBEntry None 8 [10] 7 [51] node_ex2)) = (node_ex2, Inr ())"
proof -
  have "wn_idle node_ex2" "wn_room 1 node_ex2" "wn_room (length [10 :: LBID_t]) node_ex2"
    by (simp_all add: wn_idle_def wn_room_def node_ex2_def vbbm_ex_def vss_ex_def cl_ex_def)
  with wn_commands_atomic [of node_ex2 7 "[20]" True "[]" None 10 7 51 "[]"] wn_commands_atomic [of node_ex2 8 "[10]" True "[]" None 10 7 51 "[51]"]
  show ?thesis by simp
qed

end
