(* ===== verification/Worker_Locks.thy ===== *)
theory Worker_Locks
  imports Worker_Atomic
begin

text \<open>
  The commands of a worker that lock ranges of blocks: \<^verbatim>\<open>dmlLockLBIDRanges\<close> and \<^verbatim>\<open>beginVBCopy\<close>. The lemmas of the locale \<open>range_locks\<close> are used
  on the table of copy locks and on the whole node.
\<close>

section \<open>The interface on a node\<close>

definition node_release :: "LBIDRange \<Rightarrow> SlaveDBRMNode \<Rightarrow> SlaveDBRMNode" where
  "node_release r n = n\<lparr>node_cl := cl_releaseRange r (node_cl n)\<rparr>"

definition node_locks :: "SlaveDBRMNode \<Rightarrow> (LBIDRange \<times> VER_t) multiset" where
  "node_locks n = cl_locks (node_cl n)"

definition node_vb :: "SlaveDBRMNode \<Rightarrow> version_buffer" where
  "node_vb n = (node_vbbm n, node_vss n)"

definition node_vb_ok :: "SlaveDBRMNode \<Rightarrow> bool" where
  "node_vb_ok n \<longleftrightarrow> cl_inv (node_cl n) \<and> vb_ok (node_vb n)"

interpretation node_table: range_locks node_vb_ok node_locks "\<lambda>r n. cl_isLocked r (node_cl n)" "\<lambda>txn r. on_cl (cl_lockRange txn r)" node_release
proof unfold_locales
  fix n r assume n: "node_vb_ok n" "lockable r"
  then show "cl_isLocked r (node_cl n) \<longleftrightarrow> (\<exists>x. x \<in># node_locks n \<and> meets (fst x) r)"
    by (simp add: node_vb_ok_def node_locks_def cl_table.isLocked_iff)
  show "node_locks (node_release r n) = filter_mset (\<lambda>x. \<not> meets (fst x) r) (node_locks n)"
    using n by (simp add: node_vb_ok_def node_locks_def node_release_def cl_table.releaseRange_locks)
  fix txn
  from n cl_table.lockRange_ok [of "node_cl n" r txn] obtain c where
    "cl_lockRange txn r (node_cl n) = (c, Inr ())" "cl_inv c" "cl_locks c = add_mset (r, txn) (cl_locks (node_cl n))" by (auto simp: node_vb_ok_def)
  with n show "\<exists>t. on_cl (cl_lockRange txn r) n = (t, Inr ()) \<and> node_vb_ok t \<and> node_locks t = add_mset (r, txn) (node_locks n)"
    by (simp add: on_cl_def node_vb_ok_def node_locks_def node_vb_def)
next
  fix n r assume "node_vb_ok n"
  then show "node_vb_ok (node_release r n)" by (simp add: node_vb_ok_def node_release_def node_vb_def cl_table.releaseRange_inv)
qed

text \<open>
  What the other processes may do in a sleep: anything that keeps the structures consistent, the locks
  exclusive, and the locks of the transaction.
\<close>

definition fair_locks :: "VER_t \<Rightarrow> (CopyLocks \<Rightarrow> CopyLocks) \<Rightarrow> bool" where
  "fair_locks txn f \<longleftrightarrow> (\<forall>s. cl_inv s \<longrightarrow> exclusive (cl_locks s) \<longrightarrow> cl_inv (f s) \<and> exclusive (cl_locks (f s))
     \<and> filter_mset (\<lambda>x. snd x = txn) (cl_locks (f s)) = filter_mset (\<lambda>x. snd x = txn) (cl_locks s))"

definition fair_node :: "VER_t \<Rightarrow> (SlaveDBRMNode \<Rightarrow> SlaveDBRMNode) \<Rightarrow> bool" where
  "fair_node txn f \<longleftrightarrow> (\<forall>n. node_vb_ok n \<longrightarrow> exclusive (node_locks n) \<longrightarrow> node_vb_ok (f n) \<and> exclusive (node_locks (f n))
     \<and> filter_mset (\<lambda>x. snd x = txn) (node_locks (f n)) = filter_mset (\<lambda>x. snd x = txn) (node_locks n))"

section \<open>Locks of a DML statement\<close>

text \<open>
  C15. \<^verbatim>\<open>dmlLockLBIDRanges\<close> for ranges that have no block in common, when the other processes, in its sleeps, keep the table consistent, the locks
  exclusive and the locks of the transaction: it ends and returns \<open>0\<close>, with every range locked by the transaction and no block locked twice. Locks of
  others that are still there after a minute of retries are taken away by force.
\<close>

theorem wn_dmlLockLBIDRanges_locks:
  assumes "cl_inv (node_cl n)" "exclusive (cl_locks (node_cl n))" "\<forall>r \<in> set ranges. lockable r" "sorted_wrt (\<lambda>r r'. \<not> meets r r') ranges"
    and "\<And>k. fair_locks txn (env k)"
  shows "\<exists>t. wn_dmlLockLBIDRanges env ranges txn n = (t, Inr 0) \<and> cl_inv (node_cl t) \<and> exclusive (cl_locks (node_cl t)) \<and> cl_locked t
    \<and> (\<forall>r \<in> set ranges. (r, txn) \<in># cl_locks (node_cl t)) \<and> node_vbbm t = node_vbbm n \<and> node_vss t = node_vss n"
proof -
  have "cl_table.fair txn (env k)" for k using assms(5) [of k] by (simp add: fair_locks_def cl_table.fair_def)
  from cl_table.lock_ranges_ok [OF assms(1-4), of txn env, OF this] obtain c fl where
    c: "lock_ranges cl_isLocked (cl_lockRange txn) cl_releaseRange env ranges (node_cl n) = ((c, fl), Inr ())" "cl_inv c" "exclusive (cl_locks c)"
    "\<forall>r \<in> set ranges. (r, txn) \<in># cl_locks c" by (elim exE conjE)
  then show ?thesis by (simp add: wn_dmlLockLBIDRanges_def cl_forceRelease_eq)
qed

theorem wn_dmlLockLBIDRanges_locks_witness:
  "\<exists>t. wn_dmlLockLBIDRanges (\<lambda>_. id) [\<lparr>range_start = 104, range_size = 8\<rparr>, \<lparr>range_start = 200, range_size = 4\<rparr>] 5 node_ex = (t, Inr 0)
     \<and> (\<lparr>range_start = 104, range_size = 8\<rparr>, 5) \<in># cl_locks (node_cl t) \<and> exclusive (cl_locks (node_cl t))"
proof -
  have "fair_locks 5 id" by (simp add: fair_locks_def)
  moreover have "cl_inv (node_cl node_ex)" "exclusive (cl_locks (node_cl node_ex))"
    by (simp_all add: node_ex_def cl_ex_inv cl_ex_locks exclusive_def)
  ultimately show ?thesis
    using wn_dmlLockLBIDRanges_locks [of node_ex "[\<lparr>range_start = 104, range_size = 8\<rparr>, \<lparr>range_start = 200, range_size = 4\<rparr>]" 5 "\<lambda>_. id"]
    by (auto simp: lockable_def meets_def set_range_lbids)
qed

section \<open>The start of a copy\<close>

lemma vss_isLocked_total:
  assumes "vss_struct s" "0 \<le> range_start r"
  shows "\<exists>b. vss_isLocked s r txn = Some b"
proof -
  have "\<exists>b. vss_isLocked_loop s txn ls = Some b" if "\<forall>l \<in> set ls. l \<noteq> -1" for ls
    using that
  proof (induction ls)
    case (Cons l ls)
    then have l: "l \<noteq> -1" by simp
    from Cons obtain b where "vss_isLocked_loop s txn ls = Some b" by auto
    with vss_isLocked_step [OF assms(1) l, of txn ls] show ?case by metis
  next
    case Nil
    show ?case by (rule exI [of _ False]) simp
  qed
  moreover have "\<forall>l \<in> set (range_lbids r). l \<noteq> -1" using assms(2) by (auto simp: range_lbids_def)
  ultimately show ?thesis by (simp add: vss_isLocked_def)
qed

lemma wn_anyLocked_total:
  assumes "vss_struct v" "\<forall>r \<in> set ranges. 0 \<le> range_start r"
  shows "\<exists>b. wn_anyLocked ranges txn v = Some b"
  using assms(2)
proof (induction ranges)
  case (Cons r rs)
  then obtain b where "vss_isLocked v r txn = Some b" using vss_isLocked_total [OF assms(1), of r txn] by auto
  with Cons show ?case by (cases b) auto
next
  case Nil
  show ?case by (rule exI [of _ False]) simp
qed

lemma cl_releaseRanges_locks:
  assumes "cl_inv s" "\<forall>r \<in> set ranges. lockable r"
  shows "cl_inv (fold cl_releaseRange ranges s)"
    "cl_locks (fold cl_releaseRange ranges s) = filter_mset (\<lambda>x. \<forall>r \<in> set ranges. \<not> meets (fst x) r) (cl_locks s)"
proof -
  have "cl_inv (fold cl_releaseRange ranges s)
    \<and> cl_locks (fold cl_releaseRange ranges s) = filter_mset (\<lambda>x. \<forall>r \<in> set ranges. \<not> meets (fst x) r) (cl_locks s)"
    using assms
  proof (induction ranges arbitrary: s)
    case (Cons r rs)
    then have "cl_inv (cl_releaseRange r s)" "cl_locks (cl_releaseRange r s) = filter_mset (\<lambda>x. \<not> meets (fst x) r) (cl_locks s)"
      by (simp_all add: cl_table.releaseRange_inv cl_table.releaseRange_locks)
    with Cons show ?case by (simp add: filter_filter_mset conj_commute)
  qed simp
  then show "cl_inv (fold cl_releaseRange ranges s)"
    "cl_locks (fold cl_releaseRange ranges s) = filter_mset (\<lambda>x. \<forall>r \<in> set ranges. \<not> meets (fst x) r) (cl_locks s)" by blast+
qed

lemma release_flagged_all:
  "\<forall>(r, b) \<in> set fl. b \<Longrightarrow> release_flagged (\<lambda>r n. n\<lparr>node_cl := cl_releaseRange r (node_cl n)\<rparr>) fl n
     = n\<lparr>node_cl := fold cl_releaseRange (map fst fl) (node_cl n)\<rparr>"
  by (induction fl arbitrary: n) (auto simp: release_flagged_def)

text \<open>The end of \<^verbatim>\<open>beginVBCopy\<close>, once the ranges are locked.\<close>

definition copy_result :: "flagged \<Rightarrow> (SlaveDBRMNode, VBRange list \<times> LBID_t list) outcome \<Rightarrow> (SlaveDBRMNode, int \<times> VBRange list \<times> LBID_t list) outcome" where
  "copy_result lockedRanges m =
     (case m of
        (n, Inr (freeList, flushList)) \<Rightarrow> (n, Inr (0, freeList, flushList))
      | (n, Inl Undefined) \<Rightarrow> (n, Inl Undefined)
      | (n, Inl err) \<Rightarrow> (release_flagged (\<lambda>r n. n\<lparr>node_cl := cl_releaseRange r (node_cl n)\<rparr>) lockedRanges n,
           Inr (if err = VBBMBufferOverFlowExcept then ERR_VBBM_OVERFLOW else -1, [], [])))"

lemma wn_beginVBCopy_run:
  assumes "wn_anyLocked ranges txn (node_vss n) = Some False"
    and "lock_ranges (\<lambda>r n. cl_isLocked r (node_cl n)) (\<lambda>r. on_cl (cl_lockRange txn r)) node_release env ranges
      (n\<lparr>vbbm_locked := True, vss_locked := True, cl_locked := True\<rparr>) = ((u, fl), Inr ())"
    and "sum_list (map range_size ranges) < 2 ^ 31"
  shows "wn_beginVBCopy (Some fs) env txn oid ranges flush n
    = copy_result fl (on_vb (vb_getBlocks (Some fs) (int (sum_list (map range_size ranges))) oid flush) u)"
proof -
  have f: "(\<lambda>r n. n\<lparr>node_cl := cl_forceRelease r (node_cl n)\<rparr>) = node_release"
    by (simp add: fun_eq_iff node_release_def cl_forceRelease_eq)
  have num: "to_i32 (sum_list (map range_size ranges) mod 2 ^ 32) = int (sum_list (map range_size ranges))" using assms(3) by (simp add: to_i32_def)
  show ?thesis
    unfolding wn_beginVBCopy_def Let_def copy_result_def f num using assms(1,2) by (simp del: power_numeral)
qed

text \<open>
  C6. \<^verbatim>\<open>beginVBCopy\<close> composes the VSS, the copy locks and the version buffer. The ranges have no block in common and fewer than \<open>2^31\<close> blocks in all, and
  the other processes, in the sleeps, keep the structures consistent, the locks exclusive and the transaction's locks. Then the call always ends, with one
  of three results. It is \<open>-1\<close> exactly when \<^verbatim>\<open>VSS::isLocked\<close> says of a range that another transaction has it locked, and then nothing has changed. Otherwise
  it is \<open>0\<close>, with all ranges locked by the transaction, no block locked twice, and as many blocks of the version buffer file handed out as the ranges
  have, none of which holds a version, or \<^verbatim>\<open>ERR_VBBM_OVERFLOW\<close>, with no lock left on any of the ranges. The comment of the declaration has one case less: it
  says that nothing is locked and \<open>-1\<close> returned when a block cannot be locked. The code takes such a range by force after a minute.
\<close>

theorem wn_beginVBCopy_contract:
  assumes n: "node_vb_ok n" "exclusive (node_locks n)" and r: "\<forall>r \<in> set ranges. lockable r \<and> 0 \<le> range_start r" "sorted_wrt (\<lambda>r r'. \<not> meets r r') ranges"
    and total: "sum_list (map range_size ranges) < 2 ^ 31" and fs: "int BLOCK_SIZE \<le> fs" "fs < 2 ^ 31 * int BLOCK_SIZE"
    and env: "\<And>k. fair_node txn (env k)"
  shows "\<exists>t code free fl. wn_beginVBCopy (Some fs) env txn oid ranges flush n = (t, Inr (code, free, fl)) \<and>
     (code = -1 \<and> wn_anyLocked ranges txn (node_vss n) = Some True \<and> t = n\<lparr>vbbm_locked := True, vss_locked := True\<rparr>
      \<or> code = 0 \<and> wn_anyLocked ranges txn (node_vss n) = Some False \<and> node_vb_ok t \<and> exclusive (node_locks t) \<and> (\<forall>r \<in> set ranges. (r, txn) \<in># node_locks t)
         \<and> vb_granted oid (int (sum_list (map range_size ranges))) (node_vb t) free
      \<or> code = ERR_VBBM_OVERFLOW \<and> wn_anyLocked ranges txn (node_vss n) = Some False \<and> cl_inv (node_cl t) \<and> vbbm_inv (node_vbbm t) \<and> vss_wf (node_vss t)
         \<and> (\<forall>x \<in># node_locks t. \<forall>r \<in> set ranges. \<not> meets (fst x) r))"
proof -
  let ?n = "n\<lparr>vbbm_locked := True, vss_locked := True\<rparr>" and ?m = "n\<lparr>vbbm_locked := True, vss_locked := True, cl_locked := True\<rparr>"
  let ?num = "sum_list (map range_size ranges)"
  let ?lock = "lock_ranges (\<lambda>r n. cl_isLocked r (node_cl n)) (\<lambda>r. on_cl (cl_lockRange txn r)) node_release env ranges"
  have "vss_struct (node_vss n)" using n(1) by (simp add: node_vb_ok_def node_vb_def vb_ok_def vss_wf_def)
  with r(1) obtain b where b: "wn_anyLocked ranges txn (node_vss n) = Some b" using wn_anyLocked_total by blast
  have fair: "node_table.fair txn (env k)" for k using env [of k] by (simp add: fair_node_def node_table.fair_def)
  have m: "node_vb_ok ?m" "exclusive (node_locks ?m)" using n by (simp_all add: node_vb_ok_def node_vb_def node_locks_def)
  have lk: "\<forall>r \<in> set ranges. lockable r" using r(1) by blast
  from node_table.lock_ranges_ok [OF m lk r(2), of txn env, OF fair] obtain u fl where
    u: "?lock ?m = ((u, fl), Inr ())" "node_vb_ok u" "exclusive (node_locks u)" "map fst fl = ranges" "\<forall>(r, b) \<in> set fl. b"
      "\<forall>r \<in> set ranges. (r, txn) \<in># node_locks u" by (elim exE conjE)
  note run = wn_beginVBCopy_run [OF _ u(1) total, of fs oid flush]
  show ?thesis
  proof (cases b)
    case True
    with b have "wn_beginVBCopy (Some fs) env txn oid ranges flush n = (?n, Inr (-1, [], []))" by (simp add: wn_beginVBCopy_def Let_def)
    with b True show ?thesis by simp
  next
    case False
    with b have run: "wn_beginVBCopy (Some fs) env txn oid ranges flush n = copy_result fl (on_vb (vb_getBlocks (Some fs) (int ?num) oid flush) u)"
      by (intro run) simp
    have vb: "vb_ok (node_vbbm u, node_vss u)" "cl_inv (node_cl u)" using u(2) by (simp_all add: node_vb_ok_def node_vb_def)
    have i32: "- (2 ^ 31) \<le> int ?num" "int ?num < 2 ^ 31" using total by simp_all
    show ?thesis
    proof (rule vb_getBlocks_cases [OF vb(1) fs i32, of oid flush])
      fix t assume t: "vb_getBlocks (Some fs) (int ?num) oid flush (node_vbbm u, node_vss u) = (t, Inl VBBMBufferOverFlowExcept)"
        "vbbm_inv (fst t)" "vss_wf (snd t)"
      let ?t = "u\<lparr>node_vbbm := fst t, node_vss := snd t, node_cl := fold cl_releaseRange ranges (node_cl u)\<rparr>"
      have "wn_beginVBCopy (Some fs) env txn oid ranges flush n = (?t, Inr (ERR_VBBM_OVERFLOW, [], []))"
        using run t(1) by (cases t) (simp add: on_vb_def copy_result_def release_flagged_all [OF u(5)] u(4))
      moreover have "cl_inv (node_cl ?t) \<and> (\<forall>x \<in># node_locks ?t. \<forall>r \<in> set ranges. \<not> meets (fst x) r)"
        using cl_releaseRanges_locks [OF vb(2) lk] by (simp add: node_locks_def)
      ultimately show ?thesis using t(2,3) b False by (intro exI [of _ ?t] exI [of _ ERR_VBBM_OVERFLOW] exI [of _ "[]"]) simp
    next
      fix t free fl' assume t: "vb_getBlocks (Some fs) (int ?num) oid flush (node_vbbm u, node_vss u) = (t, Inr (free, fl'))"
        "vb_ok t" "vb_granted oid (int ?num) t free"
      let ?t = "u\<lparr>node_vbbm := fst t, node_vss := snd t\<rparr>"
      have "wn_beginVBCopy (Some fs) env txn oid ranges flush n = (?t, Inr (0, free, fl'))"
        using run t(1) by (cases t) (simp add: on_vb_def copy_result_def)
      moreover have "node_vb_ok ?t" "node_locks ?t = node_locks u" "node_vb ?t = t"
        using t(2) vb(2) by (simp_all add: node_vb_ok_def node_vb_def node_locks_def)
      ultimately show ?thesis using u(3,6) t(3) b False
        by (intro exI [of _ ?t] exI [of _ 0] exI [of _ free] exI [of _ fl']) simp
    qed
  qed
qed

theorem wn_beginVBCopy_contract_witness:
  "\<exists>t code free fl. wn_beginVBCopy (Some 2457600) (\<lambda>_. id) 8 7 [\<lparr>range_start = 30, range_size = 2\<rparr>] True (node_ex\<lparr>node_vbbm := vbbm_ex\<rparr>)
       = (t, Inr (code, free, fl)) \<and>
     (code = 0 \<and> (\<lparr>range_start = 30, range_size = 2\<rparr>, 8) \<in># node_locks t \<and> vb_granted 7 2 (node_vb t) free \<or> code = ERR_VBBM_OVERFLOW)"
proof -
  let ?r = "\<lparr>range_start = 30, range_size = 2\<rparr>" and ?n = "node_ex\<lparr>node_vbbm := vbbm_ex\<rparr>"
  have n: "node_vb_ok ?n" "exclusive (node_locks ?n)" "node_vss ?n = vss_ex"
    by (simp_all add: node_vb_ok_def node_vb_def node_ex_def vb_ex_ok cl_ex_inv node_locks_def cl_ex_locks exclusive_def)
  have S: "vss_struct vss_ex" using vss_ex_wf by (simp add: vss_wf_def)
  have "wn_anyLocked [?r] 8 vss_ex = Some False"
    using vss_isLocked_step [OF S, of 30 8 "[31]"] vss_isLocked_step [OF S, of 31 8 "[]"]
    by (simp add: vss_isLocked_def range_lbids_def upt_rec vss_block_def vss_ex_abs)
  moreover have "fair_node 8 id" by (simp add: fair_node_def)
  ultimately show ?thesis
    using wn_beginVBCopy_contract [of ?n "[?r]" 2457600 8 "\<lambda>_. id" 7 True] n by (simp add: lockable_def BLOCK_SIZE_def) blast
qed

end
