(* ===== verification/VSS_Reach.thy ===== *)
theory VSS_Reach
  imports VB_Purge
begin

text \<open>
  The states of a VSS over histories of its operations, with \<^verbatim>\<open>undoChanges\<close> and \<^verbatim>\<open>removeEntriesFromDB\<close> among them.
\<close>

section \<open>Undo of the removal of a range\<close>

lemma undo_ok_purge_loop:
  assumes "undo_ok s0 (snd s)" "HeaderAt \<in> vss_logged (snd s)"
  shows "undo_ok s0 (snd (fst (vb_purge_loop u fuel l b p i s))) \<and> HeaderAt \<in> vss_logged (snd (fst (vb_purge_loop u fuel l b p i s)))"
  using assms
proof (induction fuel arbitrary: p i s)
  case (Suc fuel)
  obtain c v where s: "s = (c, v)" by (cases s)
  have v: "undo_ok s0 v" "HeaderAt \<in> vss_logged v" using Suc.prems by (simp_all add: s)
  define w where "w = vss_uncount (nat i) (vss_unlink b p (nat i) v)"
  have 1: "undo_ok s0 (vss_unlink b p (nat i) v)" "HeaderAt \<in> vss_logged (vss_unlink b p (nat i) v)"
    using undo_ok_unlink [OF v(1)] v(2) by blast+
  have w: "undo_ok s0 w" "HeaderAt \<in> vss_logged w" using undo_ok_uncount [OF 1] 1(2) by (simp_all add: w_def)
  define rem where "rem = (if vbFlag (vss_storage v ! nat i) \<and> u then vbbm_removeEntry (lbid (vss_storage v ! nat i)) (verID (vss_storage v ! nat i)) c else (c, Inr ()))"
  obtain d r where d: "rem = (d, r)" by (rule prod.exhaust)
  consider "i = -1 \<or> i < 0 \<or> length (vss_storage v) \<le> nat i" | "i \<noteq> -1" "\<not> (i < 0 \<or> length (vss_storage v) \<le> nat i)" by blast
  then show ?case
  proof cases
    case 1
    with v show ?thesis by (auto simp: s)
  next
    case 2
    show ?thesis
    proof (cases "lbid (vss_storage v ! nat i) = l")
      case True
      with 2 have "vb_purge_loop u (Suc fuel) l b p i s = (case r of Inl err \<Rightarrow> ((d, v), Inl err)
         | Inr _ \<Rightarrow> vb_purge_loop u fuel l b p (next_ix (vss_storage w ! nat i)) (d, w))"
        unfolding s vb_purge_loop.simps fst_conv snd_conv Let_def rem_def [symmetric] d w_def [symmetric] by simp
      with v w Suc.IH [of "(d, w)" p "next_ix (vss_storage w ! nat i)"] show ?thesis by (cases r) simp_all
    next
      case False
      with 2 have "vb_purge_loop u (Suc fuel) l b p i s = vb_purge_loop u fuel l b i (next_ix (vss_storage v ! nat i)) (c, v)"
        by (simp add: s Let_def)
      with v Suc.IH [of "(c, v)" i "next_ix (vss_storage v ! nat i)"] show ?thesis by simp
    qed
  qed
qed simp

lemma undo_ok_purge:
  assumes "undo_ok s0 (snd s)" "HeaderAt \<in> vss_logged (snd s)"
  shows "undo_ok s0 (snd (fst (vb_purge u ls s)))"
  using assms
proof (induction ls arbitrary: s)
  case (Cons l ls)
  let ?b = "vss_bucket (snd s) l"
  obtain t r where t: "vb_purge_loop u (Suc (length (vss_storage (snd s)))) l ?b (-1) (vss_buckets (snd s) ! ?b) s = (t, r)"
    by (rule prod.exhaust)
  have T: "undo_ok s0 (snd t)" "HeaderAt \<in> vss_logged (snd t)"
    using undo_ok_purge_loop [OF Cons.prems, of u "Suc (length (vss_storage (snd s)))" l ?b "-1" "vss_buckets (snd s) ! ?b"]
    unfolding t fst_conv by blast+
  have "vb_purge u (l # ls) s = (if length (vss_buckets (snd s)) \<le> ?b then (s, Inl Undefined) else and_then (t, r) (\<lambda>_. vb_purge u ls))"
    unfolding vb_purge.simps Let_def t ..
  with Cons.prems T Cons.IH [OF T] show ?case by (cases r) simp_all
qed simp

lemma undo_ok_removeEntriesFromDB:
  "undo_ok s0 v \<Longrightarrow> undo_ok s0 (snd (fst (vb_removeEntriesFromDB r u (b, v))))"
  unfolding vb_removeEntriesFromDB_def by (rule undo_ok_purge) (simp_all add: undo_ok_record)

section \<open>Reachable states\<close>

text \<open>
  The writes since the last confirmation. An insertion that finds the table full is not among them: the new segment has another
  key, and \<^verbatim>\<open>undoChanges\<close> after it is undefined.
\<close>

inductive vss_since :: "VSS \<Rightarrow> VSS \<Rightarrow> bool" for s where
  since_start: "vss_undo s = [] \<Longrightarrow> vss_since s s"
| since_insert: "vss_since s t \<Longrightarrow> currentSize (vss_hdr t) \<noteq> capacity (vss_hdr t) \<Longrightarrow> vss_since s (fst (vss_insert l v vb lk False t))"
| since_setVBFlag: "vss_since s t \<Longrightarrow> vss_since s (fst (vss_setVBFlag l v vb t))"
| since_removeEntry: "vss_since s t \<Longrightarrow> vss_since s (fst (vss_removeEntry l v t))"
| since_purge: "vss_since s t \<Longrightarrow> vss_since s (snd (fst (vb_removeEntriesFromDB r u (b, t))))"

lemma vss_since_undo: "vss_since s t \<Longrightarrow> vss_undoChanges t = (s, Inr ())"
proof -
  assume "vss_since s t"
  then have "undo_ok s t"
    by (induction rule: vss_since.induct)
      (simp_all add: undo_ok_start undo_ok_insert undo_ok_setVBFlag undo_ok_removeEntry undo_ok_removeEntriesFromDB)
  then show ?thesis by (rule undo_ok_undoChanges)
qed

text \<open>
  The states a process that owns the VSS can produce: it maps a first segment, and then calls the write operations in any order, with
  exceptions leaving the state as it is at the throw. A removal of a range comes with any consistent VBBM; a load reads a file that some
  reachable VSS has saved; an undo takes back the writes since the last confirmation, or a commit.
\<close>

inductive vss_reach :: "VSS \<Rightarrow> bool" where
  reach_create: "\<not> vss_attached s \<Longrightarrow> vss_alloc s = 0 \<Longrightarrow> vss_reach (fst (vss_growVSS s))"
| reach_insert: "vss_reach s \<Longrightarrow> l \<noteq> -1 \<Longrightarrow> vss_reach (fst (vss_insert l v vb lk loading s))"
| reach_setVBFlag: "vss_reach s \<Longrightarrow> vss_reach (fst (vss_setVBFlag l v vb s))"
| reach_removeEntry: "vss_reach s \<Longrightarrow> l \<noteq> -1 \<Longrightarrow> vss_reach (fst (vss_removeEntry l v s))"
| reach_purge: "vss_reach s \<Longrightarrow> vbbm_inv b \<Longrightarrow> unique_keys (vbbm_abs b) \<Longrightarrow> 0 \<le> range_start r \<Longrightarrow>
    vss_reach (snd (fst (vb_removeEntriesFromDB r use_vbbm (b, s))))"
| reach_commit: "vss_reach s \<Longrightarrow> vss_reach (vss_commit txnID s)"
| reach_confirm: "vss_reach s \<Longrightarrow> vss_reach (vss_confirmChanges s)"
| reach_undo: "vss_reach s \<Longrightarrow> vss_since s t \<Longrightarrow> vss_reach (fst (vss_undoChanges t))"
| reach_undo_commit: "vss_reach s \<Longrightarrow> vss_undo s = [] \<Longrightarrow> vss_reach (fst (vss_undoChanges (vss_commit txnID s)))"
| reach_clear: "vss_reach s \<Longrightarrow> vss_reach (fst (vss_clear s))"
| reach_load: "vss_reach s \<Longrightarrow> vss_reach (fst (vss_load (vss_save s) s'))"

lemma vb_removeEntriesFromDB_wf:
  assumes "vss_wf v" "vbbm_inv b" "unique_keys (vbbm_abs b)" "0 \<le> range_start r"
  shows "vss_wf (snd (fst (vb_removeEntriesFromDB r u (b, v))))"
proof -
  have "vss_wf (vss_makeUndoRecord HeaderAt v)" using assms(1) by simp
  moreover have "-1 \<notin> set (range_lbids r)" using assms(4) by (auto simp: range_lbids_def)
  ultimately show ?thesis
    using vb_purge_ok [OF _ _ assms(2,3), of "vss_makeUndoRecord HeaderAt v" "range_lbids r" u] by (auto simp: vb_removeEntriesFromDB_def)
qed

text \<open>An undo of a commit gives back the entries; of the header only the count of locked entries is not the old one.\<close>

lemma commit_step_hdr:
  "\<exists>k. vss_hdr (fold (vss_commit_step txnID) is t) = (vss_hdr t)\<lparr>lockedEntryCount := k\<rparr>"
proof (induction "is" arbitrary: t)
  case Nil
  show ?case by (rule exI [of _ "lockedEntryCount (vss_hdr t)"]) simp
next
  case (Cons i "is")
  have "\<exists>k. vss_hdr (vss_commit_step txnID i t) = (vss_hdr t)\<lparr>lockedEntryCount := k\<rparr>"
    by (rule exI [of _ "lockedEntryCount (vss_hdr (vss_commit_step txnID i t))"]) (simp add: vss_commit_step_def Let_def)
  with Cons.IH [of "vss_commit_step txnID i t"] show ?case by auto
qed

lemma vss_commit_undo:
  assumes "vss_undo s = []"
  shows "\<exists>k. vss_undoChanges (vss_commit txnID s) = (s\<lparr>vss_hdr := (vss_hdr s)\<lparr>lockedEntryCount := k\<rparr>\<rparr>, Inr ())"
proof -
  let ?t = "fold (vss_commit_step txnID) [0..<nat (capacity (vss_hdr s))] s"
  have "storage_undo s ?t" by (rule storage_undo_fold [OF storage_undo_start [OF assms]])
  with commit_step_hdr [of txnID "[0..<nat (capacity (vss_hdr s))]" s] show ?thesis
    by (auto simp: storage_undo_def vss_undoChanges_def vss_undone_def vss_commit_def)
qed

lemma vss_wf_lockedEntryCount: "vss_wf (s\<lparr>vss_hdr := (vss_hdr s)\<lparr>lockedEntryCount := k\<rparr>\<rparr>) = vss_wf s"
  by (simp add: vss_wf_def vss_struct_def vss_count_def)

text \<open>
  C12. Every VSS that these operations reach from a newly mapped segment is consistent: the hash lists are disjoint, acyclic and hold
  exactly the used entries of their bucket, \<^verbatim>\<open>currentSize\<close> counts the used entries, and no entry below \<^verbatim>\<open>LWM\<close> is empty. Left out are an
  undo after the segment has grown, an undo of a commit together with other writes, and files that no reachable VSS has saved.
\<close>

theorem vss_reach_wf: "vss_reach s \<Longrightarrow> vss_wf s"
proof (induction rule: vss_reach.induct)
  case (reach_create s)
  then show ?case by (simp add: vss_growVSS_def Let_def vss_initShmseg_wf)
next
  case (reach_insert s l v vb lk loading)
  with vss_insert_ok [of s l v vb lk loading] show ?case by auto
next
  case (reach_setVBFlag s l v vb)
  with vss_setVBFlag_wf [of s l v vb] show ?case by auto
next
  case (reach_removeEntry s l v)
  with vss_removeEntry_wf [of s l v] show ?case by auto
next
  case (reach_commit s txnID)
  then show ?case by (simp add: vss_commit_wf)
next
  case (reach_confirm s)
  then show ?case by (simp add: vss_confirmChanges_def)
next
  case (reach_purge s b r use_vbbm)
  then show ?case by (simp add: vb_removeEntriesFromDB_wf)
next
  case (reach_undo s t)
  then show ?case by (simp add: vss_since_undo)
next
  case (reach_undo_commit s txnID)
  with vss_commit_undo [of s txnID] show ?case by (auto simp: vss_wf_lockedEntryCount)
next
  case (reach_clear s)
  then show ?case by (auto simp: vss_clear_def intro!: vss_initShmseg_wf)
next
  case (reach_load s s')
  with vss_load_saved [of s s'] show ?case by auto
qed

theorem vss_reach_wf_witness:
  "vss_wf (fst (vss_insert 30 8 False True False (fst (vss_growVSS \<lparr>
     vss_hdr = \<lparr>capacity = 0, currentSize = 0, LWM = 0, numHashBuckets = 0, lockedEntryCount = 0\<rparr>,
     vss_buckets = [], vss_storage = [], vss_undo = [], vss_key = 0x10000, vss_alloc = 0,
     vss_attached = False\<rparr>))))"
  by (rule vss_reach_wf, rule reach_insert, rule reach_create) simp_all

end
