(* ===== verification/Worker_Reach.thy ===== *)
theory Worker_Reach
  imports Worker_Locks VSS_Reach
begin

text \<open>
  Histories of the commands of a worker: the VSS and the VBBM agree at every point. The commands that lock ranges and \<^verbatim>\<open>undoChanges\<close> are among
  them.
\<close>

section \<open>What locking a list of ranges keeps\<close>

lemma lock_pass_keeps:
  assumes "P s" "\<forall>(r, b) \<in> set fl. Q r" "\<And>r s. P s \<Longrightarrow> Q r \<Longrightarrow> P (fst (lockRange r s))"
  shows "P (fst (fst (lock_pass isLocked lockRange fl s))) \<and> map fst (snd (fst (lock_pass isLocked lockRange fl s))) = map fst fl"
  using assms(1,2)
proof (induction fl arbitrary: s)
  case (Cons x fl)
  obtain r b where x: "x = (r, b)" by (cases x)
  obtain u res where u: "lockRange r s = (u, res)" by (rule prod.exhaust)
  have "P u" using assms(3) [OF Cons.prems(1), of r] Cons.prems(2) by (simp add: x u)
  obtain t1 f1 r1 where 1: "lock_pass isLocked lockRange fl s = ((t1, f1), r1)" by (metis prod.exhaust)
  obtain t2 f2 r2 where 2: "lock_pass isLocked lockRange fl u = ((t2, f2), r2)" by (metis prod.exhaust)
  have q: "\<forall>(r, b) \<in> set fl. Q r" using Cons.prems(2) by simp
  have "P t1 \<and> map fst f1 = map fst fl" using Cons.IH [OF Cons.prems(1) q] by (simp add: 1)
  moreover have "P t2 \<and> map fst f2 = map fst fl" using Cons.IH [OF \<open>P u\<close> q] by (simp add: 2)
  ultimately show ?case using \<open>P u\<close> by (cases r1; cases res) (simp_all add: x u 1 2)
qed simp

lemma lock_loop_keeps:
  assumes "P s" "\<forall>r \<in> set (map fst fl). Q r" "\<And>r s. P s \<Longrightarrow> Q r \<Longrightarrow> P (fst (lockRange r s))" "\<And>k s. P s \<Longrightarrow> P (env k s)"
  shows "P (fst (fst (lock_loop isLocked lockRange env n fl s))) \<and> map fst (snd (fst (lock_loop isLocked lockRange env n fl s))) = map fst fl"
  using assms(1,2)
proof (induction n arbitrary: s fl)
  case (Suc n)
  obtain t f r where 1: "lock_pass isLocked lockRange fl s = ((t, f), r)" by (metis prod.exhaust)
  have q: "\<forall>(r, b) \<in> set fl. Q r" using Suc.prems(2) by auto
  from lock_pass_keeps [of P s fl Q lockRange isLocked, OF Suc.prems(1) q assms(3)] have t: "P t" "map fst f = map fst fl" by (simp_all add: 1)
  have "\<forall>r \<in> set (map fst f). Q r" unfolding t(2) by (rule Suc.prems(2))
  from Suc.IH [OF assms(4) [OF t(1)] this] t show ?case by (cases r) (simp_all add: 1)
qed simp

lemma lock_force_keeps:
  assumes "P s" "\<forall>(r, b) \<in> set fl. Q r" "\<And>r s. P s \<Longrightarrow> Q r \<Longrightarrow> P (fst (lockRange r s))" "\<And>r s. P s \<Longrightarrow> P (force r s)"
  shows "P (fst (fst (lock_force force lockRange fl s)))"
  using assms(1,2)
proof (induction fl arbitrary: s)
  case (Cons x fl)
  obtain r b where x: "x = (r, b)" by (cases x)
  obtain u res where u: "lockRange r (force r s) = (u, res)" by (rule prod.exhaust)
  have "P u" using assms(3) [OF assms(4) [OF Cons.prems(1)], of r r] Cons.prems(2) by (simp add: x u)
  obtain t1 f1 r1 where 1: "lock_force force lockRange fl s = ((t1, f1), r1)" by (metis prod.exhaust)
  obtain t2 f2 r2 where 2: "lock_force force lockRange fl u = ((t2, f2), r2)" by (metis prod.exhaust)
  have q: "\<forall>(r, b) \<in> set fl. Q r" using Cons.prems(2) by simp
  have "P t1" using Cons.IH [OF Cons.prems(1) q] by (simp add: 1)
  moreover have "P t2" using Cons.IH [OF \<open>P u\<close> q] by (simp add: 2)
  ultimately show ?case using \<open>P u\<close> by (cases res) (simp_all add: x u 1 2)
qed simp

lemma lock_ranges_keeps:
  assumes "P s" "\<forall>r \<in> set ranges. Q r" "\<And>r s. P s \<Longrightarrow> Q r \<Longrightarrow> P (fst (lockRange r s))" "\<And>r s. P s \<Longrightarrow> P (force r s)" "\<And>k s. P s \<Longrightarrow> P (env k s)"
  shows "P (fst (fst (lock_ranges isLocked lockRange force env ranges s)))"
proof -
  let ?fl = "map (\<lambda>r. (r, False)) ranges"
  have m: "map fst ?fl = ranges" by (simp add: comp_def)
  obtain t f r where 1: "lock_loop isLocked lockRange env maxRetries ?fl s = ((t, f), r)" by (metis prod.exhaust)
  have q: "\<forall>r \<in> set (map fst ?fl). Q r" unfolding m by (rule assms(2))
  from lock_loop_keeps [of P s ?fl Q lockRange env isLocked maxRetries, OF assms(1) q assms(3,5)]
  have t: "P t" "map fst f = ranges" unfolding 1 m fst_conv snd_conv by blast+
  have "\<forall>(r, b) \<in> set f. Q r" using assms(2) unfolding t(2) [symmetric] by auto
  from lock_force_keeps [of P t f Q lockRange force, OF t(1) this assms(3,4)] t(1) show ?thesis
    by (cases r) (simp_all add: lock_ranges_def 1)
qed

lemma release_flagged_keeps: "P s \<Longrightarrow> (\<And>r s. P s \<Longrightarrow> P (rel r s)) \<Longrightarrow> P (release_flagged rel fl s)"
  unfolding release_flagged_def by (induction fl arbitrary: s) auto

section \<open>Aging\<close>

text \<open>A version that goes from both tables, with the rows of its block that nothing pins any more.\<close>

lemma versions_ok_age:
  assumes ok: "versions_ok V B" and v: "(l, v, True, lk) \<in># V" and b: "(l, v, oid, fbo) \<in># B"
  shows "versions_ok (unpin l (V - {#(l, v, True, lk)#})) (B - {#(l, v, oid, fbo)#})"
proof -
  note D = versions_okD [OF ok]
  let ?V = "unpin l (V - {#(l, v, True, lk)#})" and ?B = "B - {#(l, v, oid, fbo)#}"
  have sub: "?V \<subseteq># V" using unpin_subset diff_subset_eq_self by (rule subset_mset.trans)
  have uk: "unique_keys ?V" "unique_keys ?B" using unique_keys_mono [OF D(1) sub] unique_keys_mono [OF D(2)] by simp_all
  have mV: "(l', w, vb, k) \<in># V - {#(l, v, True, lk)#} \<longleftrightarrow> (l', w, vb, k) \<in># V \<and> (l', w) \<noteq> (l, v)" for l' w vb k
    using unique_keys_mem_remove [OF D(1) v, of l' w "(vb, k)"] by simp
  have mB: "(l', w, x) \<in># ?B \<longleftrightarrow> (l', w, x) \<in># B \<and> (l', w) \<noteq> (l, v)" for l' w x
    using unique_keys_mem_remove [OF D(2) b, of l' w x] by simp
  have inV: "r \<in># V" if "r \<in># ?V" for r using mset_subset_eqD [OF sub that] .
  have T: "(l', w, True, k) \<in># ?V \<longleftrightarrow> (l', w, True, k) \<in># V \<and> (l', w) \<noteq> (l, v)" for l' w k
    unfolding unpin_mem mV by blast
  show ?thesis unfolding versions_ok_def
  proof (intro conjI uk)
    show "\<forall>l v vb lk. (l, v, vb, lk) \<in># ?V \<longrightarrow> 0 \<le> l \<and> 0 \<le> v \<and> (lk \<longrightarrow> 0 < v)"
    proof (intro allI impI conjI)
      fix l v vb lk assume "(l, v, vb, lk) \<in># ?V"
      then have a: "(l, v, vb, lk) \<in># V" by (rule inV)
      show "0 \<le> l" "0 \<le> v" by (rule D(3) [OF a], rule D(4) [OF a])
      show "0 < v" if lk using D(10) [of l v vb] a that by simp
    qed
    show "\<forall>l v lk. (l, v, False, lk) \<in># ?V \<longrightarrow> 0 < v \<and> (\<forall>w vb lk'. (l, w, vb, lk') \<in># ?V \<longrightarrow> w \<le> v)" using inV D(5,6) by blast
    show "\<forall>l' w k. (l', w, True, k) \<in># ?V \<longrightarrow> (\<exists>w k. (l', w, False, k) \<in># ?V)"
    proof (intro allI impI)
      fix l' w k assume a: "(l', w, True, k) \<in># ?V"
      then obtain w' k' where c: "(l', w', False, k') \<in># V" using inV D(7) by blast
      have "(l', w') \<noteq> (l, v)" using unique_keys_eq [OF D(1) v, of "(False, k')"] c by auto
      then have "(l', w', False, k') \<in># V - {#(l, v, True, lk)#}" using c by (simp add: mV)
      with a have "(l', w', False, k') \<in># ?V" unfolding unpin_mem by blast
      then show "\<exists>w k. (l', w, False, k) \<in># ?V" by blast
    qed
    show "\<forall>l' w. (\<exists>k. (l', w, True, k) \<in># ?V) \<longleftrightarrow> (\<exists>oid' fbo'. (l', w, oid', fbo') \<in># ?B)"
      unfolding T mB using D(8,9) by blast
  qed
qed

definition agree :: "version_buffer \<Rightarrow> bool" where
  "agree s \<longleftrightarrow> vbbm_inv (fst s) \<and> vss_wf (snd s) \<and> versions_ok (vss_abs (snd s)) (vbbm_abs (fst s))"

lemma agree_step:
  assumes "agree (b, v)" "i < length (vb_storage b)" "used (vb_storage b ! i)"
  shows "\<exists>v' fl b'. vss_removeEntry (lbid (vb_storage b ! i)) (verID (vb_storage b ! i)) v = (v', Inr fl)
    \<and> vbbm_removeEntry (lbid (vb_storage b ! i)) (verID (vb_storage b ! i)) b = (b', Inr ()) \<and> agree (b', v')
    \<and> length (vb_storage b') = length (vb_storage b) \<and> vbCapacity (vb_hdr b') = vbCapacity (vb_hdr b)"
proof -
  let ?l = "lbid (vb_storage b ! i)" and ?v = "verID (vb_storage b ! i)"
  have A: "vbbm_inv b" "vss_wf v" and ok: "versions_ok (vss_abs v) (vbbm_abs b)" using assms(1) by (simp_all add: agree_def)
  have "vbrow (vb_storage b ! i) \<in># vbbm_abs b" using assms(2,3) by (auto simp: mem_vbbm_abs)
  then obtain oid0 fbo0 where r0: "(?l, ?v, oid0, fbo0) \<in># vbbm_abs b" by (auto simp: vbrow_def)
  from vbbm_removeEntry_row [OF A(1) r0] obtain oid fbo b' where
    b': "vbbm_removeEntry ?l ?v b = (b', Inr ())" "vbbm_inv b'" "(?l, ?v, oid, fbo) \<in># vbbm_abs b" "vbbm_abs b' = vbbm_abs b - {#(?l, ?v, oid, fbo)#}" by blast
  have "thinned b b'" using thinned_remove [OF A(1) versions_okD(2) [OF ok] assms(2,3)] b'(1) by (metis prod.inject)
  then have len: "length (vb_storage b') = length (vb_storage b)" "vbCapacity (vb_hdr b') = vbCapacity (vb_hdr b)" by (simp_all add: thinned_def)
  from versions_okD(9) [OF ok r0] obtain lk where lk: "(?l, ?v, True, lk) \<in># vss_abs v" by blast
  have "?l \<noteq> -1" using assms(3) by (simp add: used_def)
  from vss_removeEntry_row [OF A(2) this versions_okD(1) [OF ok] lk] obtain v' fl where
    v': "vss_removeEntry ?l ?v v = (v', Inr fl)" "vss_wf v'" "vss_abs v' = unpin ?l (vss_abs v - {#(?l, ?v, True, lk)#})" by blast
  have "agree (b', v')" using b'(2,4) v'(2,3) versions_ok_age [OF ok lk b'(3)] by (simp add: agree_def)
  with b'(1) v'(1) len show ?thesis by blast
qed

lemma vb_ageLoop_agree:
  assumes "agree (b, v)" "\<forall>i \<in> set is. i < length (vb_storage b)"
  shows "agree (fst (vb_ageLoop oid lo hi is flush (b, v))) \<and> vb_files (fst (fst (vb_ageLoop oid lo hi is flush (b, v)))) = vb_files b
    \<and> length (vb_storage (fst (fst (vb_ageLoop oid lo hi is flush (b, v))))) = length (vb_storage b)"
  using assms
proof (induction "is" arbitrary: b v flush)
  case (Cons i "is")
  have i: "i < length (vb_storage b)" and rng: "\<forall>i \<in> set is. i < length (vb_storage b)" using Cons.prems(2) by simp_all
  show ?case
  proof (cases "age_hit oid lo hi (vb_storage b ! i)")
    case False
    then have "vb_ageLoop oid lo hi (i # is) flush (b, v) = vb_ageLoop oid lo hi is flush (b, v)" by (simp only: vb_ageLoop_Cons if_False)
    with Cons.IH [OF Cons.prems(1) rng, of flush] show ?thesis by simp
  next
    case True
    then have u: "used (vb_storage b ! i)" by (simp add: age_hit_def)
    from agree_step [OF Cons.prems(1) i u] obtain v' fl b' where
      s: "vss_removeEntry (lbid (vb_storage b ! i)) (verID (vb_storage b ! i)) v = (v', Inr fl)"
        "vbbm_removeEntry (lbid (vb_storage b ! i)) (verID (vb_storage b ! i)) b = (b', Inr ())" "agree (b', v')"
        "length (vb_storage b') = length (vb_storage b)" by blast
    have uk: "vbbm_inv b" "unique_keys (vbbm_abs b)" using Cons.prems(1) versions_okD(2) by (auto simp: agree_def)
    have f: "vb_files b' = vb_files b" using thinned_remove [OF uk i u] s(2) by (metis prod.inject thinned_def)
    have step: "vb_ageLoop oid lo hi (i # is) flush (b, v) =
      (case vss_isEntryLocked v (lbid (vb_storage b ! i)) (verID (vb_storage b ! i)) of None \<Rightarrow> ((b, v), Inl Undefined)
       | Some True \<Rightarrow> ((b, v), Inl VBBMBufferOverFlowExcept) | Some False \<Rightarrow> vb_ageLoop oid lo hi is (flush @ fl) (b', v'))"
      using True s(1,2) by (simp only: vb_ageLoop_Cons if_True prod.case sum.case)
    from Cons.IH [OF s(3), of "flush @ fl"] rng s(4) f Cons.prems(1) show ?thesis unfolding step
      by (auto split: option.split bool.split)
  qed
qed simp

lemma vb_ageRanges_agree: "agree s \<Longrightarrow> agree (fst (vb_ageRanges f rs flush s))"
proof (induction rs arbitrary: flush s)
  case (Cons r rs)
  obtain b v where s: "s = (b, v)" by (cases s)
  have cap: "nat (vbCapacity (vb_hdr b)) = length (vb_storage b)"
    using Cons.prems unfolding s agree_def vbbm_inv_def vbbm_struct_def fst_conv by linarith
  show ?case
  proof (cases "vb_ageBounds (fileSize (vb_files b ! f)) r")
    case None
    with Cons show ?thesis by (simp add: s)
  next
    case (Some x)
    obtain lo hi where x: "x = (lo, hi)" by (cases x)
    obtain t res where t: "vb_ageLoop (vbr_OID r) lo hi [0..<length (vb_storage b)] flush (b, v) = (t, res)" by (rule prod.exhaust)
    have "agree t" using vb_ageLoop_agree [of b v "[0..<length (vb_storage b)]" "vbr_OID r" lo hi flush] Cons.prems by (simp add: s t)
    with Cons.IH show ?thesis by (cases res) (simp_all add: s Some x cap t)
  qed
qed simp

lemma vb_gather_keeps:
  "vbbm_inv (fst (vb_gather fuel f left rs b)) = vbbm_inv b \<and> vbbm_abs (fst (vb_gather fuel f left rs b)) = vbbm_abs b"
proof (induction fuel arbitrary: left rs b)
  case (Suc fuel)
  obtain r x where x: "vb_gatherStep left (vb_files b ! f) = (r, x)" by (rule prod.exhaust)
  let ?b = "(vbbm_makeUndoRecord (VBFileAt f) b)\<lparr>vb_files := (vb_files b)[f := x]\<rparr>"
  have "vbbm_inv ?b = vbbm_inv b" "vbbm_abs ?b = vbbm_abs b" unfolding vbbm_makeUndoRecord_def
    by (simp_all add: vbbm_inv_def vbbm_struct_def vbbm_count_def vbbm_abs_def)
  moreover have "vb_files (vbbm_makeUndoRecord (VBFileAt f) b) = vb_files b" by (simp add: vbbm_makeUndoRecord_def)
  ultimately show ?case using Suc.IH [of "left - int (vbr_size r)" "rs @ [r]" ?b] by (simp add: x)
qed simp

text \<open>The file is known and the VBBM has room, so that \<^verbatim>\<open>getBlocks\<close> does not map a new segment.\<close>

definition vb_room :: "OID_t \<Rightarrow> int \<Rightarrow> VBBM \<Rightarrow> bool" where
  "vb_room oid num b \<longleftrightarrow> oid \<in> set (map fileOID (vb_files b)) \<and> vbCurrentSize (vb_hdr b) + num \<le> vbCapacity (vb_hdr b)"

lemma vb_getBlocks_agree:
  assumes "agree s" "vb_room oid num (fst s)"
  shows "agree (fst (vb_getBlocks cfg num oid fl s))"
proof -
  obtain b v where s: "s = (b, v)" by (cases s)
  have inv: "vbbm_inv b" and v: "vss_wf v" "versions_ok (vss_abs v) (vbbm_abs b)" using assms(1) by (simp_all add: s agree_def)
  have n: "nat (nFiles (vb_hdr b)) = length (vb_files b)" using vbbm_invD(6) [OF inv] by simp
  have room: "oid \<in> set (map fileOID (vb_files b))" "vbCurrentSize (vb_hdr b) + num \<le> vbCapacity (vb_hdr b)"
    using assms(2) by (simp_all add: s vb_room_def)
  obtain f where f: "vbbm_addVBFileIfNotExists cfg oid b = (b, Inr f)"
  proof (cases "find (\<lambda>i. fileOID (vb_files b ! i) = oid) [0..<length (vb_files b)]")
    case None
    with room(1) have False by (auto simp: find_None_iff in_set_conv_nth)
    then show ?thesis ..
  next
    case (Some i)
    with that show ?thesis by (simp add: vbbm_addVBFileIfNotExists_def n)
  qed
  obtain c res where c: "vb_gather (2 * nat num + 2) f num [] b = (c, res)" by (rule prod.exhaust)
  have "agree (c, v)" using vb_gather_keeps [of "2 * nat num + 2" f num "[]" b] inv v unfolding c agree_def fst_conv snd_conv by simp
  moreover obtain t r where t: "vb_ageRanges f (case res of Inr rs \<Rightarrow> rs | Inl _ \<Rightarrow> []) [] (c, v) = (t, r)" by (rule prod.exhaust)
  ultimately have "agree t" using vb_ageRanges_agree [of "(c, v)" f "case res of Inr rs \<Rightarrow> rs | Inl _ \<Rightarrow> []" "[]"] by simp
  have grow: "vb_growLoop (Suc k) cfg num b = (b, Inr ())" for k using room(2) by simp
  show ?thesis
  proof (cases "nat (num mod 2 ^ 32) > fileSize (vb_files b ! f) div BLOCK_SIZE")
    case True
    then have "vb_getBlocks cfg num oid fl s = ((b, v), Inl VBBMBufferOverFlowExcept)"
      unfolding vb_getBlocks_def s fst_conv snd_conv f by (simp only: prod.case sum.case if_True)
    with assms(1) show ?thesis by (simp add: s)
  next
    case False
    then have run: "vb_getBlocks cfg num oid fl s = (case (c, res) of (b, Inl err) \<Rightarrow> ((b, v), Inl err)
        | (b, Inr ranges) \<Rightarrow> and_then (vb_ageRanges f ranges [] (b, v)) (\<lambda>flush s. (s, Inr (ranges, if fl then flush else []))))"
      unfolding vb_getBlocks_def s fst_conv snd_conv f by (simp only: prod.case sum.case if_False grow and_then_simps c)
    show ?thesis using \<open>agree (c, v)\<close> \<open>agree t\<close> t unfolding run by (cases res; cases r) simp_all
  qed
qed

section \<open>The start of a copy without growth\<close>

lemma node_ok_agree: "node_ok n \<longleftrightarrow> agree (node_vbbm n, node_vss n) \<and> cl_inv (node_cl n)"
  by (auto simp: node_ok_def node_wf_def node_versions_def agree_def)

lemma cl_releaseRange_node_ok: "node_ok n \<Longrightarrow> node_ok (n\<lparr>node_cl := cl_releaseRange r (node_cl n)\<rparr>)"
  by (simp add: node_ok_agree cl_table.releaseRange_inv)

lemma cl_lockRange_inv: "cl_inv c \<Longrightarrow> lockable r \<Longrightarrow> cl_inv (fst (cl_lockRange txn r c))"
  using cl_table.lockRange_ok [of c r txn] by auto

text \<open>Other processes that leave the VBBM alone and keep the node consistent.\<close>

definition quiet :: "(SlaveDBRMNode \<Rightarrow> SlaveDBRMNode) \<Rightarrow> bool" where
  "quiet f \<longleftrightarrow> (\<forall>n. node_ok n \<longrightarrow> node_ok (f n) \<and> node_vbbm (f n) = node_vbbm n)"

lemma on_vb_getBlocks_ok:
  assumes "node_ok u" "vb_room oid num (node_vbbm u)"
  shows "node_ok (fst (on_vb (vb_getBlocks cfg num oid fl) u))"
proof -
  obtain b v r where g: "vb_getBlocks cfg num oid fl (node_vbbm u, node_vss u) = ((b, v), r)" by (metis prod.exhaust)
  have "agree (b, v)" using vb_getBlocks_agree [of "(node_vbbm u, node_vss u)" oid num cfg fl] assms by (simp add: g node_ok_agree)
  with assms(1) show ?thesis by (simp add: on_vb_def g node_ok_agree)
qed

lemma wn_beginVBCopy_ok:
  assumes n: "node_ok n" and r: "\<forall>r \<in> set ranges. lockable r" and env: "\<And>k. quiet (env k)"
    and room: "vb_room oid (to_i32 (sum_list (map range_size ranges) mod 2 ^ 32)) (node_vbbm n)"
  shows "node_ok (fst (wn_beginVBCopy cfg env txn oid ranges flush n))"
proof -
  let ?n = "n\<lparr>vbbm_locked := True, vss_locked := True\<rparr>" and ?num = "to_i32 (sum_list (map range_size ranges) mod 2 ^ 32)"
  let ?lock = "lock_ranges (\<lambda>r n. cl_isLocked r (node_cl n)) (\<lambda>r. on_cl (cl_lockRange txn r)) (\<lambda>r n. n\<lparr>node_cl := cl_forceRelease r (node_cl n)\<rparr>) env ranges"
  let ?rel = "release_flagged (\<lambda>r n. n\<lparr>node_cl := cl_releaseRange r (node_cl n)\<rparr>)"
  let ?P = "\<lambda>m. node_ok m \<and> node_vbbm m = node_vbbm n"
  obtain ufl res where ufl: "?lock (?n\<lparr>cl_locked := True\<rparr>) = (ufl, res)" by (rule prod.exhaust)
  obtain u fl where "ufl = (u, fl)" by (rule prod.exhaust)
  with ufl have u: "?lock (?n\<lparr>cl_locked := True\<rparr>) = ((u, fl), res)" by (simp only:)
  have "?P (fst (fst (?lock (?n\<lparr>cl_locked := True\<rparr>))))"
  proof (rule lock_ranges_keeps [of ?P, OF _ r])
    show "?P (fst (on_cl (cl_lockRange txn r) m))" if "?P m" "lockable r" for r m
      using that cl_lockRange_inv [of "node_cl m" r txn] by (cases "cl_lockRange txn r (node_cl m)") (auto simp: on_cl_def node_ok_agree)
    show "?P (m\<lparr>node_cl := cl_forceRelease r (node_cl m)\<rparr>)" if "?P m" for r m
      using that cl_releaseRange_node_ok by (simp add: cl_forceRelease_eq)
    show "?P (env k m)" if "?P m" for k m using that env [of k] by (simp add: quiet_def)
  qed (use n in simp)
  then have U: "node_ok u" "node_vbbm u = node_vbbm n" unfolding u fst_conv by blast+
  obtain w wr where w: "and_then (u, res) (\<lambda>_. on_vb (vb_getBlocks cfg ?num oid flush)) = (w, wr)" by (rule prod.exhaust)
  have G: "node_ok (fst (on_vb (vb_getBlocks cfg ?num oid flush) u))" by (rule on_vb_getBlocks_ok [OF U(1)]) (simp only: U(2) room)
  have W: "node_ok w"
  proof (cases res)
    case (Inl e)
    with w U(1) show ?thesis by (simp only: and_then_simps prod.inject)
  next
    case (Inr x)
    with w G show ?thesis by (simp only: and_then_simps fst_conv)
  qed
  have R: "node_ok (?rel fl w)" by (rule release_flagged_keeps [of node_ok, OF W cl_releaseRange_node_ok])
  have "wn_beginVBCopy cfg env txn oid ranges flush n = (case wn_anyLocked ranges txn (node_vss ?n) of None \<Rightarrow> (?n, Inl Undefined)
      | Some True \<Rightarrow> (?n, Inr (-1, [], []))
      | Some False \<Rightarrow> (case (w, wr) of
                  (n, Inr (freeList, flushList)) \<Rightarrow> (n, Inr (0, freeList, flushList))
                | (n, Inl Undefined) \<Rightarrow> (n, Inl Undefined)
                | (n, Inl err) \<Rightarrow> (?rel fl n, Inr (if err = VBBMBufferOverFlowExcept then ERR_VBBM_OVERFLOW else -1, [], []))))"
    unfolding wn_beginVBCopy_def Let_def u prod.case w ..
  moreover have "node_ok ?n" using n by simp
  ultimately show ?thesis using W R by (auto split: option.split bool.split sum.split brm_error.split)
qed

section \<open>The other commands\<close>

lemma wn_dmlLockLBIDRanges_ok:
  assumes "node_ok n" "\<forall>r \<in> set ranges. lockable r" "\<And>k c. cl_inv c \<Longrightarrow> cl_inv (env k c)"
  shows "node_ok (fst (wn_dmlLockLBIDRanges env ranges txn n))"
proof -
  let ?lock = "lock_ranges cl_isLocked (cl_lockRange txn) cl_forceRelease env ranges (node_cl n)"
  obtain cfl res where cfl: "?lock = (cfl, res)" by (rule prod.exhaust)
  obtain c fl where "cfl = (c, fl)" by (rule prod.exhaust)
  with cfl have c: "?lock = ((c, fl), res)" by (simp only:)
  have n: "cl_inv (node_cl n)" using assms(1) by (simp add: node_ok_agree)
  have "cl_inv (fst (fst ?lock))"
    by (rule lock_ranges_keeps [of cl_inv, OF n assms(2)]) (simp_all add: cl_lockRange_inv cl_forceRelease_eq cl_table.releaseRange_inv assms(3))
  then have C: "cl_inv c" by (simp add: c)
  have R: "cl_inv (release_flagged cl_releaseRange fl c)" by (rule release_flagged_keeps [of cl_inv, OF C cl_table.releaseRange_inv])
  have "fst (wn_dmlLockLBIDRanges env ranges txn n) \<in> {n\<lparr>cl_locked := True, node_cl := c\<rparr>, n\<lparr>cl_locked := True, node_cl := release_flagged cl_releaseRange fl c\<rparr>}"
    by (cases res) (auto simp: wn_dmlLockLBIDRanges_def Let_def c split: brm_error.split)
  with assms(1) C R show ?thesis by (auto simp: node_ok_agree)
qed

lemma wn_clear_ok:
  assumes "node_ok n" "1 \<le> fs"
  shows "node_ok (fst (wn_clear (Some fs) n))"
proof -
  let ?b = "node_vbbm n" and ?v = "node_vss n"
  have A: "vbbm_inv ?b" "vss_wf ?v" "cl_inv (node_cl n)" using assms(1) by (simp_all add: node_ok_agree agree_def)
  have "0 \<le> nFiles (vb_hdr ?b)" "nat (nFiles (vb_hdr ?b)) \<le> length (vb_files ?b)" using vbbm_invD(6) [OF A(1)] by simp_all
  from vbbm_clear_ok [OF vbbm_invD(2) [OF A(1)] this assms(2)] obtain b where b: "vbbm_clear (Some fs) ?b = (b, Inr ())" "vbbm_inv b" "vbbm_abs b = {#}" by blast
  let ?w = "vss_initShmseg (?v\<lparr>vss_key := vss_chooseShmkey ?v, vss_alloc := VSS_INITIAL_SIZE\<rparr>)"
  have "vss_attached ?v" using A(2) by (simp add: vss_wf_def)
  then have w: "vss_clear ?v = (?w, Inr ())" "vss_wf ?w" "vss_abs ?w = {#}"
    using vss_chooseShmkey_neq [of ?v] by (auto simp: vss_clear_def intro!: vss_initShmseg_wf)
  have "versions_ok {#} {#}" by (simp add: versions_ok_def unique_keys_def)
  with A(3) b w show ?thesis by (simp add: wn_clear_def on_vbbm_def on_vss_def node_ok_agree agree_def)
qed

lemma wn_undo_vbCommit_ok:
  assumes "node_ok n" "wn_idle n"
  shows "node_ok (fst (wn_undoChanges (fst (wn_vbCommit txn n))))"
proof -
  have "vss_undo (node_vss n) = []" using assms(2) by (simp add: wn_idle_def)
  from vss_commit_undo [OF this, of txn] obtain k where
    k: "vss_undoChanges (vss_commit txn (node_vss n)) = ((node_vss n)\<lparr>vss_hdr := (vss_hdr (node_vss n))\<lparr>lockedEntryCount := k\<rparr>\<rparr>, Inr ())" ..
  have abs: "vss_abs (s\<lparr>vss_hdr := h\<rparr>) = vss_abs s" for s h by (simp add: vss_abs_def)
  show ?thesis using assms k
    by (simp add: wn_vbCommit_def wn_undoChanges_def on_vss_def wn_idle_def node_ok_agree agree_def vss_wf_lockedEntryCount abs)
qed

section \<open>Histories\<close>

text \<open>
  A command, from a node between commands, that \<^verbatim>\<open>undoChanges\<close> takes back.
\<close>

inductive wn_revocable :: "int option \<Rightarrow> SlaveDBRMNode \<Rightarrow> SlaveDBRMNode \<Rightarrow> bool" for cfg t where
  rev_write: "wn_room 1 t \<Longrightarrow> wn_revocable cfg t (fst (wn_writeVBEntry cfg txn l oid fbo t))"
| rev_bulk: "wn_room (length ls) t \<Longrightarrow> wn_revocable cfg t (fst (wn_bulkWriteVBEntry cfg txn ls oid fbos t))"
| rev_commit: "wn_revocable cfg t (fst (wn_vbCommit txn t))"
| rev_roll: "wn_revocable cfg t (fst (wn_vbRollback txn ls flush t))"
| rev_endCopy: "wn_revocable cfg t (fst (wn_endVBCopy txn ranges t))"
| rev_release: "wn_revocable cfg t (fst (wn_dmlReleaseLBIDRanges ranges t))"

lemma wn_revocable_ok:
  assumes "wn_revocable cfg t u" "wn_idle t" "node_ok t"
  shows "node_ok (fst (wn_undoChanges u))"
  using assms
  by (induction rule: wn_revocable.induct)
    (simp_all add: wn_undo_writeVBEntry wn_undo_bulkWriteVBEntry wn_undo_vbCommit_ok wn_undo_vbRollback wn_endVBCopy_def wn_dmlReleaseLBIDRanges_def wn_undo_releaseRanges)

text \<open>
  The states that the commands lead to. A rollback is asked for the blocks whose current version is that of the transaction, as the callers get them
  from \<^verbatim>\<open>getUncommittedLBIDs\<close>. A copy starts with a known file and room in the VBBM, and no other process changes the VBBM meanwhile: when
  \<^verbatim>\<open>getBlocks\<close> grows a VBBM with unused elements it loses entries. An undo comes after one command on a node that has no unconfirmed changes.
\<close>

inductive wn_reach :: "int option \<Rightarrow> SlaveDBRMNode \<Rightarrow> SlaveDBRMNode \<Rightarrow> bool" for cfg n where
  wn_start: "wn_reach cfg n n"
| wn_write: "wn_reach cfg n t \<Longrightarrow> 0 \<le> l \<Longrightarrow> wn_reach cfg n (fst (wn_writeVBEntry cfg txn l oid fbo t))"
| wn_bulk: "wn_reach cfg n t \<Longrightarrow> \<forall>l \<in> set ls. 0 \<le> l \<Longrightarrow> length ls \<le> length fbos \<Longrightarrow>
    wn_reach cfg n (fst (wn_bulkWriteVBEntry cfg txn ls oid fbos t))"
| wn_commit: "wn_reach cfg n t \<Longrightarrow> wn_reach cfg n (fst (wn_vbCommit txn t))"
| wn_roll: "wn_reach cfg n t \<Longrightarrow> distinct ls \<Longrightarrow> \<forall>l \<in> set ls. \<exists>lk. (l, txn, False, lk) \<in># vss_abs (node_vss t) \<Longrightarrow>
    wn_reach cfg n (fst (wn_vbRollback txn ls flush t))"
| wn_beginCopy: "wn_reach cfg n t \<Longrightarrow> \<forall>r \<in> set ranges. lockable r \<Longrightarrow> \<forall>k. quiet (env k) \<Longrightarrow>
    vb_room oid (to_i32 (sum_list (map range_size ranges) mod 2 ^ 32)) (node_vbbm t) \<Longrightarrow> wn_reach cfg n (fst (wn_beginVBCopy cfg env txn oid ranges flush t))"
| wn_endCopy: "wn_reach cfg n t \<Longrightarrow> wn_reach cfg n (fst (wn_endVBCopy txn ranges t))"
| wn_lock: "wn_reach cfg n t \<Longrightarrow> \<forall>r \<in> set ranges. lockable r \<Longrightarrow> \<forall>k c. cl_inv c \<longrightarrow> cl_inv (envc k c) \<Longrightarrow>
    wn_reach cfg n (fst (wn_dmlLockLBIDRanges envc ranges txn t))"
| wn_release: "wn_reach cfg n t \<Longrightarrow> wn_reach cfg n (fst (wn_dmlReleaseLBIDRanges ranges t))"
| wn_clears: "wn_reach cfg n t \<Longrightarrow> 1 \<le> fs \<Longrightarrow> wn_reach cfg n (fst (wn_clear (Some fs) t))"
| wn_confirm: "wn_reach cfg n t \<Longrightarrow> wn_reach cfg n (wn_confirmChanges t)"
| wn_undo: "wn_reach cfg n t \<Longrightarrow> wn_idle t \<Longrightarrow> wn_revocable cfg t u \<Longrightarrow> wn_reach cfg n (fst (wn_undoChanges u))"

lemma wn_reach_ok:
  assumes "wn_reach cfg n t" "node_ok n"
  shows "node_ok t"
  using assms
proof (induction rule: wn_reach.induct)
  case (wn_write t l txn oid fbo)
  then have "node_ok t" by simp
  from wn_writeVBEntry_cases [OF this wn_write.hyps(2), of cfg txn oid fbo] show ?case by auto
next
  case (wn_bulk t ls fbos txn oid)
  then have "node_ok (t\<lparr>vbbm_locked := True, vss_locked := True\<rparr>)" by simp
  from wn_bulkWriteLoop_keeps [OF this wn_bulk.hyps(2), of 0 fbos cfg txn oid] wn_bulk.hyps(3) show ?case
    by (auto simp: wn_bulkWriteVBEntry_def)
next
  case (wn_roll t ls txn flush)
  then have "node_ok t" by simp
  from wn_vbRollback_ok [OF this wn_roll.hyps(2), of txn flush] wn_roll.hyps(3) show ?case by (auto simp: node_versions_def)
next
  case (wn_beginCopy t ranges env oid txn flush)
  then show ?case by (intro wn_beginVBCopy_ok) blast+
next
  case (wn_lock t ranges envc txn)
  then show ?case by (intro wn_dmlLockLBIDRanges_ok) blast+
next
  case (wn_undo t u)
  then show ?case by (intro wn_revocable_ok) blast+
qed (simp_all add: wn_vbCommit_ok wn_endVBCopy_def wn_dmlReleaseLBIDRanges_def wn_releaseRanges_ok wn_clear_ok wn_confirmChanges_ok)

text \<open>
  C2. Over any history of these commands, with transactions in any order, the VSS and the VBBM of a worker stay well formed and in agreement, also after the calls
  that return an error: in particular \<^verbatim>\<open>VSS::checkConsistency\<close> returns \<open>0\<close>, no block has two current versions, and the current version of a block is
  newer than those in the version buffer. The commands are \<^verbatim>\<open>writeVBEntry\<close>, \<^verbatim>\<open>bulkWriteVBEntry\<close>, \<^verbatim>\<open>vbCommit\<close>, \<^verbatim>\<open>vbRollback\<close> of blocks whose current version is the
  transaction's, \<^verbatim>\<open>beginVBCopy\<close> that does not make the VBBM grow, \<^verbatim>\<open>endVBCopy\<close>, \<^verbatim>\<open>dmlLockLBIDRanges\<close>, \<^verbatim>\<open>dmlReleaseLBIDRanges\<close>, \<^verbatim>\<open>clear\<close>, \<^verbatim>\<open>confirmChanges\<close>, and
  \<^verbatim>\<open>undoChanges\<close> after one command other than \<^verbatim>\<open>beginVBCopy\<close>, \<^verbatim>\<open>dmlLockLBIDRanges\<close> and \<^verbatim>\<open>clear\<close> that found room in the segments.
\<close>

theorem wn_history_consistent:
  assumes "wn_reach cfg n t" "node_ok n"
  shows "node_ok t \<and> vss_checkConsistency (node_vbbm t, node_vss t) = Inr 0"
proof
  show ok: "node_ok t" by (rule wn_reach_ok [OF assms])
  then have wf: "vss_wf (node_vss t)" "vbbm_inv (node_vbbm t)" and v: "versions_ok (vss_abs (node_vss t)) (vbbm_abs (node_vbbm t))"
    by (simp_all add: node_ok_def node_wf_def node_versions_def)
  note D = versions_okD [OF v]
  have "\<forall>(l, ver, vb, lk) \<in># vss_abs (node_vss t). 0 \<le> l \<and> 0 \<le> ver" using D(3,4) by auto
  moreover have "\<forall>(l, ver, vb, lk) \<in># vss_abs (node_vss t). vb \<longrightarrow> (\<exists>oid fbo. (l, ver, oid, fbo) \<in># vbbm_abs (node_vbbm t))"
    using D(8) by auto
  moreover have "size {#r \<in># vss_abs (node_vss t). (fst r, fst (snd r)) = (l, ver)#} \<le> 1" for l ver
    using D(1) unfolding unique_keys_def prod.inject by blast
  ultimately show "vss_checkConsistency (node_vbbm t, node_vss t) = Inr 0"
    using vss_checkConsistency_iff [OF wf] by simp
qed

theorem wn_history_consistent_witness:
  "vss_checkConsistency (node_vbbm (fst (wn_vbCommit 8 (fst (wn_writeVBEntry None 8 10 7 51 node_ex)))),
     node_vss (fst (wn_vbCommit 8 (fst (wn_writeVBEntry None 8 10 7 51 node_ex))))) = Inr 0"
proof -
  have "wn_reach None node_ex (fst (wn_vbCommit 8 (fst (wn_writeVBEntry None 8 10 7 51 node_ex))))"
    by (intro wn_commit wn_write wn_start) simp
  from wn_history_consistent [OF this node_ex_ok] show ?thesis by simp
qed

end
