(* ===== verification/Session_Manager.thy ===== *)
theory Session_Manager
  imports Byte_Codec
begin

text \<open>
  \<^verbatim>\<open>versioning/BRM/sessionmanagerserver.cpp\<close>: the transaction ids and version numbers, the active
  transactions by session, the semaphore that bounds their number, and the file with the last
  numbers and the state flags. Every member function runs under the mutex, so a call is one step. A
  call that would sleep has the result \<open>Waits\<close> and enters the wait set of the condition variable; a notification moves a
  call from there to the notified ones, and such a call goes on in a later step where it left off
  (\<open>sm_wake\<close>). The parameter \<open>io\<close> says how the open and the two writes of a save go; the open truncates the file.
\<close>

unbundle bit_operations_syntax

section \<open>State\<close>

type_synonym SID = "32 word"

text \<open>
  How a save goes: the open fails, or it succeeds and each of the two writes returns the number of bytes it
  has written, which may be smaller than what was asked for, or fails (\<open>None\<close>).
\<close>

datatype save_io = OpenFails | Writes "nat option" "nat option"

abbreviation SaveOk :: save_io where "SaveOk \<equiv> Writes (Some 8) (Some 4)"

record TxnID =
  txn_id :: int
  txn_valid :: bool

record SessionManagerServer =
  unique32 :: "32 word"
  unique64 :: "64 word"
  maxTxns :: int
  sm_verID :: int
  sm_sysCatVerID :: int
  systemState :: "32 word"
  activeTxns :: "(SID \<times> int) list"
  semValue :: nat
  txnidFile :: "byte list option"
  condvar :: "(SID \<times> bool) list"
  notified :: "(SID \<times> bool) list"

definition SS_READY :: "32 word" where "SS_READY = push_bit 0 1"
definition SS_SUSPENDED :: "32 word" where "SS_SUSPENDED = push_bit 1 1"
definition SS_SUSPEND_PENDING :: "32 word" where "SS_SUSPEND_PENDING = push_bit 2 1"
definition SS_SHUTDOWN_PENDING :: "32 word" where "SS_SHUTDOWN_PENDING = push_bit 3 1"
definition SS_ROLLBACK :: "32 word" where "SS_ROLLBACK = push_bit 4 1"
definition SS_FORCE :: "32 word" where "SS_FORCE = push_bit 5 1"
definition SS_QUERY_READY :: "32 word" where "SS_QUERY_READY = push_bit 6 1"

section \<open>The file\<close>

text \<open>
  \<^verbatim>\<open>loadState\<close>, with reads that return what the file has: a value that is not there in full keeps its
  default. A file that cannot be opened throws, and the constructor ignores that.
\<close>

definition read_word :: "byte list \<Rightarrow> nat \<Rightarrow> nat option" where
  "read_word f k = (if 4 * k + 4 \<le> length f then Some (bytes_nat (take 4 (drop (4 * k) f))) else None)"

definition sm_loadState :: "SessionManagerServer \<Rightarrow> SessionManagerServer" where
  "sm_loadState s =
     (case txnidFile s of
        None \<Rightarrow> s
      | Some f \<Rightarrow> s\<lparr>
          sm_verID := (case read_word f 0 of Some n \<Rightarrow> to_i32 n | None \<Rightarrow> sm_verID s),
          sm_sysCatVerID := (case read_word f 1 of Some n \<Rightarrow> to_i32 n | None \<Rightarrow> sm_sysCatVerID s),
          systemState := (case read_word f 2 of
              Some n \<Rightarrow> word_of_nat n AND NOT (SS_READY OR SS_QUERY_READY OR SS_SUSPEND_PENDING
                          OR SS_SHUTDOWN_PENDING OR SS_ROLLBACK OR SS_FORCE)
            | None \<Rightarrow> 0)\<rparr>)"

text \<open>
  \<^verbatim>\<open>saveSMTxnIDAndState\<close>. A write that returns fewer bytes than asked for counts as a success, and the next one goes on
  behind the bytes that are there.
\<close>

definition sm_save :: "save_io \<Rightarrow> SessionManagerServer \<Rightarrow> (SessionManagerServer, unit) outcome" where
  "sm_save io s =
     (let filedata = i32_bytes (sm_verID s) @ i32_bytes (sm_sysCatVerID s);
          lSystemState = systemState s
            AND NOT (SS_READY OR SS_QUERY_READY OR SS_SUSPEND_PENDING OR SS_SHUTDOWN_PENDING OR SS_FORCE)
      in case io of
           OpenFails \<Rightarrow> (s, Inl RuntimeError)
         | Writes None _ \<Rightarrow> (s\<lparr>txnidFile := Some []\<rparr>, Inl RuntimeError)
         | Writes (Some k) None \<Rightarrow> (s\<lparr>txnidFile := Some (take k filedata)\<rparr>, Inl RuntimeError)
         | Writes (Some k) (Some j) \<Rightarrow>
             (s\<lparr>txnidFile := Some (take k filedata @ take j (nat_bytes 4 (unat lSystemState)))\<rparr>, Inr ()))"

text \<open>
  The constructor; \<open>conf\<close> is the number of \<^verbatim>\<open>SessionManager/MaxConcurrentTransactions\<close>, \<open>None\<close> when the
  key is missing or empty.
\<close>

definition sm_init :: "int option \<Rightarrow> byte list option \<Rightarrow> SessionManagerServer" where
  "sm_init conf file =
     (let mx = (case conf of
                  None \<Rightarrow> 1
                | Some tmp \<Rightarrow> if tmp < 1 then 1 else to_i32 (nat (tmp mod 2 ^ 32)))
      in sm_loadState \<lparr>unique32 = 0, unique64 = 0, maxTxns = mx, sm_verID = 0, sm_sysCatVerID = 0,
           systemState = 0, activeTxns = [], semValue = nat (mx mod 2 ^ 32), txnidFile = file,
           condvar = [], notified = []\<rparr>)"

text \<open>
  The condition variable: \<^verbatim>\<open>notify_one\<close> wakes one of the calls that sleep, which one is not said (\<open>pick\<close>), and
  \<^verbatim>\<open>notify_all\<close> all of them.
\<close>

definition sm_notify_one :: "nat \<Rightarrow> SessionManagerServer \<Rightarrow> SessionManagerServer" where
  "sm_notify_one pick s =
     (if condvar s = [] then s
      else let c = condvar s ! (pick mod length (condvar s))
           in s\<lparr>condvar := remove1 c (condvar s), notified := c # notified s\<rparr>)"

definition sm_notify_all :: "SessionManagerServer \<Rightarrow> SessionManagerServer" where
  "sm_notify_all s = s\<lparr>condvar := [], notified := condvar s @ notified s\<rparr>"

definition sm_reset :: "SessionManagerServer \<Rightarrow> SessionManagerServer" where
  "sm_reset s = (sm_notify_all (s\<lparr>semValue := nat (maxTxns s mod 2 ^ 32)\<rparr>))\<lparr>activeTxns := []\<rparr>"

section \<open>Transactions\<close>

definition no_txn :: TxnID where
  "no_txn = \<lparr>txn_id = 0, txn_valid = False\<rparr>"

text \<open>
  The part of \<^verbatim>\<open>newTxnID\<close> behind the wait. An increment past the largest \<^verbatim>\<open>int\<close> has no meaning in C++. A failed save
  throws and leaves the transaction active.
\<close>

definition sm_takeSlot :: "save_io \<Rightarrow> SID \<Rightarrow> bool \<Rightarrow> SessionManagerServer \<Rightarrow> (SessionManagerServer, TxnID waiting) outcome" where
  "sm_takeSlot io session isDDL s =
     (let s = s\<lparr>semValue := semValue s - 1\<rparr> in
      if \<not> semValue s \<le> nat (maxTxns s mod 2 ^ 32) then (s, Inl AssertFailed)
      else if sm_verID s + 1 \<ge> 2 ^ 31 \<or> isDDL \<and> sm_sysCatVerID s + 1 \<ge> 2 ^ 31 then (s, Inl Undefined)
      else
        let i = sm_verID s + 1;
            s = s\<lparr>sm_verID := i, activeTxns := om_put session i (activeTxns s)\<rparr>;
            s = (if isDDL then s\<lparr>sm_sysCatVerID := sm_sysCatVerID s + 1\<rparr> else s)
        in and_then (sm_save io s) (\<lambda>_ s. (s, Inr (Returns \<lparr>txn_id = i, txn_valid = True\<rparr>))))"

text \<open>The loop around the condition variable: where a call enters it, and where a notified call goes on.\<close>

definition sm_waitLoop :: "save_io \<Rightarrow> SID \<Rightarrow> bool \<Rightarrow> SessionManagerServer \<Rightarrow> (SessionManagerServer, TxnID waiting) outcome" where
  "sm_waitLoop io session isDDL s =
     (if semValue s = 0 then (s\<lparr>condvar := (session, isDDL) # condvar s\<rparr>, Inr Waits) else sm_takeSlot io session isDDL s)"

definition sm_wake :: "save_io \<Rightarrow> SID \<Rightarrow> bool \<Rightarrow> SessionManagerServer \<Rightarrow> (SessionManagerServer, TxnID waiting) outcome" where
  "sm_wake io session isDDL s = sm_waitLoop io session isDDL (s\<lparr>notified := remove1 (session, isDDL) (notified s)\<rparr>)"

definition sm_newTxnID :: "save_io \<Rightarrow> SID \<Rightarrow> bool \<Rightarrow> bool \<Rightarrow> SessionManagerServer \<Rightarrow>
    (SessionManagerServer, TxnID waiting) outcome" where
  "sm_newTxnID io session block isDDL s =
     (case map_of (activeTxns s) session of
        Some i \<Rightarrow> (s, Inr (Returns \<lparr>txn_id = i, txn_valid = True\<rparr>))
      | None \<Rightarrow>
          if \<not> block \<and> semValue s = 0 then (s, Inr (Returns no_txn))
          else sm_waitLoop io session isDDL s)"

text \<open>\<^verbatim>\<open>finishTransaction\<close>, which is \<^verbatim>\<open>committed\<close> and \<^verbatim>\<open>rolledback\<close>: the result is the argument as it is left.\<close>

definition sm_finishTransaction :: "nat \<Rightarrow> TxnID \<Rightarrow> SessionManagerServer \<Rightarrow> (SessionManagerServer, TxnID) outcome" where
  "sm_finishTransaction pick txn s =
     (if \<not> txn_valid txn then (s, Inl InvalidArgument)
      else
        let found = list_ex (\<lambda>(sid, i). i = txn_id txn) (activeTxns s);
            s = s\<lparr>activeTxns := filter (\<lambda>(sid, i). i \<noteq> txn_id txn) (activeTxns s)\<rparr>
        in if found
           then let s = s\<lparr>semValue := (semValue s + 1) mod 2 ^ 32\<rparr> in
                if \<not> semValue s \<le> nat (maxTxns s mod 2 ^ 32) then (s, Inl AssertFailed)
                else (sm_notify_one pick s, Inr (txn\<lparr>txn_valid := False\<rparr>))
           else (s, Inl InvalidArgument))"

definition sm_getTxnID :: "SID \<Rightarrow> SessionManagerServer \<Rightarrow> TxnID" where
  "sm_getTxnID session s =
     (case map_of (activeTxns s) session of
        Some i \<Rightarrow> \<lparr>txn_id = i, txn_valid = True\<rparr>
      | None \<Rightarrow> no_txn)"

text \<open>The query contexts: the version number and the active transactions.\<close>

definition sm_ver :: "SessionManagerServer \<Rightarrow> int \<times> int list" where
  "sm_ver s = (sm_verID s, map snd (activeTxns s))"

definition sm_sysCatVer :: "SessionManagerServer \<Rightarrow> int \<times> int list" where
  "sm_sysCatVer s = (sm_sysCatVerID s, map snd (activeTxns s))"

definition sm_SIDTIDMap :: "SessionManagerServer \<Rightarrow> (SID \<times> TxnID) list" where
  "sm_SIDTIDMap s = map (\<lambda>(sid, i). (sid, \<lparr>txn_id = i, txn_valid = True\<rparr>)) (activeTxns s)"

definition sm_getTxnCount :: "SessionManagerServer \<Rightarrow> nat" where
  "sm_getTxnCount s = length (activeTxns s)"

definition sm_setSystemState :: "save_io \<Rightarrow> 32 word \<Rightarrow> SessionManagerServer \<Rightarrow> (SessionManagerServer, unit) outcome" where
  "sm_setSystemState io st s = sm_save io (s\<lparr>systemState := systemState s OR st\<rparr>)"

definition sm_clearSystemState :: "save_io \<Rightarrow> 32 word \<Rightarrow> SessionManagerServer \<Rightarrow> (SessionManagerServer, unit) outcome" where
  "sm_clearSystemState io st s = sm_save io (s\<lparr>systemState := systemState s AND NOT st\<rparr>)"

definition sm_getUnique32 :: "SessionManagerServer \<Rightarrow> SessionManagerServer \<times> 32 word" where
  "sm_getUnique32 s = (s\<lparr>unique32 := unique32 s + 1\<rparr>, unique32 s + 1)"

definition sm_getUnique64 :: "SessionManagerServer \<Rightarrow> SessionManagerServer \<times> 64 word" where
  "sm_getUnique64 s = (s\<lparr>unique64 := unique64 s + 1\<rparr>, unique64 s + 1)"

section \<open>Reachable states\<close>

text \<open>
  The states of a server over several runs, each started from the file the run before has left, with the
  new transaction ids that callers have got, the last one first. Any call may come at any time, with any outcome of its save,
  and a sleeping call may wake up without a notification. Two flags restrict the histories: with \<open>single\<close> a
  session has at most one call of \<^verbatim>\<open>newTxnID\<close> open, and with \<open>keep\<close> every save whose open succeeds gets at least the version number
  (its first four bytes) into the file. A call that would increment the largest \<^verbatim>\<open>int\<close> ends the history.
\<close>

definition ver_kept :: "save_io \<Rightarrow> bool" where
  "ver_kept io \<longleftrightarrow> (case io of OpenFails \<Rightarrow> True | Writes None _ \<Rightarrow> False | Writes (Some k) _ \<Rightarrow> 4 \<le> k)"

definition issued :: "brm_error + TxnID waiting \<Rightarrow> int list" where
  "issued r = (case r of Inr (Returns txn) \<Rightarrow> if txn_valid txn then [txn_id txn] else [] | _ \<Rightarrow> [])"

definition sm_waiting :: "SessionManagerServer \<Rightarrow> SID set" where
  "sm_waiting s = fst ` (set (condvar s) \<union> set (notified s))"

inductive sm_reach :: "bool \<Rightarrow> bool \<Rightarrow> SessionManagerServer \<Rightarrow> int list \<Rightarrow> bool" for single keep where
  sm_start: "sm_reach single keep (sm_init conf file) []"
| sm_restart: "sm_reach single keep s ids \<Longrightarrow> sm_reach single keep (sm_init conf (txnidFile s)) ids"
| sm_new: "sm_reach single keep s ids \<Longrightarrow> (keep \<Longrightarrow> ver_kept io) \<Longrightarrow> (single \<Longrightarrow> session \<notin> sm_waiting s) \<Longrightarrow>
     sm_newTxnID io session block isDDL s = (t, r) \<Longrightarrow> r \<noteq> Inl Undefined \<Longrightarrow>
     sm_reach single keep t ((if map_of (activeTxns s) session = None then issued r else []) @ ids)"
| sm_wakes: "sm_reach single keep s ids \<Longrightarrow> (keep \<Longrightarrow> ver_kept io) \<Longrightarrow> (session, isDDL) \<in> set (notified s) \<Longrightarrow>
     sm_wake io session isDDL s = (t, r) \<Longrightarrow> r \<noteq> Inl Undefined \<Longrightarrow> sm_reach single keep t (issued r @ ids)"
| sm_spurious: "sm_reach single keep s ids \<Longrightarrow> sm_reach single keep (sm_notify_one pick s) ids"
| sm_finish: "sm_reach single keep s ids \<Longrightarrow> sm_reach single keep (fst (sm_finishTransaction pick txn s)) ids"
| sm_resets: "sm_reach single keep s ids \<Longrightarrow> sm_reach single keep (sm_reset s) ids"
| sm_set: "sm_reach single keep s ids \<Longrightarrow> (keep \<Longrightarrow> ver_kept io) \<Longrightarrow> sm_reach single keep (fst (sm_setSystemState io st s)) ids"
| sm_clear: "sm_reach single keep s ids \<Longrightarrow> (keep \<Longrightarrow> ver_kept io) \<Longrightarrow> sm_reach single keep (fst (sm_clearSystemState io st s)) ids"
| sm_u64: "sm_reach single keep s ids \<Longrightarrow> sm_reach single keep (fst (sm_getUnique64 s)) ids"
| sm_u32: "sm_reach single keep s ids \<Longrightarrow> sm_reach single keep (fst (sm_getUnique32 s)) ids"

text \<open>
  The invariant of every history. The last part is why no wake-up is lost: while a call sleeps, every free
  slot has a notified call that has not run yet.
\<close>

definition sm_inv :: "SessionManagerServer \<Rightarrow> bool" where
  "sm_inv s \<longleftrightarrow> om_ok (activeTxns s) \<and> distinct (map snd (activeTxns s))
     \<and> (\<forall>i \<in> set (map snd (activeTxns s)). i \<le> sm_verID s)
     \<and> semValue s + length (activeTxns s) \<le> nat (maxTxns s mod 2 ^ 32)
     \<and> - (2 ^ 31) \<le> sm_verID s \<and> sm_verID s < 2 ^ 31 \<and> - (2 ^ 31) \<le> sm_sysCatVerID s \<and> sm_sysCatVerID s < 2 ^ 31
     \<and> (condvar s \<noteq> [] \<longrightarrow> semValue s \<le> length (notified s))"

text \<open>With one open call per session, a waiting session has no transaction and the slots add up.\<close>

definition sm_single :: "SessionManagerServer \<Rightarrow> bool" where
  "sm_single s \<longleftrightarrow> distinct (map fst (condvar s @ notified s))
     \<and> (\<forall>sid \<in> sm_waiting s. map_of (activeTxns s) sid = None)
     \<and> semValue s + length (activeTxns s) = nat (maxTxns s mod 2 ^ 32)"

text \<open>The version number a run started from the file begins with.\<close>

definition saved_ver :: "byte list option \<Rightarrow> int" where
  "saved_ver file = (case file of None \<Rightarrow> 0 | Some f \<Rightarrow> (case read_word f 0 of Some n \<Rightarrow> to_i32 n | None \<Rightarrow> 0))"

text \<open>The ids returned so far are in the file.\<close>

definition sm_recorded :: "SessionManagerServer \<Rightarrow> int list \<Rightarrow> bool" where
  "sm_recorded s ids \<longleftrightarrow> saved_ver (txnidFile s) \<le> sm_verID s \<and> (\<forall>i \<in> set ids. i \<le> saved_ver (txnidFile s)) \<and> sorted_wrt (>) ids"

lemma to_i32_bounds: "- (2 ^ 31) \<le> to_i32 n" "to_i32 n < 2 ^ 31"
  unfolding to_i32_def using pos_mod_bound [of "2 ^ 32" "int n + 2 ^ 31"] pos_mod_sign [of "2 ^ 32" "int n + 2 ^ 31"]
  by simp_all

lemma sm_init_facts:
  "sm_inv (sm_init conf file)" "sm_single (sm_init conf file)" "sm_verID (sm_init conf file) = saved_ver file"
  "txnidFile (sm_init conf file) = file" "activeTxns (sm_init conf file) = []" "condvar (sm_init conf file) = []"
  "notified (sm_init conf file) = []"
proof -
  show v: "sm_verID (sm_init conf file) = saved_ver file" "txnidFile (sm_init conf file) = file"
    "activeTxns (sm_init conf file) = []" "condvar (sm_init conf file) = []" "notified (sm_init conf file) = []"
    by (simp_all add: sm_init_def sm_loadState_def saved_ver_def Let_def split: option.split)
  have sem: "semValue (sm_init conf file) = nat (maxTxns (sm_init conf file) mod 2 ^ 32)"
    by (simp add: sm_init_def sm_loadState_def Let_def split: option.split)
  moreover have "- (2 ^ 31) \<le> sm_verID (sm_init conf file)" "sm_verID (sm_init conf file) < 2 ^ 31"
    unfolding v saved_ver_def using to_i32_bounds by (simp_all split: option.split)
  moreover have "- (2 ^ 31) \<le> sm_sysCatVerID (sm_init conf file) \<and> sm_sysCatVerID (sm_init conf file) < 2 ^ 31"
    using to_i32_bounds by (simp add: sm_init_def sm_loadState_def Let_def split: option.split)
  ultimately show "sm_inv (sm_init conf file)" by (simp add: sm_inv_def v)
  show "sm_single (sm_init conf file)" using sem by (simp add: sm_single_def sm_waiting_def v)
qed

section \<open>Saves\<close>

text \<open>A save changes the file only, and leaves by a \<^verbatim>\<open>runtime_error\<close> if at all.\<close>

lemma sm_save_result: "\<exists>f. sm_save io s = (s\<lparr>txnidFile := f\<rparr>, Inl RuntimeError) \<or> sm_save io s = (s\<lparr>txnidFile := f\<rparr>, Inr ())"
proof (cases io)
  case OpenFails
  then show ?thesis by (intro exI [of _ "txnidFile s"]) (simp add: sm_save_def Let_def)
next
  case (Writes w1 w2)
  then have "fst (sm_save io s) = s\<lparr>txnidFile := txnidFile (fst (sm_save io s))\<rparr>"
    "snd (sm_save io s) \<in> {Inl RuntimeError, Inr ()}"
    by (simp_all add: sm_save_def Let_def split: option.split)
  then show ?thesis by (metis insertE prod.collapse singletonD)
qed

lemma sm_save_frame:
  obtains f where "sm_save io s = (s\<lparr>txnidFile := f\<rparr>, Inl RuntimeError)" | f where "sm_save io s = (s\<lparr>txnidFile := f\<rparr>, Inr ())"
  using sm_save_result [of io s] by blast

lemma sm_save_kept:
  assumes "- (2 ^ 31) \<le> sm_verID s" "sm_verID s < 2 ^ 31" "ver_kept io" "sm_save io s = (t, r)"
  shows "txnidFile t = txnidFile s \<and> r = Inl RuntimeError \<or> saved_ver (txnidFile t) = sm_verID s"
proof -
  have v: "saved_ver (Some (take k (i32_bytes (sm_verID s) @ w) @ x)) = sm_verID s" if "4 \<le> k" for k w x
  proof -
    have "take k (i32_bytes (sm_verID s) @ w) @ x = i32_bytes (sm_verID s) @ take (k - 4) w @ x" using that by simp
    then show ?thesis using assms(1,2) by (simp add: saved_ver_def read_word_def i32_round_trip)
  qed
  have v': "saved_ver (Some (take k (i32_bytes (sm_verID s) @ w))) = sm_verID s" if "4 \<le> k" for k w
    using v [OF that, of w "[]"] by simp
  show ?thesis
  proof (cases io)
    case OpenFails
    with assms(4) show ?thesis by (simp add: sm_save_def Let_def)
  next
    case (Writes w1 w2)
    with assms(3) obtain k where k: "w1 = Some k" "4 \<le> k" by (auto simp: ver_kept_def split: option.splits)
    show ?thesis
    proof (cases w2)
      case None
      with assms(4) Writes k(1) have "txnidFile t = Some (take k (i32_bytes (sm_verID s) @ i32_bytes (sm_sysCatVerID s)))"
        by (auto simp: sm_save_def Let_def)
      then show ?thesis by (intro disjI2) (simp only: v' [OF k(2)])
    next
      case (Some j)
      with assms(4) Writes k(1) obtain x where "txnidFile t = Some (take k (i32_bytes (sm_verID s) @ i32_bytes (sm_sysCatVerID s)) @ x)"
        by (auto simp: sm_save_def Let_def)
      then show ?thesis by (intro disjI2) (simp only: v [OF k(2)])
    qed
  qed
qed

section \<open>Steps\<close>

text \<open>The state in which \<^verbatim>\<open>newTxnID\<close> saves.\<close>

definition sm_slotTaken :: "SID \<Rightarrow> bool \<Rightarrow> SessionManagerServer \<Rightarrow> SessionManagerServer" where
  "sm_slotTaken session isDDL s = s\<lparr>semValue := semValue s - 1, sm_verID := sm_verID s + 1,
     activeTxns := om_put session (sm_verID s + 1) (activeTxns s),
     sm_sysCatVerID := sm_sysCatVerID s + of_bool isDDL\<rparr>"

lemma sm_slotTaken_simps [simp]:
  "sm_verID (sm_slotTaken session isDDL s) = sm_verID s + 1" "txnidFile (sm_slotTaken session isDDL s) = txnidFile s"
  "activeTxns (sm_slotTaken session isDDL s) = om_put session (sm_verID s + 1) (activeTxns s)"
  "semValue (sm_slotTaken session isDDL s) = semValue s - 1" "maxTxns (sm_slotTaken session isDDL s) = maxTxns s"
  "condvar (sm_slotTaken session isDDL s) = condvar s" "notified (sm_slotTaken session isDDL s) = notified s"
  by (simp_all add: sm_slotTaken_def)

lemma sm_takeSlot_cases:
  assumes "semValue s \<le> nat (maxTxns s mod 2 ^ 32)" "0 < semValue s" "sm_takeSlot io session isDDL s = (t, r)" "r \<noteq> Inl Undefined"
  obtains f where "t = (sm_slotTaken session isDDL s)\<lparr>txnidFile := f\<rparr>" "sm_verID s + 1 < 2 ^ 31" "isDDL \<Longrightarrow> sm_sysCatVerID s + 1 < 2 ^ 31"
    "r = Inl RuntimeError \<and> sm_save io (sm_slotTaken session isDDL s) = (t, Inl RuntimeError)
     \<or> r = Inr (Returns \<lparr>txn_id = sm_verID s + 1, txn_valid = True\<rparr>) \<and> sm_save io (sm_slotTaken session isDDL s) = (t, Inr ())"
proof -
  let ?u = "sm_slotTaken session isDDL s"
  have sem: "semValue s - 1 \<le> nat (maxTxns s mod 2 ^ 32)" using assms(1) by simp
  have upd: "(if isDDL then u\<lparr>sm_sysCatVerID := sm_sysCatVerID u + 1\<rparr> else u) = u\<lparr>sm_sysCatVerID := sm_sysCatVerID u + of_bool isDDL\<rparr>" for u
    by simp
  have "sm_takeSlot io session isDDL s =
      (if sm_verID s + 1 \<ge> 2 ^ 31 \<or> isDDL \<and> sm_sysCatVerID s + 1 \<ge> 2 ^ 31 then (s\<lparr>semValue := semValue s - 1\<rparr>, Inl Undefined)
       else and_then (sm_save io ?u) (\<lambda>_ u. (u, Inr (Returns \<lparr>txn_id = sm_verID s + 1, txn_valid = True\<rparr>))))"
    unfolding sm_takeSlot_def Let_def upd sm_slotTaken_def using sem by simp
  with assms(3,4) have n: "sm_verID s + 1 < 2 ^ 31" "isDDL \<Longrightarrow> sm_sysCatVerID s + 1 < 2 ^ 31"
      "and_then (sm_save io ?u) (\<lambda>_ u. (u, Inr (Returns \<lparr>txn_id = sm_verID s + 1, txn_valid = True\<rparr>))) = (t, r)"
    by (simp_all split: if_splits)
  show thesis
  proof (cases rule: sm_save_frame [of io ?u])
    case (1 f)
    with n that [of f] show thesis by simp
  next
    case (2 f)
    with n that [of f] show thesis by simp
  qed
qed

text \<open>Taking a slot; \<open>k\<close> is one more when the call has just left the notified ones.\<close>

lemma sm_slotTaken_inv:
  assumes inv: "sm_inv s" and n: "0 < semValue s" "sm_verID s + 1 < 2 ^ 31" "isDDL \<Longrightarrow> sm_sysCatVerID s + 1 < 2 ^ 31"
    and w: "length (notified s) \<le> Suc (length ns)"
  shows "sm_inv ((sm_slotTaken session isDDL s)\<lparr>notified := ns, txnidFile := f\<rparr>)"
proof -
  from inv have I: "om_ok (activeTxns s)" "distinct (map snd (activeTxns s))"
    "\<forall>i \<in> set (map snd (activeTxns s)). i \<le> sm_verID s"
    "semValue s + length (activeTxns s) \<le> nat (maxTxns s mod 2 ^ 32)" by (simp_all add: sm_inv_def)
  let ?m = "om_put session (sm_verID s + 1) (activeTxns s)"
  have ok: "om_ok ?m" using I(1) by blast
  have set: "set ?m = insert (session, sm_verID s + 1) {x \<in> set (activeTxns s). fst x \<noteq> session}" by (rule set_put [OF I(1)])
  have len: "length ?m \<le> Suc (length (activeTxns s))" using length_put [OF I(1), of session "sm_verID s + 1"] by (simp split: if_splits)
  have "distinct (map snd ?m)"
  proof (subst distinct_map, intro conjI)
    show "distinct ?m" using om_ok_distinct [OF ok] by (simp add: distinct_map)
    have "inj_on snd (set (activeTxns s))" using I(2) by (simp add: distinct_map)
    moreover have "sm_verID s + 1 \<notin> snd ` set (activeTxns s)" using I(3) by fastforce
    ultimately show "inj_on snd (set ?m)" unfolding set by (auto simp: inj_on_def image_iff)
  qed
  moreover have "\<forall>i \<in> set (map snd ?m). i \<le> sm_verID s + 1" using I(3) by (auto simp: set)
  moreover have "semValue s - 1 + length ?m \<le> nat (maxTxns s mod 2 ^ 32)" using I(4) n(1) len by simp
  moreover have "condvar s \<noteq> [] \<Longrightarrow> semValue s - 1 \<le> length ns"
  proof -
    assume "condvar s \<noteq> []"
    then have "semValue s \<le> length (notified s)" using inv by (simp add: sm_inv_def)
    with w show "semValue s - 1 \<le> length ns" by linarith
  qed
  ultimately show ?thesis using inv n ok by (simp add: sm_inv_def sm_slotTaken_def)
qed

text \<open>A call that gets a slot, as a new call (\<open>ns\<close> are the notified calls) or after a notification (\<open>ns\<close> without the call).\<close>

lemma sm_takeSlot_step:
  assumes inv: "sm_inv s" and sem: "0 < semValue s" and w: "length (notified s) \<le> Suc (length ns)"
    and run: "sm_takeSlot io session isDDL (s\<lparr>notified := ns\<rparr>) = (t, r)" "r \<noteq> Inl Undefined"
  shows "sm_inv t" "r = Inl RuntimeError \<or> r = Inr (Returns \<lparr>txn_id = sm_verID s + 1, txn_valid = True\<rparr>)"
    "activeTxns t = om_put session (sm_verID s + 1) (activeTxns s)" "semValue t = semValue s - 1" "maxTxns t = maxTxns s"
    "condvar t = condvar s" "notified t = ns"
    "ver_kept io \<Longrightarrow> sm_recorded s ids \<Longrightarrow> sm_recorded t (issued r @ ids)"
proof -
  let ?s = "s\<lparr>notified := ns\<rparr>"
  have le: "semValue ?s \<le> nat (maxTxns ?s mod 2 ^ 32)" using inv by (simp add: sm_inv_def)
  have sem': "0 < semValue ?s" using sem by simp
  obtain f where t: "t = (sm_slotTaken session isDDL ?s)\<lparr>txnidFile := f\<rparr>" and v: "sm_verID s + 1 < 2 ^ 31" "isDDL \<Longrightarrow> sm_sysCatVerID s + 1 < 2 ^ 31"
    and res: "r = Inl RuntimeError \<and> sm_save io (sm_slotTaken session isDDL ?s) = (t, Inl RuntimeError)
      \<or> r = Inr (Returns \<lparr>txn_id = sm_verID s + 1, txn_valid = True\<rparr>) \<and> sm_save io (sm_slotTaken session isDDL ?s) = (t, Inr ())"
    using sm_takeSlot_cases [OF le sem' run] by auto
  have "t = (sm_slotTaken session isDDL s)\<lparr>notified := ns, txnidFile := f\<rparr>" by (simp add: t sm_slotTaken_def)
  with sm_slotTaken_inv [OF inv sem v w] show "sm_inv t" by simp
  show "r = Inl RuntimeError \<or> r = Inr (Returns \<lparr>txn_id = sm_verID s + 1, txn_valid = True\<rparr>)" using res by blast
  show "activeTxns t = om_put session (sm_verID s + 1) (activeTxns s)" "semValue t = semValue s - 1" "maxTxns t = maxTxns s"
    "condvar t = condvar s" "notified t = ns" by (simp_all add: t)
  assume kept: "ver_kept io" and rec: "sm_recorded s ids"
  have vt: "sm_verID t = sm_verID s + 1" by (simp add: t)
  have "- (2 ^ 31) \<le> sm_verID (sm_slotTaken session isDDL ?s)" "sm_verID (sm_slotTaken session isDDL ?s) < 2 ^ 31"
    using inv v(1) by (simp_all add: sm_inv_def)
  from sm_save_kept [OF this kept] res consider (old) "r = Inl RuntimeError" "txnidFile t = txnidFile s"
    | (new) "saved_ver (txnidFile t) = sm_verID s + 1" by fastforce
  then show "sm_recorded t (issued r @ ids)"
  proof cases
    case old
    with rec vt show ?thesis by (simp add: sm_recorded_def issued_def)
  next
    case new
    have "\<forall>i \<in> set ids. i < sm_verID s + 1" using rec unfolding sm_recorded_def by force
    then have "\<forall>i \<in> set ids. i \<le> sm_verID s + 1" by force
    with rec vt new res \<open>\<forall>i \<in> set ids. i < sm_verID s + 1\<close> show ?thesis
      by (auto simp: sm_recorded_def issued_def)
  qed
qed

lemma sm_newTxnID_cases:
  assumes "sm_newTxnID io session block isDDL s = (t, r)"
  obtains (same) "t = s" "map_of (activeTxns s) session = None \<Longrightarrow> issued r = []" "r \<noteq> Inl AssertFailed"
  | (sleeps) "map_of (activeTxns s) session = None" "semValue s = 0" "t = s\<lparr>condvar := (session, isDDL) # condvar s\<rparr>" "r = Inr Waits"
  | (slot) "map_of (activeTxns s) session = None" "0 < semValue s" "sm_takeSlot io session isDDL (s\<lparr>notified := notified s\<rparr>) = (t, r)"
proof (cases "map_of (activeTxns s) session")
  case (Some i)
  with assms show thesis by (intro same) (auto simp: sm_newTxnID_def)
next
  case None
  note N = this
  show thesis
  proof (cases "semValue s = 0")
    case True
    show thesis
    proof (cases block)
      case True
      with N \<open>semValue s = 0\<close> assms show thesis by (intro sleeps) (simp_all add: sm_newTxnID_def sm_waitLoop_def)
    next
      case False
      with N \<open>semValue s = 0\<close> assms show thesis by (intro same) (auto simp: sm_newTxnID_def issued_def no_txn_def)
    qed
  next
    case False
    with N assms show thesis by (intro slot) (simp_all add: sm_newTxnID_def sm_waitLoop_def)
  qed
qed

lemma sm_wake_cases:
  assumes "sm_wake io session isDDL s = (t, r)"
  obtains (sleeps) "semValue s = 0" "t = s\<lparr>notified := remove1 (session, isDDL) (notified s), condvar := (session, isDDL) # condvar s\<rparr>" "r = Inr Waits"
  | (slot) "0 < semValue s" "sm_takeSlot io session isDDL (s\<lparr>notified := remove1 (session, isDDL) (notified s)\<rparr>) = (t, r)"
  using assms by (cases "semValue s = 0") (auto simp: sm_wake_def sm_waitLoop_def intro: that)

lemma sm_notify_one_facts:
  "semValue (sm_notify_one pick s) = semValue s" "maxTxns (sm_notify_one pick s) = maxTxns s" "activeTxns (sm_notify_one pick s) = activeTxns s"
  "sm_verID (sm_notify_one pick s) = sm_verID s" "sm_sysCatVerID (sm_notify_one pick s) = sm_sysCatVerID s"
  "txnidFile (sm_notify_one pick s) = txnidFile s"
  "mset (condvar (sm_notify_one pick s) @ notified (sm_notify_one pick s)) = mset (condvar s @ notified s)"
  "length (notified (sm_notify_one pick s)) = length (notified s) + of_bool (condvar s \<noteq> [])"
  by (simp_all add: sm_notify_one_def Let_def)

lemma sm_waiting_mset: "sm_waiting s = fst ` set_mset (mset (condvar s @ notified s))"
  by (simp add: sm_waiting_def)

lemma sm_distinct_mset: "distinct (map fst xs) \<longleftrightarrow> (\<forall>i. count (image_mset fst (mset xs)) i \<le> 1)"
proof -
  have "image_mset fst (mset xs) = mset (map fst xs)" by simp
  then show ?thesis using distinct_count_atmost_1 [of "map fst xs"] by (metis count_eq_zero_iff le_eq_less_or_eq less_one nat_le_linear set_mset_mset)
qed

lemma sm_single_cong:
  assumes "sm_single s" "mset (condvar t @ notified t) = mset (condvar s @ notified s)" "activeTxns t = activeTxns s"
    "semValue t = semValue s" "maxTxns t = maxTxns s"
  shows "sm_single t"
  using assms unfolding sm_single_def sm_distinct_mset sm_waiting_mset by simp

lemma sm_notify_one_inv: "sm_inv s \<Longrightarrow> sm_inv (sm_notify_one pick s)"
proof -
  assume "sm_inv s"
  moreover have "condvar (sm_notify_one pick s) \<noteq> [] \<Longrightarrow> condvar s \<noteq> []" by (auto simp: sm_notify_one_def)
  ultimately show "sm_inv (sm_notify_one pick s)" by (auto simp: sm_inv_def sm_notify_one_facts)
qed

lemma sm_finishTransaction_cases:
  assumes "sm_inv s"
  shows "if txn_valid txn \<and> txn_id txn \<in> snd ` set (activeTxns s)
    then \<exists>u. sm_finishTransaction pick txn s = (sm_notify_one pick u, Inr (txn\<lparr>txn_valid := False\<rparr>))
      \<and> u = s\<lparr>activeTxns := filter (\<lambda>(sid, i). i \<noteq> txn_id txn) (activeTxns s), semValue := semValue s + 1\<rparr>
      \<and> Suc (length (activeTxns u)) = length (activeTxns s) \<and> sm_inv (sm_notify_one pick u)
    else sm_finishTransaction pick txn s = (s, Inl InvalidArgument)"
proof (cases "txn_valid txn \<and> txn_id txn \<in> snd ` set (activeTxns s)")
  case True
  from assms have I: "om_ok (activeTxns s)" "distinct (map snd (activeTxns s))"
    "semValue s + length (activeTxns s) \<le> nat (maxTxns s mod 2 ^ 32)" by (simp_all add: sm_inv_def)
  let ?m = "filter (\<lambda>(sid, i). i \<noteq> txn_id txn) (activeTxns s)"
  let ?u = "s\<lparr>activeTxns := ?m, semValue := semValue s + 1\<rparr>"
  have snds: "map snd ?m = remove1 (txn_id txn) (map snd (activeTxns s))"
  proof -
    have "?m = filter (\<lambda>p. txn_id txn \<noteq> snd p) (activeTxns s)" by (rule filter_cong) auto
    then show ?thesis using I(2) by (simp add: distinct_remove1_removeAll removeAll_filter_not_eq filter_map comp_def)
  qed
  have "length (map snd ?m) = length (map snd (activeTxns s)) - 1"
    unfolding snds using True by (simp add: length_remove1)
  moreover have "0 < length (activeTxns s)" using True by auto
  ultimately have len: "Suc (length ?m) = length (activeTxns s)" by simp
  have ok: "om_ok ?m" using I(1) by (simp add: om_ok_def sorted_wrt_map sorted_wrt_filter)
  have d: "distinct (map snd ?m)" unfolding snds using I(2) by simp
  have le: "semValue s + 1 + length ?m \<le> nat (maxTxns s mod 2 ^ 32)" using I(3) len by simp
  have lt: "nat (maxTxns s mod 2 ^ 32) < 2 ^ 32" by (simp add: nat_less_iff)
  have "condvar (sm_notify_one pick ?u) \<noteq> [] \<Longrightarrow> condvar s \<noteq> []" by (auto simp: sm_notify_one_def)
  with assms ok d le have inv: "sm_inv (sm_notify_one pick ?u)"
    by (auto simp: sm_inv_def sm_notify_one_facts)
  have "sm_finishTransaction pick txn s = (sm_notify_one pick ?u, Inr (txn\<lparr>txn_valid := False\<rparr>))"
    using True le lt by (auto simp: sm_finishTransaction_def Let_def list_ex_iff)
  with True len inv show ?thesis by simp
next
  case False
  moreover from this have "txn_valid txn \<Longrightarrow> filter (\<lambda>(sid, i). i \<noteq> txn_id txn) (activeTxns s) = activeTxns s"
    by (auto simp: filter_id_conv image_iff)
  ultimately show ?thesis by (auto simp: sm_finishTransaction_def Let_def list_ex_iff image_iff)
qed

text \<open>The steps with at most one open call per session.\<close>

lemma sm_single_put:
  assumes single: "sm_single s" and sem: "0 < semValue s" and new: "map_of (activeTxns s) session = None" and ok: "om_ok (activeTxns s)"
    and t: "activeTxns t = om_put session i (activeTxns s)" "semValue t = semValue s - 1" "maxTxns t = maxTxns s"
    and w: "distinct (map fst (condvar t @ notified t))" "sm_waiting t \<subseteq> sm_waiting s - {session}"
  shows "sm_single t"
proof -
  have "length (activeTxns t) = Suc (length (activeTxns s))" unfolding t(1) using length_put [OF ok, of session i] new by simp
  then have "semValue t + length (activeTxns t) = nat (maxTxns t mod 2 ^ 32)" using single sem unfolding sm_single_def t(2,3) by linarith
  moreover have "map_of (activeTxns t) sid = None" if "sid \<in> sm_waiting t" for sid
    using single w(2) that by (auto simp: t(1) sm_single_def)
  ultimately show ?thesis using w(1) by (simp add: sm_single_def)
qed

lemma sm_single_new:
  assumes "sm_inv s" "sm_single s" "session \<notin> sm_waiting s" "sm_newTxnID io session block isDDL s = (t, r)" "r \<noteq> Inl Undefined"
  shows "sm_single t"
  using assms(4)
proof (cases rule: sm_newTxnID_cases)
  case sleeps
  with assms(2,3) show ?thesis by (auto simp: sm_single_def sm_waiting_def)
next
  case slot
  note T = sm_takeSlot_step [OF assms(1) slot(2) _ slot(3) assms(5)]
  show ?thesis
  proof (rule sm_single_put [OF assms(2) slot(2,1) _ T(3-5)])
    show "distinct (map fst (condvar t @ notified t))" using assms(2) T(6,7) by (simp add: sm_single_def)
    show "sm_waiting t \<subseteq> sm_waiting s - {session}" using assms(3) T(6,7) by (simp add: sm_waiting_def)
  qed (use assms(1) in \<open>simp_all add: sm_inv_def\<close>)
qed (use assms(2) in simp)

lemma sm_single_wake:
  assumes "sm_inv s" "sm_single s" "(session, isDDL) \<in> set (notified s)" "sm_wake io session isDDL s = (t, r)" "r \<noteq> Inl Undefined"
  shows "sm_single t"
  using assms(4)
proof (cases rule: sm_wake_cases)
  case sleeps
  then have "mset (condvar t @ notified t) = mset (condvar s @ notified s)" using assms(3) by simp
  then show ?thesis by (rule sm_single_cong [OF assms(2)]) (simp_all add: sleeps)
next
  case slot
  let ?c = "(session, isDDL)"
  have "length (notified s) \<le> Suc (length (remove1 ?c (notified s)))" by (auto simp: length_remove1)
  note T = sm_takeSlot_step [OF assms(1) slot(1) this slot(2) assms(5)]
  have "session \<in> sm_waiting s" using assms(3) by (force simp: sm_waiting_def)
  with assms(2) have new: "map_of (activeTxns s) session = None" by (simp add: sm_single_def)
  have m: "mset (condvar s @ notified s) = add_mset ?c (mset (condvar t @ notified t))"
    using assms(3) T(6,7) by simp
  have "distinct (map fst (?c # condvar t @ notified t))"
    using assms(2) unfolding sm_single_def sm_distinct_mset m by simp
  then have d: "distinct (map fst (condvar t @ notified t))" "session \<notin> sm_waiting t" by (auto simp: sm_waiting_def)
  show ?thesis
  proof (rule sm_single_put [OF assms(2) slot(1) new _ T(3-5) d(1)])
    show "sm_waiting t \<subseteq> sm_waiting s - {session}" using d(2) unfolding sm_waiting_mset m by auto
  qed (use assms(1) in \<open>simp_all add: sm_inv_def\<close>)
qed

lemma sm_single_finish:
  assumes "sm_inv s" "sm_single s"
  shows "sm_single (fst (sm_finishTransaction pick txn s))"
proof (cases "txn_valid txn \<and> txn_id txn \<in> snd ` set (activeTxns s)")
  case True
  with sm_finishTransaction_cases [OF assms(1), of txn pick] obtain u where
    u: "sm_finishTransaction pick txn s = (sm_notify_one pick u, Inr (txn\<lparr>txn_valid := False\<rparr>))"
      "u = s\<lparr>activeTxns := filter (\<lambda>(sid, i). i \<noteq> txn_id txn) (activeTxns s), semValue := semValue s + 1\<rparr>"
      "Suc (length (activeTxns u)) = length (activeTxns s)" by auto
  have "map_of (activeTxns u) sid = None" if "map_of (activeTxns s) sid = None" for sid
    using that by (auto simp: u(2) map_of_eq_None_iff)
  then have "sm_single u" using assms(2) u(2,3) by (simp add: sm_single_def sm_waiting_def)
  then show ?thesis unfolding u(1) fst_conv by (rule sm_single_cong) (simp_all only: sm_notify_one_facts)
qed (use sm_finishTransaction_cases [OF assms(1), of txn pick] assms(2) in \<open>auto split: if_splits\<close>)

section \<open>Histories\<close>

lemma sm_new_step:
  assumes "sm_inv s" "sm_newTxnID io session block isDDL s = (t, r)" "r \<noteq> Inl Undefined"
  shows "sm_inv t" "ver_kept io \<Longrightarrow> sm_recorded s ids \<Longrightarrow>
    sm_recorded t ((if map_of (activeTxns s) session = None then issued r else []) @ ids)"
proof -
  have "sm_inv t \<and> (ver_kept io \<longrightarrow> sm_recorded s ids \<longrightarrow>
      sm_recorded t ((if map_of (activeTxns s) session = None then issued r else []) @ ids))"
    using assms(2)
  proof (cases rule: sm_newTxnID_cases)
    case sleeps
    with assms(1) show ?thesis by (simp add: sm_inv_def sm_recorded_def issued_def)
  next
    case slot
    with sm_takeSlot_step(1,8) [OF assms(1) slot(2) _ slot(3) assms(3)] show ?thesis by simp
  qed (use assms(1) in auto)
  then show "sm_inv t" "ver_kept io \<Longrightarrow> sm_recorded s ids \<Longrightarrow>
    sm_recorded t ((if map_of (activeTxns s) session = None then issued r else []) @ ids)" by blast+
qed

lemma sm_wake_step:
  assumes "sm_inv s" "sm_wake io session isDDL s = (t, r)" "r \<noteq> Inl Undefined"
  shows "sm_inv t" "ver_kept io \<Longrightarrow> sm_recorded s ids \<Longrightarrow> sm_recorded t (issued r @ ids)"
proof -
  have len: "length (notified s) \<le> Suc (length (remove1 (session, isDDL) (notified s)))" by (auto simp: length_remove1)
  have "sm_inv t \<and> (ver_kept io \<longrightarrow> sm_recorded s ids \<longrightarrow> sm_recorded t (issued r @ ids))"
    using assms(2)
  proof (cases rule: sm_wake_cases)
    case sleeps
    with assms(1) show ?thesis by (simp add: sm_inv_def sm_recorded_def issued_def)
  next
    case slot
    with sm_takeSlot_step(1,8) [OF assms(1) slot(1) len slot(2) assms(3)] show ?thesis by simp
  qed
  then show "sm_inv t" "ver_kept io \<Longrightarrow> sm_recorded s ids \<Longrightarrow> sm_recorded t (issued r @ ids)" by blast+
qed

lemma sm_state_step:
  assumes "sm_inv s" "t = fst (sm_save io (s\<lparr>systemState := x\<rparr>))"
  shows "sm_inv t" "sm_single s \<Longrightarrow> sm_single t" "ver_kept io \<Longrightarrow> sm_recorded s ids \<Longrightarrow> sm_recorded t ids"
proof -
  let ?u = "s\<lparr>systemState := x\<rparr>"
  obtain f r where f: "sm_save io ?u = (?u\<lparr>txnidFile := f\<rparr>, r)" using sm_save_result [of io ?u] by blast
  with assms(2) have t: "t = ?u\<lparr>txnidFile := f\<rparr>" by simp
  show "sm_inv t" using assms(1) by (simp add: t sm_inv_def)
  show "sm_single s \<Longrightarrow> sm_single t" by (simp add: t sm_single_def sm_waiting_def)
  assume "ver_kept io" "sm_recorded s ids"
  moreover have "- (2 ^ 31) \<le> sm_verID ?u" "sm_verID ?u < 2 ^ 31" using assms(1) by (simp_all add: sm_inv_def)
  ultimately show "sm_recorded t ids" using sm_save_kept [of ?u io "?u\<lparr>txnidFile := f\<rparr>" r] f
    by (force simp: t sm_recorded_def)
qed

lemma sm_reach_inv:
  assumes "sm_reach single keep s ids"
  shows "sm_inv s \<and> (keep \<longrightarrow> sm_recorded s ids) \<and> (single \<longrightarrow> sm_single s)"
  using assms
proof (induction rule: sm_reach.induct)
  case (sm_start conf f)
  then show ?case by (simp add: sm_init_facts sm_recorded_def)
next
  case (sm_restart s ids conf)
  then show ?case by (simp add: sm_init_facts sm_recorded_def)
next
  case (sm_new s ids io session block isDDL t r)
  then show ?case using sm_new_step(1) [OF _ sm_new(4,5)] sm_new_step(2) [OF _ sm_new(4,5), of ids] sm_single_new [OF _ _ _ sm_new(4,5)] by blast
next
  case (sm_wakes s ids io session isDDL t r)
  then show ?case using sm_wake_step(1) [OF _ sm_wakes(4,5)] sm_wake_step(2) [OF _ sm_wakes(4,5), of ids] sm_single_wake [OF _ _ sm_wakes(3,4,5)] by blast
next
  case (sm_spurious s ids pick)
  then show ?case using sm_notify_one_inv sm_single_cong [OF _ sm_notify_one_facts(7,3,1,2)]
    by (auto simp: sm_recorded_def sm_notify_one_facts)
next
  case (sm_finish s ids pick txn)
  have "sm_recorded s ids \<Longrightarrow> sm_recorded (fst (sm_finishTransaction pick txn s)) ids" if "sm_inv s"
    using sm_finishTransaction_cases [OF that, of txn pick] by (auto simp: sm_recorded_def sm_notify_one_facts split: if_splits)
  moreover have "sm_inv (fst (sm_finishTransaction pick txn s))" if "sm_inv s"
    using sm_finishTransaction_cases [OF that, of txn pick] that by (auto split: if_splits)
  ultimately show ?case using sm_finish.IH sm_single_finish [of s pick txn] by blast
next
  case (sm_resets s ids)
  then show ?case by (auto simp: sm_reset_def sm_notify_all_def sm_inv_def sm_recorded_def sm_single_def sm_waiting_def)
next
  case (sm_set s ids io st)
  then show ?case using sm_state_step [where s = s and io = io, OF _ refl] unfolding sm_setSystemState_def by blast
next
  case (sm_clear s ids io st)
  then show ?case using sm_state_step [where s = s and io = io, OF _ refl] unfolding sm_clearSystemState_def by blast
qed (simp_all add: sm_getUnique64_def sm_getUnique32_def sm_inv_def sm_recorded_def sm_single_def sm_waiting_def)

section \<open>Contract\<close>


definition sm_ex :: SessionManagerServer where
  "sm_ex = fst (sm_newTxnID SaveOk 5 True False (sm_init (Some 2) None))"

lemma sm_ex_run:
  "sm_newTxnID SaveOk 5 True False (sm_init (Some 2) None) = (sm_ex, Inr (Returns \<lparr>txn_id = 1, txn_valid = True\<rparr>))"
proof -
  have "snd (sm_newTxnID SaveOk 5 True False (sm_init (Some 2) None)) = Inr (Returns \<lparr>txn_id = 1, txn_valid = True\<rparr>)"
    by code_simp
  then show ?thesis by (simp add: sm_ex_def prod_eq_iff)
qed

lemma sm_ex_facts:
  "activeTxns sm_ex = [(5, 1)]" "semValue sm_ex = 1" "maxTxns sm_ex = 2" "sm_verID sm_ex = 1" "sm_sysCatVerID sm_ex = 0"
  "condvar sm_ex = []" "notified sm_ex = []"
  unfolding sm_ex_def by code_simp+

lemma sm_ex_reach: "sm_reach single keep sm_ex [1]"
  using sm_new [OF sm_start _ _ sm_ex_run] by (simp add: issued_def sm_init_facts sm_waiting_def ver_kept_def)


text \<open>
  C31. The semaphore never grants more slots than configured: in every history, with failing and short
  writes too, the number of active transactions and \<^verbatim>\<open>semValue\<close> add up to at most the configured maximum, and the
  assertions of \<^verbatim>\<open>newTxnID\<close> (for new calls and for those that wake up) and \<^verbatim>\<open>finishTransaction\<close> never fail. No slot is lost, so
  that the sum is the maximum, in the histories in which no session has two calls of \<^verbatim>\<open>newTxnID\<close> open.
\<close>

theorem sm_semaphore:
  assumes "sm_reach single keep s ids"
  shows "semValue s + sm_getTxnCount s \<le> nat (maxTxns s mod 2 ^ 32)
    \<and> (single \<longrightarrow> semValue s + sm_getTxnCount s = nat (maxTxns s mod 2 ^ 32))
    \<and> snd (sm_newTxnID io session block isDDL s) \<noteq> Inl AssertFailed
    \<and> snd (sm_wake io session isDDL s) \<noteq> Inl AssertFailed
    \<and> snd (sm_finishTransaction pick txn s) \<noteq> Inl AssertFailed"
proof -
  from sm_reach_inv [OF assms] have inv: "sm_inv s" "single \<Longrightarrow> sm_single s" by simp_all
  obtain t r where new: "sm_newTxnID io session block isDDL s = (t, r)" by (rule prod.exhaust)
  obtain u x where wake: "sm_wake io session isDDL s = (u, x)" by (rule prod.exhaust)
  have len: "length (notified s) \<le> Suc (length (remove1 (session, isDDL) (notified s)))" by (auto simp: length_remove1)
  have slot: "y \<noteq> Inl AssertFailed" if "sm_takeSlot io session isDDL (s\<lparr>notified := ns\<rparr>) = (v, y)" "0 < semValue s"
    "length (notified s) \<le> Suc (length ns)" for ns v y
    using sm_takeSlot_step(2) [OF inv(1) that(2,3,1)] by fastforce
  have "r \<noteq> Inl AssertFailed"
    using new
  proof (cases rule: sm_newTxnID_cases)
    case 3: slot
    then show ?thesis using slot [OF 3(3,2)] by simp
  qed simp_all
  moreover have "x \<noteq> Inl AssertFailed"
    using wake
  proof (cases rule: sm_wake_cases)
    case 2: slot
    then show ?thesis using slot [OF 2(2,1) len] by simp
  qed simp
  moreover have "snd (sm_finishTransaction pick txn s) \<noteq> Inl AssertFailed"
    using sm_finishTransaction_cases [OF inv(1), of txn pick] by (auto split: if_splits)
  ultimately show ?thesis using inv new wake by (simp add: sm_inv_def sm_single_def sm_getTxnCount_def)
qed

theorem sm_semaphore_witness: "semValue sm_ex + sm_getTxnCount sm_ex = 2"
  using sm_semaphore [OF sm_ex_reach, of True] by (simp add: sm_ex_facts)

text \<open>
  C32. No wake-up is lost. In every history: when a transaction ends while calls of \<^verbatim>\<open>newTxnID\<close> sleep, one more of them is notified;
  and as long as a call sleeps and a slot is free, there is a notified call that has not run yet, and
  each such call, if it is the next to run, returns a new valid id for its session (with a save that works and version
  numbers left). A call that runs in between may take the slot first; the notified call then sleeps again.
\<close>

theorem sm_no_lost_wakeup:
  assumes "sm_reach single keep s ids" "condvar s \<noteq> []"
  shows "(0 < semValue s \<longrightarrow> notified s \<noteq> []
      \<and> (\<forall>(session, isDDL) \<in> set (notified s). sm_verID s + 1 < 2 ^ 31 \<longrightarrow> sm_sysCatVerID s + 1 < 2 ^ 31 \<longrightarrow>
          (\<exists>t. sm_wake SaveOk session isDDL s = (t, Inr (Returns \<lparr>txn_id = sm_verID s + 1, txn_valid = True\<rparr>))
             \<and> sm_getTxnID session t = \<lparr>txn_id = sm_verID s + 1, txn_valid = True\<rparr>)))
    \<and> ((sid, i) \<in> set (activeTxns s) \<longrightarrow>
      (\<exists>t c. sm_finishTransaction pick \<lparr>txn_id = i, txn_valid = True\<rparr> s = (t, Inr \<lparr>txn_id = i, txn_valid = False\<rparr>)
        \<and> c \<in> set (condvar s) \<and> notified t = c # notified s \<and> condvar t = remove1 c (condvar s) \<and> semValue t = semValue s + 1))"
proof -
  from sm_reach_inv [OF assms(1)] have inv: "sm_inv s" by simp
  have wake: "\<exists>t. sm_wake SaveOk session isDDL s = (t, Inr (Returns \<lparr>txn_id = sm_verID s + 1, txn_valid = True\<rparr>))
        \<and> sm_getTxnID session t = \<lparr>txn_id = sm_verID s + 1, txn_valid = True\<rparr>"
    if "0 < semValue s" "sm_verID s + 1 < 2 ^ 31" "sm_sysCatVerID s + 1 < 2 ^ 31" for session isDDL
  proof -
    have "semValue s - 1 \<le> nat (maxTxns s mod 2 ^ 32)" using inv unfolding sm_inv_def by linarith
    with that show ?thesis by (simp add: sm_wake_def sm_waitLoop_def sm_takeSlot_def Let_def sm_save_def sm_getTxnID_def)
  qed
  have some: "0 < semValue s \<Longrightarrow> notified s \<noteq> []" using inv assms(2) by (auto simp: sm_inv_def)
  let ?txn = "\<lparr>txn_id = i, txn_valid = True\<rparr>" and ?c = "condvar s ! (pick mod length (condvar s))"
  have "\<exists>t c. sm_finishTransaction pick ?txn s = (t, Inr \<lparr>txn_id = i, txn_valid = False\<rparr>)
      \<and> c \<in> set (condvar s) \<and> notified t = c # notified s \<and> condvar t = remove1 c (condvar s) \<and> semValue t = semValue s + 1"
    if "(sid, i) \<in> set (activeTxns s)"
  proof -
    have "i \<in> snd ` set (activeTxns s)" using that by force
    with sm_finishTransaction_cases [OF inv, of ?txn pick] obtain u where
      u: "sm_finishTransaction pick ?txn s = (sm_notify_one pick u, Inr \<lparr>txn_id = i, txn_valid = False\<rparr>)"
        "condvar u = condvar s" "notified u = notified s" "semValue u = semValue s + 1" by auto
    have "?c \<in> set (condvar s)" using assms(2) by simp
    with u assms(2) show ?thesis
      by (intro exI [of _ "sm_notify_one pick u"] exI [of _ ?c]) (simp add: sm_notify_one_def Let_def)
  qed
  with wake some show ?thesis by blast
qed

lemmas sm_run_defs = sm_newTxnID_def sm_wake_def sm_waitLoop_def sm_takeSlot_def sm_save_def sm_finishTransaction_def
  sm_notify_one_def sm_getTxnID_def Let_def

lemma sm_new_fst:
  assumes "sm_reach single keep s ids" "keep \<Longrightarrow> ver_kept io" "single \<Longrightarrow> session \<notin> sm_waiting s"
    "snd (sm_newTxnID io session block isDDL s) \<noteq> Inl Undefined"
  shows "\<exists>ids. sm_reach single keep (fst (sm_newTxnID io session block isDDL s)) ids"
  using sm_new [OF assms(1-3) prod.collapse [symmetric] assms(4)] by (rule exI)

lemma sm_wakes_fst:
  assumes "sm_reach single keep s ids" "keep \<Longrightarrow> ver_kept io" "(session, isDDL) \<in> set (notified s)"
    "snd (sm_wake io session isDDL s) \<noteq> Inl Undefined"
  shows "\<exists>ids. sm_reach single keep (fst (sm_wake io session isDDL s)) ids"
  using sm_wakes [OF assms(1-3) prod.collapse [symmetric] assms(4)] by (rule exI)

text \<open>
  Two slots, taken by sessions 5 and 7; a call of session 6 sleeps, then a second one; the transaction of
  session 5 ends and one call goes on; the transaction of session 7 ends.
\<close>

definition sm_ex1 :: SessionManagerServer where
  "sm_ex1 = fst (sm_newTxnID SaveOk 7 True False sm_ex)"

definition sm_ex2 :: SessionManagerServer where
  "sm_ex2 = fst (sm_newTxnID SaveOk 6 True False (fst (sm_newTxnID SaveOk 6 True False sm_ex1)))"

definition sm_ex3 :: SessionManagerServer where
  "sm_ex3 = fst (sm_finishTransaction 0 \<lparr>txn_id = 1, txn_valid = True\<rparr> sm_ex2)"

definition sm_ex4 :: SessionManagerServer where
  "sm_ex4 = fst (sm_finishTransaction 0 \<lparr>txn_id = 2, txn_valid = True\<rparr> (fst (sm_wake SaveOk 6 False sm_ex3)))"

lemma sm_ex1_facts:
  "activeTxns sm_ex1 = [(5, 1), (7, 2)]" "semValue sm_ex1 = 0" "maxTxns sm_ex1 = 2" "sm_verID sm_ex1 = 2" "sm_sysCatVerID sm_ex1 = 0"
  "condvar sm_ex1 = []" "notified sm_ex1 = []"
  by (simp_all add: sm_ex1_def sm_ex_facts sm_run_defs)

lemma sm_ex2_facts:
  "activeTxns sm_ex2 = [(5, 1), (7, 2)]" "semValue sm_ex2 = 0" "maxTxns sm_ex2 = 2" "sm_verID sm_ex2 = 2" "sm_sysCatVerID sm_ex2 = 0"
  "condvar sm_ex2 = [(6, False), (6, False)]" "notified sm_ex2 = []"
  by (simp_all add: sm_ex2_def sm_ex1_facts sm_run_defs)

lemma sm_ex3_facts:
  "activeTxns sm_ex3 = [(7, 2)]" "semValue sm_ex3 = 1" "maxTxns sm_ex3 = 2" "sm_verID sm_ex3 = 2" "sm_sysCatVerID sm_ex3 = 0"
  "condvar sm_ex3 = [(6, False)]" "notified sm_ex3 = [(6, False)]"
  by (simp_all add: sm_ex3_def sm_ex2_facts sm_run_defs)

lemma sm_ex4_facts:
  "activeTxns sm_ex4 = [(6, 3)]" "semValue sm_ex4 = 1" "maxTxns sm_ex4 = 2" "sm_verID sm_ex4 = 3" "sm_sysCatVerID sm_ex4 = 0"
  "condvar sm_ex4 = []" "notified sm_ex4 = [(6, False)]"
  by (simp_all add: sm_ex4_def sm_ex3_facts sm_run_defs)

lemma sm_ex4_reach:
  obtains ids2 ids3 ids4 where "sm_reach False True sm_ex2 ids2" "sm_reach False True sm_ex3 ids3" "sm_reach False True sm_ex4 ids4"
proof -
  have k: "ver_kept SaveOk" by (simp add: ver_kept_def)
  have r: "snd (sm_newTxnID SaveOk 7 True False sm_ex) \<noteq> Inl Undefined" "snd (sm_newTxnID SaveOk 6 True False sm_ex1) \<noteq> Inl Undefined"
    "snd (sm_newTxnID SaveOk 6 True False (fst (sm_newTxnID SaveOk 6 True False sm_ex1))) \<noteq> Inl Undefined"
    "snd (sm_wake SaveOk 6 False sm_ex3) \<noteq> Inl Undefined"
    by (simp_all add: sm_ex_facts sm_ex1_facts sm_ex3_facts sm_run_defs)
  from sm_new_fst [OF sm_ex_reach k FalseE r(1)] obtain i1 where "sm_reach False True sm_ex1 i1" unfolding sm_ex1_def by blast
  from sm_new_fst [OF this k FalseE r(2)] obtain ia where "sm_reach False True (fst (sm_newTxnID SaveOk 6 True False sm_ex1)) ia" by blast
  from sm_new_fst [OF this k FalseE r(3)] obtain i2 where 2: "sm_reach False True sm_ex2 i2" unfolding sm_ex2_def by blast
  then have 3: "sm_reach False True sm_ex3 i2" unfolding sm_ex3_def by (rule sm_finish)
  from sm_wakes_fst [OF 3 k _ r(4)] obtain i4 where "sm_reach False True (fst (sm_wake SaveOk 6 False sm_ex3)) i4"
    by (auto simp: sm_ex3_facts)
  then have "sm_reach False True sm_ex4 i4" unfolding sm_ex4_def by (rule sm_finish)
  with 2 3 that show thesis by blast
qed

theorem sm_no_lost_wakeup_witness:
  "(\<exists>t c. sm_finishTransaction 0 \<lparr>txn_id = 1, txn_valid = True\<rparr> sm_ex2 = (t, Inr \<lparr>txn_id = 1, txn_valid = False\<rparr>) \<and> notified t = c # notified sm_ex2)
   \<and> (\<exists>t. sm_wake SaveOk 6 False sm_ex3 = (t, Inr (Returns \<lparr>txn_id = 3, txn_valid = True\<rparr>)))"
proof -
  obtain ids2 ids3 ids4 where r: "sm_reach False True sm_ex2 ids2" "sm_reach False True sm_ex3 ids3" "sm_reach False True sm_ex4 ids4"
    by (rule sm_ex4_reach)
  have c: "condvar sm_ex2 \<noteq> []" "condvar sm_ex3 \<noteq> []" by (simp_all add: sm_ex2_facts sm_ex3_facts)
  have "(5, 1) \<in> set (activeTxns sm_ex2)" by (simp add: sm_ex2_facts)
  with sm_no_lost_wakeup [OF r(1) c(1), of 5 1 0] have
    "\<exists>t c. sm_finishTransaction 0 \<lparr>txn_id = 1, txn_valid = True\<rparr> sm_ex2 = (t, Inr \<lparr>txn_id = 1, txn_valid = False\<rparr>) \<and> notified t = c # notified sm_ex2"
    by blast
  moreover have "0 < semValue sm_ex3" "(6, False) \<in> set (notified sm_ex3)" "sm_verID sm_ex3 + 1 < 2 ^ 31" "sm_sysCatVerID sm_ex3 + 1 < 2 ^ 31" "sm_verID sm_ex3 + 1 = 3"
    by (simp_all add: sm_ex3_facts)
  moreover from this sm_no_lost_wakeup [OF r(2) c(2), of 7 2 0] have
    "\<exists>t. sm_wake SaveOk 6 False sm_ex3 = (t, Inr (Returns \<lparr>txn_id = 3, txn_valid = True\<rparr>))" by fastforce
  ultimately show ?thesis by blast
qed

text \<open>
  C33. A call of \<^verbatim>\<open>newTxnID\<close> that wakes up does not look again whether its session has got a transaction. When in any
  history a notified call goes on with a free slot while its session has a transaction (two calls of the
  session slept), the new transaction replaces the old one: ending the old one then throws \<^verbatim>\<open>invalid_argument\<close>, and a
  slot is lost, as there are one fewer free slots and no more active transactions than before.
\<close>

theorem sm_two_waiters_lose_slot:
  assumes "sm_reach single keep s ids" "(session, isDDL) \<in> set (notified s)" "map_of (activeTxns s) session = Some i" "0 < semValue s"
    "sm_wake io session isDDL s = (t, Inr txn)"
  shows "txn = Returns \<lparr>txn_id = sm_verID s + 1, txn_valid = True\<rparr> \<and> sm_getTxnID session t = \<lparr>txn_id = sm_verID s + 1, txn_valid = True\<rparr>
    \<and> sm_finishTransaction pick \<lparr>txn_id = i, txn_valid = True\<rparr> t = (t, Inl InvalidArgument)
    \<and> semValue t + 1 = semValue s \<and> sm_getTxnCount t = sm_getTxnCount s"
proof -
  from sm_reach_inv [OF assms(1)] have inv: "sm_inv s" by simp
  have len: "length (notified s) \<le> Suc (length (remove1 (session, isDDL) (notified s)))" by (auto simp: length_remove1)
  have slot: "sm_takeSlot io session isDDL (s\<lparr>notified := remove1 (session, isDDL) (notified s)\<rparr>) = (t, Inr txn)"
    using assms(5) by (cases rule: sm_wake_cases) (use assms(4) in simp_all)
  note T = sm_takeSlot_step(1-4) [OF inv assms(4) len slot sum.distinct(2)]
  from inv have I: "om_ok (activeTxns s)" "distinct (map snd (activeTxns s))" "\<forall>j \<in> set (map snd (activeTxns s)). j \<le> sm_verID s"
    by (simp_all add: sm_inv_def)
  have i: "(session, i) \<in> set (activeTxns s)" using assms(3) I(1) by (simp add: om_get_iff)
  have "i \<notin> snd ` set (activeTxns t)"
  proof
    assume "i \<in> snd ` set (activeTxns t)"
    then obtain k where k: "(k, i) \<in> set (activeTxns t)" by force
    have "i \<noteq> sm_verID s + 1" using I(3) i by force
    with k have "(k, i) \<in> set (activeTxns s)" "k \<noteq> session" unfolding T(3) set_put [OF I(1)] by auto
    with i I(2) show False by (fastforce simp: distinct_map inj_on_def)
  qed
  with sm_finishTransaction_cases [OF T(1), of "\<lparr>txn_id = i, txn_valid = True\<rparr>" pick]
  have "sm_finishTransaction pick \<lparr>txn_id = i, txn_valid = True\<rparr> t = (t, Inl InvalidArgument)" by simp
  moreover have "length (activeTxns t) = length (activeTxns s)" unfolding T(3) using length_put [OF I(1), of session] assms(3) by simp
  ultimately show ?thesis using T(2-4) assms(4) by (simp add: sm_getTxnID_def sm_getTxnCount_def)
qed

theorem sm_two_waiters_lose_slot_witness:
  "\<exists>t. sm_wake SaveOk 6 False sm_ex4 = (t, Inr (Returns \<lparr>txn_id = 4, txn_valid = True\<rparr>))
    \<and> sm_finishTransaction 0 \<lparr>txn_id = 3, txn_valid = True\<rparr> t = (t, Inl InvalidArgument) \<and> semValue t + sm_getTxnCount t = 1 \<and> maxTxns sm_ex4 = 2"
proof -
  obtain ids2 ids3 ids4 where r: "sm_reach False True sm_ex2 ids2" "sm_reach False True sm_ex3 ids3" "sm_reach False True sm_ex4 ids4"
    by (rule sm_ex4_reach)
  obtain t txn where t: "sm_wake SaveOk 6 False sm_ex4 = (t, Inr txn)" by (simp add: sm_ex4_facts sm_run_defs)
  have "(6, False) \<in> set (notified sm_ex4)" "map_of (activeTxns sm_ex4) 6 = Some 3" "0 < semValue sm_ex4" by (simp_all add: sm_ex4_facts)
  from sm_two_waiters_lose_slot [OF r(3) this t, of 0] t show ?thesis by (simp add: sm_ex4_facts sm_getTxnCount_def)
qed

text \<open>A save that opens the file and gets fewer than four bytes into it.\<close>

definition ver_lost :: "save_io \<Rightarrow> bool" where
  "ver_lost io \<longleftrightarrow> (case io of OpenFails \<Rightarrow> False | Writes None _ \<Rightarrow> True | Writes (Some k) None \<Rightarrow> k < 4
     | Writes (Some k) (Some j) \<Rightarrow> k + j < 4)"

text \<open>
  C34. The open of a save truncates the file before anything is written. When fewer than four bytes are then
  written, because the first write fails or the writes are short (which counts as success), the next run
  starts from version 0: its first transaction gets id 1, whatever ids were returned before.
\<close>

theorem sm_truncated_file_reuses_id:
  assumes "ver_lost io" "u = sm_init conf (txnidFile (fst (sm_save io s)))" "0 < semValue u"
  shows "\<exists>t. sm_newTxnID SaveOk session block isDDL u = (t, Inr (Returns \<lparr>txn_id = 1, txn_valid = True\<rparr>))"
proof -
  obtain f where f: "txnidFile (fst (sm_save io s)) = Some f" "length f < 4"
    using assms(1) by (cases io) (auto simp: ver_lost_def sm_save_def Let_def split: option.splits)
  have u: "u = sm_init conf (Some f)" using assms(2) f(1) by simp
  have v: "sm_verID u = 0" "sm_sysCatVerID u = 0" "activeTxns u = []"
    using f(2) by (simp_all add: u sm_init_def sm_loadState_def read_word_def Let_def)
  have "semValue u - 1 \<le> nat (maxTxns u mod 2 ^ 32)" using sm_init_facts(1) [of conf "Some f"] unfolding u sm_inv_def by linarith
  with v assms(3) show ?thesis by (simp add: sm_newTxnID_def sm_waitLoop_def sm_takeSlot_def sm_save_def Let_def)
qed

theorem sm_truncated_file_reuses_id_witness:
  "snd (sm_newTxnID SaveOk 5 True False (sm_init (Some 2) None)) = Inr (Returns \<lparr>txn_id = 1, txn_valid = True\<rparr>)
   \<and> snd (sm_newTxnID SaveOk 9 True False
        (sm_init (Some 2) (txnidFile (fst (sm_setSystemState (Writes (Some 3) (Some 0)) SS_SUSPENDED sm_ex)))))
       = Inr (Returns \<lparr>txn_id = 1, txn_valid = True\<rparr>)"
proof -
  let ?io = "Writes (Some 3) (Some 0)" and ?s = "sm_ex\<lparr>systemState := systemState sm_ex OR SS_SUSPENDED\<rparr>"
  have "ver_lost ?io" by (simp add: ver_lost_def)
  moreover have "0 < semValue (sm_init (Some 2) f)" for f
    by (simp add: sm_init_def sm_loadState_def to_i32_def Let_def split: option.split)
  ultimately show ?thesis
    using sm_truncated_file_reuses_id [of ?io _ "Some 2" ?s 9 True False] by (auto simp: sm_ex_run sm_setSystemState_def)
qed

end
