(* ===== verification/Table_Locks.thy ===== *)
theory Table_Locks
  imports Session_Manager
begin

text \<open>
  \<^verbatim>\<open>versioning/BRM/tablelockserver.cpp\<close> with \<^verbatim>\<open>TableLockInfo\<close> of \<^verbatim>\<open>brmtypes.cpp\<close>: the table locks of the load and
  write jobs, each on some dbroots of one table, and the file that keeps them over a restart. The ids
  of the locks come from the session manager. The parameter \<open>io\<close> says how a save goes: \<open>None\<close> when the open of the
  save file fails, else the number of bytes that each write puts into the file, one after the other; where
  the list ends the writes are complete. The code does not look at the results of the writes.
\<close>

section \<open>Locks and their file format\<close>

record TableLockInfo =
  tl_id :: "64 word"
  tableOID :: "32 word"
  ownerName :: "byte list"
  ownerPID :: "32 word"
  ownerSessionID :: "32 word"
  ownerTxnID :: "32 word"
  tl_state :: "32 word"
  creationTime :: "64 word"
  dbrootList :: "32 word list"

record TableLockServer =
  tl_locks :: "(64 word \<times> TableLockInfo) list"
  tl_file :: "byte list option"
  tl_sms :: SessionManagerServer

definition tli_overlaps :: "TableLockInfo \<Rightarrow> TableLockInfo \<Rightarrow> 32 word list \<Rightarrow> bool" where
  "tli_overlaps l t sDbrootList =
     (if tableOID l \<noteq> tableOID t then False else list_ex (\<lambda>d. d \<in> set sDbrootList) (dbrootList l))"

text \<open>\<^verbatim>\<open>TableLockInfo::serialize(IDBDataFile*)\<close>, write by write; the two lengths are 16 bits wide.\<close>

definition tli_serialize :: "TableLockInfo \<Rightarrow> byte list list" where
  "tli_serialize t =
     (let nameLen = length (ownerName t) mod 2 ^ 16;
          dbrootListSize = length (dbrootList t) mod 2 ^ 16
      in [nat_bytes 8 (unat (tl_id t)), nat_bytes 4 (unat (tableOID t)), nat_bytes 4 (unat (ownerPID t)),
          nat_bytes 4 (unat (tl_state t)), nat_bytes 4 (unat (ownerSessionID t)),
          nat_bytes 4 (unat (ownerTxnID t)), nat_bytes 8 (unat (creationTime t)),
          nat_bytes 2 nameLen, take nameLen (ownerName t), nat_bytes 2 dbrootListSize]
         @ map (\<lambda>d. nat_bytes 4 (unat d)) (take dbrootListSize (dbrootList t)))"

text \<open>
  \<^verbatim>\<open>TableLockInfo::deserialize(IDBDataFile*)\<close>. A read past the end of the file leaves the rest of the variable
  as it was: \<open>None\<close> when that makes a local variable or the name buffer indeterminate. The dbroots keep the
  values the vector had before (\<open>old\<close>).
\<close>

definition rd :: "nat \<Rightarrow> byte list \<Rightarrow> (nat \<times> byte list) option" where
  "rd k bs = (if k \<le> length bs then Some (bytes_nat (take k bs), drop k bs) else None)"

fun rd_dbroots :: "nat \<Rightarrow> 32 word list \<Rightarrow> byte list \<Rightarrow> 32 word list \<times> byte list" where
  "rd_dbroots 0 old bs = ([], bs)"
| "rd_dbroots (Suc n) old bs =
     (let o1 = (case old of [] \<Rightarrow> 0 | x # _ \<Rightarrow> x);
          d = word_of_nat (bytes_nat (take 4 bs @ drop (length (take 4 bs)) (nat_bytes 4 (unat o1))));
          (ds, bs') = rd_dbroots n (tl old) (drop 4 bs)
      in (d # ds, bs'))"

definition tli_deserialize :: "32 word list \<Rightarrow> byte list \<Rightarrow> (TableLockInfo \<times> byte list) option" where
  "tli_deserialize old bs =
     Option.bind (rd 8 bs) (\<lambda>(i, bs). Option.bind (rd 4 bs) (\<lambda>(oid, bs). Option.bind (rd 4 bs) (\<lambda>(pid, bs).
     Option.bind (rd 4 bs) (\<lambda>(st, bs). Option.bind (rd 4 bs) (\<lambda>(ses, bs). Option.bind (rd 4 bs) (\<lambda>(txn, bs).
     Option.bind (rd 8 bs) (\<lambda>(tm, bs). Option.bind (rd 2 bs) (\<lambda>(nameLen, bs).
     if length bs < nameLen then None
     else Option.bind (rd 2 (drop nameLen bs)) (\<lambda>(n, bs').
       let (ds, bs'') = rd_dbroots n old bs' in
       Some (\<lparr>tl_id = word_of_nat i, tableOID = word_of_nat oid, ownerName = take nameLen bs,
              ownerPID = word_of_nat pid, ownerSessionID = word_of_nat ses, ownerTxnID = word_of_nat txn,
              tl_state = word_of_nat st, creationTime = word_of_nat tm, dbrootList = ds\<rparr>, bs''))))))))))"

section \<open>Operations\<close>

text \<open>\<^verbatim>\<open>TableLockServer::save\<close>\<close>

definition tl_writes :: "(64 word \<times> TableLockInfo) list \<Rightarrow> byte list list" where
  "tl_writes m = nat_bytes 4 (length m mod 2 ^ 32) # concat (map (\<lambda>(k, l). tli_serialize l) m)"

fun written :: "nat list \<Rightarrow> byte list list \<Rightarrow> byte list" where
  "written ns [] = []"
| "written [] (c # cs) = c @ written [] cs"
| "written (n # ns) (c # cs) = take n c @ written ns cs"

definition tl_save :: "nat list option \<Rightarrow> TableLockServer \<Rightarrow> (TableLockServer, unit) outcome" where
  "tl_save io s =
     (case io of
        None \<Rightarrow> (s, Inl RuntimeError)
      | Some ns \<Rightarrow> (s\<lparr>tl_file := Some (written ns (tl_writes (tl_locks s)))\<rparr>, Inr ()))"

text \<open>The file after a save with complete writes.\<close>

definition tl_image :: "(64 word \<times> TableLockInfo) list \<Rightarrow> byte list" where
  "tl_image m = concat (tl_writes m)"

lemma written_all [simp]: "written [] cs = concat cs"
  by (induction cs) simp_all

text \<open>The two calls of \<^verbatim>\<open>getUnique64\<close> for an id; \<open>0\<close> is an error code.\<close>

definition tl_newID :: "TableLockServer \<Rightarrow> TableLockServer \<times> 64 word" where
  "tl_newID s =
     (let (m, i) = sm_getUnique64 (tl_sms s) in
      if i = 0 then let (m, i) = sm_getUnique64 m in (s\<lparr>tl_sms := m\<rparr>, i)
      else (s\<lparr>tl_sms := m\<rparr>, i))"

text \<open>\<^verbatim>\<open>TableLockServer::load\<close>; without a file the table stays empty.\<close>

fun tl_load_loop :: "nat \<Rightarrow> 32 word list \<Rightarrow> byte list \<Rightarrow> TableLockServer \<Rightarrow> (TableLockServer, unit) outcome" where
  "tl_load_loop 0 old bs s = (s, Inr ())"
| "tl_load_loop (Suc n) old bs s =
     (case tli_deserialize old bs of
        None \<Rightarrow> (s, Inl Undefined)
      | Some (tli, bs') \<Rightarrow>
          let (s, i) = tl_newID s in
          tl_load_loop n (dbrootList tli) bs' (s\<lparr>tl_locks := om_put i (tli\<lparr>tl_id := i\<rparr>) (tl_locks s)\<rparr>))"

definition tl_load :: "TableLockServer \<Rightarrow> (TableLockServer, unit) outcome" where
  "tl_load s =
     (case tl_file s of
        None \<Rightarrow> (s, Inr ())
      | Some f \<Rightarrow> (case rd 4 f of
                    None \<Rightarrow> (s, Inl Undefined)
                  | Some (n, bs) \<Rightarrow> tl_load_loop n [] bs s))"

text \<open>
  \<^verbatim>\<open>TableLockServer::lock\<close>: the return value and the argument as it is left. When a lock overlaps, the first one in
  the order of the ids, its owner is copied to the argument and the result is \<open>0\<close>.
\<close>

definition tl_lock :: "nat list option \<Rightarrow> TableLockInfo \<Rightarrow> TableLockServer \<Rightarrow> (TableLockServer, 64 word \<times> TableLockInfo) outcome" where
  "tl_lock io tli s =
     (case find (\<lambda>(k, l). tli_overlaps l tli (dbrootList tli)) (tl_locks s) of
        Some (k, l) \<Rightarrow> (s, Inr (0, tli\<lparr>ownerName := ownerName l, ownerPID := ownerPID l,
                                    ownerSessionID := ownerSessionID l, ownerTxnID := ownerTxnID l\<rparr>))
      | None \<Rightarrow>
          let (s, i) = tl_newID s;
              tli = tli\<lparr>tl_id := i\<rparr>;
              s = s\<lparr>tl_locks := om_put i tli (tl_locks s)\<rparr>
          in case tl_save io s of
               (s, Inl err) \<Rightarrow> (s\<lparr>tl_locks := om_del i (tl_locks s)\<rparr>, Inl err)
             | (s, Inr _) \<Rightarrow> (s, Inr (i, tli)))"

definition tl_unlock :: "nat list option \<Rightarrow> 64 word \<Rightarrow> TableLockServer \<Rightarrow> (TableLockServer, bool) outcome" where
  "tl_unlock io i s =
     (case map_of (tl_locks s) i of
        Some tli \<Rightarrow>
          (case tl_save io (s\<lparr>tl_locks := om_del i (tl_locks s)\<rparr>) of
             (s, Inl err) \<Rightarrow> (s\<lparr>tl_locks := om_put (tl_id tli) tli (tl_locks s)\<rparr>, Inl err)
           | (s, Inr _) \<Rightarrow> (s, Inr True))
      | None \<Rightarrow> (s, Inr False))"

text \<open>An update in place of the lock an iterator points to, and its reversal.\<close>

definition tl_modify :: "nat list option \<Rightarrow> 64 word \<Rightarrow> (TableLockInfo \<Rightarrow> TableLockInfo) \<Rightarrow> TableLockServer \<Rightarrow> (TableLockServer, bool) outcome" where
  "tl_modify io i f s =
     (case map_of (tl_locks s) i of
        None \<Rightarrow> (s, Inr False)
      | Some tli \<Rightarrow>
          (case tl_save io (s\<lparr>tl_locks := om_put i (f tli) (tl_locks s)\<rparr>) of
             (s, Inl err) \<Rightarrow> (s\<lparr>tl_locks := om_put i tli (tl_locks s)\<rparr>, Inl err)
           | (s, Inr _) \<Rightarrow> (s, Inr True)))"

definition tl_changeState :: "nat list option \<Rightarrow> 64 word \<Rightarrow> 32 word \<Rightarrow> TableLockServer \<Rightarrow> (TableLockServer, bool) outcome" where
  "tl_changeState io i state s = tl_modify io i (\<lambda>l. l\<lparr>tl_state := state\<rparr>) s"

definition tl_changeOwner :: "nat list option \<Rightarrow> 64 word \<Rightarrow> byte list \<Rightarrow> 32 word \<Rightarrow> 32 word \<Rightarrow> 32 word \<Rightarrow> TableLockServer \<Rightarrow>
    (TableLockServer, bool) outcome" where
  "tl_changeOwner io i name pid session txnID s =
     tl_modify io i (\<lambda>l. l\<lparr>ownerName := name, ownerPID := pid, ownerSessionID := session, ownerTxnID := txnID\<rparr>) s"

definition tl_getAllLocks :: "TableLockServer \<Rightarrow> TableLockInfo list" where
  "tl_getAllLocks s = map snd (tl_locks s)"

definition tl_releaseAllLocks :: "nat list option \<Rightarrow> TableLockServer \<Rightarrow> (TableLockServer, unit) outcome" where
  "tl_releaseAllLocks io s =
     (let tmp = tl_locks s in
      case tl_save io (s\<lparr>tl_locks := []\<rparr>) of
        (s, Inl err) \<Rightarrow> (s\<lparr>tl_locks := tmp\<rparr>, Inl err)
      | (s, Inr _) \<Rightarrow> (s, Inr ()))"

definition tl_getLockInfo :: "64 word \<Rightarrow> TableLockServer \<Rightarrow> TableLockInfo option" where
  "tl_getLockInfo i s = map_of (tl_locks s) i"

section \<open>File round trip\<close>

lemma unat_bytes:
  "unat (w :: 64 word) < 256 ^ 8" "unat (v :: 32 word) < 256 ^ 4"
  using unsigned_less [of w, where ?'a = nat] unsigned_less [of v, where ?'a = nat] by simp_all

lemma rd_nat_bytes: "n < 256 ^ k \<Longrightarrow> rd k (nat_bytes k n @ bs) = Some (n, bs)"
  by (simp add: rd_def)

lemmas rd_words = rd_nat_bytes [OF unat_bytes(1)] rd_nat_bytes [OF unat_bytes(2)]

lemma rd_dbroots_bytes:
  "rd_dbroots (length ds) old (concat (map (\<lambda>d. nat_bytes 4 (unat d)) ds) @ bs) = (ds, bs)"
proof (induction ds arbitrary: old)
  case (Cons d ds)
  have "bytes_nat (nat_bytes 4 (unat d)) = unat d" using unat_bytes(2) by simp
  then show ?case by (simp add: Cons.IH Let_def)
qed simp

lemma tli_round_trip:
  assumes "length (ownerName t) < 2 ^ 16" "length (dbrootList t) < 2 ^ 16"
  shows "tli_deserialize old (concat (tli_serialize t) @ bs) = Some (t, bs)"
proof -
  have n: "length (ownerName t) mod 2 ^ 16 = length (ownerName t)" "length (dbrootList t) mod 2 ^ 16 = length (dbrootList t)"
    using assms by simp_all
  have "length (ownerName t) < 256 ^ 2" "length (dbrootList t) < 256 ^ 2" using assms by simp_all
  note L = this [THEN rd_nat_bytes]
  show ?thesis
    unfolding tli_serialize_def tli_deserialize_def Let_def n append_assoc
    by (simp add: rd_words L rd_dbroots_bytes)
qed

section \<open>Mutual exclusion\<close>

text \<open>The dbroots of a table that a lock holds, and those all locks hold.\<close>

definition tli_holds :: "TableLockInfo \<Rightarrow> (32 word \<times> 32 word) set" where
  "tli_holds l = {tableOID l} \<times> set (dbrootList l)"

definition tl_held :: "TableLockServer \<Rightarrow> (32 word \<times> 32 word) set" where
  "tl_held s = \<Union> (tli_holds ` snd ` set (tl_locks s))"

lemma tli_overlaps_holds: "tli_overlaps l t (dbrootList t) \<longleftrightarrow> tli_holds l \<inter> tli_holds t \<noteq> {}"
  by (auto simp: tli_overlaps_def tli_holds_def list_ex_iff)

definition tl_fits :: "TableLockInfo \<Rightarrow> bool" where
  "tl_fits l \<longleftrightarrow> length (ownerName l) < 2 ^ 16 \<and> length (dbrootList l) < 2 ^ 16"

definition tl_ok :: "(64 word \<times> TableLockInfo) list \<Rightarrow> 64 word \<Rightarrow> bool" where
  "tl_ok m u \<longleftrightarrow> om_ok m
     \<and> (\<forall>k l. (k, l) \<in> set m \<longrightarrow> tl_id l = k \<and> k \<noteq> 0 \<and> k \<le> u \<and> tl_fits l)
     \<and> (\<forall>k l k' l'. (k, l) \<in> set m \<longrightarrow> (k', l') \<in> set m \<longrightarrow> k \<noteq> k' \<longrightarrow> tli_holds l \<inter> tli_holds l' = {})"

abbreviation tl_inv :: "TableLockServer \<Rightarrow> bool" where
  "tl_inv s \<equiv> tl_ok (tl_locks s) (unique64 (tl_sms s))"

lemma tl_newID_ok:
  assumes "unat (unique64 (tl_sms s)) + 1 < 2 ^ 64"
  shows "tl_newID s = (s\<lparr>tl_sms := (tl_sms s)\<lparr>unique64 := unique64 (tl_sms s) + 1\<rparr>\<rparr>, unique64 (tl_sms s) + 1)"
    "unique64 (tl_sms s) + 1 \<noteq> 0" "unique64 (tl_sms s) < unique64 (tl_sms s) + 1"
proof -
  have u: "unat (unique64 (tl_sms s) + 1) = unat (unique64 (tl_sms s)) + 1"
    using assms by (simp add: unat_plus_if')
  then show "unique64 (tl_sms s) + 1 \<noteq> 0" by (metis add_is_0 one_neq_zero unat_0)
  then show "tl_newID s = (s\<lparr>tl_sms := (tl_sms s)\<lparr>unique64 := unique64 (tl_sms s) + 1\<rparr>\<rparr>, unique64 (tl_sms s) + 1)"
    by (simp add: tl_newID_def sm_getUnique64_def Let_def)
  show "unique64 (tl_sms s) < unique64 (tl_sms s) + 1" by (simp add: word_less_nat_alt u)
qed

lemma find_overlap_Some:
  assumes "find (\<lambda>(k, l). tli_overlaps l tli (dbrootList tli)) m = Some (k, l)"
  shows "(k, l) \<in> set m" "tli_holds l \<inter> tli_holds tli \<noteq> {}"
proof -
  from assms obtain j where "j < length m" "m ! j = (k, l)" "tli_overlaps l tli (dbrootList tli)"
    by (auto simp: find_Some_iff)
  then show "(k, l) \<in> set m" "tli_holds l \<inter> tli_holds tli \<noteq> {}" by (metis nth_mem, simp add: tli_overlaps_holds)
qed

lemma find_overlap_None:
  assumes "find (\<lambda>(k, l). tli_overlaps l tli (dbrootList tli)) m = None"
  shows "\<forall>(k, l) \<in> set m. tli_holds l \<inter> tli_holds tli = {}"
  using assms by (auto simp: find_None_iff tli_overlaps_holds)

text \<open>A new lock that overlaps none keeps the invariant.\<close>

lemma tl_ok_put:
  assumes inv: "tl_ok m u" and i: "u < i" and fits: "tl_fits l"
    and free: "\<forall>(k, l') \<in> set m. tli_holds l' \<inter> tli_holds l = {}"
  shows "map_of m i = None" "tl_ok (om_put i (l\<lparr>tl_id := i\<rparr>) m) i"
proof -
  let ?l = "l\<lparr>tl_id := i\<rparr>"
  have ids: "tl_id l' = k \<and> k \<noteq> 0 \<and> k < i \<and> tl_fits l'" if "(k, l') \<in> set m" for k l'
    using inv i that unfolding tl_ok_def by (fastforce intro: order.strict_trans1)
  then have "(i, b) \<notin> set m" for b by blast
  then show new: "map_of m i = None" by (auto simp: map_of_eq_None_iff)
  have ok: "om_ok m" using inv by (simp add: tl_ok_def)
  have set: "set (om_put i ?l m) = insert (i, ?l) (set m)"
    using set_put [OF ok, of i] new by (force simp: map_of_eq_None_iff)
  have l: "tli_holds ?l = tli_holds l" "tl_fits ?l = tl_fits l" by (simp_all add: tli_holds_def tl_fits_def)
  have i0: "i \<noteq> 0" using i by auto
  show "tl_ok (om_put i ?l m) i"
    unfolding tl_ok_def set
  proof (intro conjI allI impI)
    show "om_ok (om_put i ?l m)" using ok by blast
  next
    fix k1 l1 k2 l2
    assume d: "(k1, l1) \<in> insert (i, ?l) (set m)" "(k2, l2) \<in> insert (i, ?l) (set m)" "k1 \<noteq> k2"
    consider "(k1, l1) \<in> set m" "(k2, l2) \<in> set m" | "(k1, l1) \<in> set m" "l2 = ?l" | "l1 = ?l" "(k2, l2) \<in> set m"
      using d by blast
    then show "tli_holds l1 \<inter> tli_holds l2 = {}"
    proof cases
      case 1
      with inv d(3) show ?thesis unfolding tl_ok_def by blast
    next
      case 2
      with free l(1) show ?thesis by fastforce
    next
      case 3
      with free l(1) show ?thesis by (fastforce simp: Int_commute)
    qed
  qed (use ids i0 fits l(2) in \<open>auto intro: order.strict_implies_order\<close>)
qed

lemma tl_ok_sub:
  assumes "tl_ok m u" "u \<le> v" "set n \<subseteq> set m" "om_ok n"
  shows "tl_ok n v"
  unfolding tl_ok_def
proof (intro conjI allI impI)
  fix k l assume "(k, l) \<in> set n"
  with assms(3) have "(k, l) \<in> set m" by blast
  with assms(1,2) show "tl_id l = k" "k \<noteq> 0" "k \<le> v" "tl_fits l" unfolding tl_ok_def by (fastforce intro: order.trans)+
next
  fix k l k' l' assume "(k, l) \<in> set n" "(k', l') \<in> set n" "k \<noteq> k'"
  with assms(1,3) show "tli_holds l \<inter> tli_holds l' = {}" unfolding tl_ok_def by blast
qed (rule assms(4))

lemma tl_lock_cases:
  assumes inv: "tl_inv s" and u: "unat (unique64 (tl_sms s)) + 1 < 2 ^ 64" and fits: "tl_fits tli"
  obtains (held) k l where "(k, l) \<in> set (tl_locks s)" "tli_holds l \<inter> tli_holds tli \<noteq> {}"
      "tl_lock io tli s = (s, Inr (0, tli\<lparr>ownerName := ownerName l, ownerPID := ownerPID l,
                                    ownerSessionID := ownerSessionID l, ownerTxnID := ownerTxnID l\<rparr>))"
  | (got) t i ns where "io = Some ns" "tli_holds tli \<inter> tl_held s = {}" "tl_lock io tli s = (t, Inr (i, tli\<lparr>tl_id := i\<rparr>))" "i \<noteq> 0"
      "map_of (tl_locks s) i = None" "tl_locks t = om_put i (tli\<lparr>tl_id := i\<rparr>) (tl_locks s)" "tl_inv t"
      "tl_file t = Some (written ns (tl_writes (tl_locks t)))"
  | (failed) t where "io = None" "tl_lock io tli s = (t, Inl RuntimeError)" "tl_locks t = tl_locks s" "tl_file t = tl_file s" "tl_inv t"
proof (cases "find (\<lambda>(k, l). tli_overlaps l tli (dbrootList tli)) (tl_locks s)")
  case (Some kl)
  obtain k l where kl: "kl = (k, l)" by (cases kl)
  with Some find_overlap_Some [of tli "tl_locks s" k l] show thesis by (intro held [of k l]) (simp_all add: tl_lock_def)
next
  case None
  then have free: "\<forall>(k, l) \<in> set (tl_locks s). tli_holds l \<inter> tli_holds tli = {}" by (rule find_overlap_None)
  define i where "i = unique64 (tl_sms s) + 1"
  let ?m = "(tl_sms s)\<lparr>unique64 := i\<rparr>"
  note P = tl_ok_put [OF inv tl_newID_ok(3) [OF u] fits free, folded i_def]
  have ok: "om_ok (tl_locks s)" using inv by (simp add: tl_ok_def)
  have id: "tl_newID s = (s\<lparr>tl_sms := ?m\<rparr>, i)" "i \<noteq> 0" "unique64 (tl_sms s) \<le> i"
    using tl_newID_ok [OF u] by (simp_all add: i_def order.strict_implies_order)
  show thesis
  proof (cases io)
    case (Some ns)
    let ?t = "s\<lparr>tl_sms := ?m, tl_locks := om_put i (tli\<lparr>tl_id := i\<rparr>) (tl_locks s),
        tl_file := Some (written ns (tl_writes (om_put i (tli\<lparr>tl_id := i\<rparr>) (tl_locks s))))\<rparr>"
    have "tl_lock io tli s = (?t, Inr (i, tli\<lparr>tl_id := i\<rparr>))" using Some None id by (simp add: tl_lock_def tl_save_def Let_def)
    moreover have "tli_holds tli \<inter> tl_held s = {}" using free by (force simp: tl_held_def)
    ultimately show thesis using Some P id by (intro got [of ns ?t i]) simp_all
  next
    case no: None
    let ?t = "s\<lparr>tl_sms := ?m\<rparr>"
    have "om_del i (om_put i (tli\<lparr>tl_id := i\<rparr>) (tl_locks s)) = tl_locks s" by (rule om_del_put [OF ok P(1)])
    then have "tl_lock io tli s = (?t, Inl RuntimeError)" using no None id by (simp add: tl_lock_def tl_save_def Let_def)
    moreover have "tl_inv ?t" using tl_ok_sub [OF inv id(3) order_refl ok] by simp
    ultimately show thesis using no by (intro failed [of ?t]) simp_all
  qed
qed

lemma tl_unlock_cases:
  assumes inv: "tl_inv s"
  shows "if map_of (tl_locks s) i = None then tl_unlock io i s = (s, Inr False)
    else tl_unlock io i s = (case io of
        Some ns \<Rightarrow> (s\<lparr>tl_locks := om_del i (tl_locks s), tl_file := Some (written ns (tl_writes (om_del i (tl_locks s))))\<rparr>, Inr True)
      | None \<Rightarrow> (s, Inl RuntimeError))"
proof (cases "map_of (tl_locks s) i")
  case (Some l)
  have ok: "om_ok (tl_locks s)" using inv by (simp add: tl_ok_def)
  with Some have "(i, l) \<in> set (tl_locks s)" by (simp add: om_get_iff)
  with inv have "tl_id l = i" unfolding tl_ok_def by blast
  with Some om_put_del [OF ok Some] show ?thesis by (simp add: tl_unlock_def tl_save_def split: option.split)
qed (simp add: tl_unlock_def)

lemma tl_modify_cases:
  assumes ok: "om_ok (tl_locks s)"
  shows "tl_modify io i f s = (case map_of (tl_locks s) i of
      None \<Rightarrow> (s, Inr False)
    | Some l \<Rightarrow> (case io of
          Some ns \<Rightarrow> (s\<lparr>tl_locks := om_put i (f l) (tl_locks s), tl_file := Some (written ns (tl_writes (om_put i (f l) (tl_locks s))))\<rparr>, Inr True)
        | None \<Rightarrow> (s, Inl RuntimeError)))"
proof (cases "map_of (tl_locks s) i")
  case (Some l)
  have "om_put i l (om_put i (f l) (tl_locks s)) = tl_locks s"
    by (rule om_ext) (use ok Some in \<open>auto simp: fun_eq_iff\<close>)
  with Some show ?thesis by (simp add: tl_modify_def tl_save_def split: option.split)
qed (simp add: tl_modify_def)

lemma tl_ok_modify:
  assumes inv: "tl_ok m u" and i: "map_of m i = Some l"
    and f: "tl_id (f l) = tl_id l" "tli_holds (f l) = tli_holds l" "tl_fits (f l)"
  shows "tl_ok (om_put i (f l) m) u"
proof -
  have ok: "om_ok m" using inv by (simp add: tl_ok_def)
  have l: "(i, l) \<in> set m" using i ok by (simp add: om_get_iff)
  have set: "set (om_put i (f l) m) = insert (i, f l) {x \<in> set m. fst x \<noteq> i}" by (rule set_put [OF ok])
  have ids: "tl_id l' = k \<and> k \<noteq> 0 \<and> k \<le> u \<and> tl_fits l'" if "(k, l') \<in> set m" for k l'
    using inv that unfolding tl_ok_def by blast
  have dis: "tli_holds l1 \<inter> tli_holds l2 = {}" if "(k1, l1) \<in> set m" "(k2, l2) \<in> set m" "k1 \<noteq> k2" for k1 l1 k2 l2
    using inv that unfolding tl_ok_def by blast
  show ?thesis
    unfolding tl_ok_def set
  proof (intro conjI allI impI)
    show "om_ok (om_put i (f l) m)" using ok by blast
  next
    fix k1 l1 k2 l2
    assume d: "(k1, l1) \<in> insert (i, f l) {x \<in> set m. fst x \<noteq> i}" "(k2, l2) \<in> insert (i, f l) {x \<in> set m. fst x \<noteq> i}" "k1 \<noteq> k2"
    consider "(k1, l1) \<in> set m" "(k2, l2) \<in> set m" | "(k1, l1) \<in> set m" "k1 \<noteq> i" "l2 = f l" | "l1 = f l" "(k2, l2) \<in> set m" "k2 \<noteq> i"
      using d by auto
    then show "tli_holds l1 \<inter> tli_holds l2 = {}"
      using d(3) dis l f(2) by cases (metis, metis, metis)
  qed (use ids [OF l] ids f in auto)
qed

section \<open>Restart\<close>

text \<open>What a lock is without the id, which a restart renumbers.\<close>

definition anon :: "(64 word \<times> TableLockInfo) list \<Rightarrow> TableLockInfo list" where
  "anon m = map (\<lambda>(k, l). l\<lparr>tl_id := 0\<rparr>) m"

lemma om_put_last:
  "\<forall>(k', v') \<in> set m. k' < k \<Longrightarrow> om_put k v m = m @ [(k, v)]"
  by (induction m) auto

definition good_locks :: "TableLockInfo list \<Rightarrow> bool" where
  "good_locks ls \<longleftrightarrow> (\<forall>l \<in> set ls. tl_fits l) \<and> sorted_wrt (\<lambda>l l'. tli_holds l \<inter> tli_holds l' = {}) ls"

lemma good_locks_anon: "good_locks (anon m) = good_locks (map snd m)"
proof -
  have "tl_fits (l\<lparr>tl_id := i\<rparr>) = tl_fits l" "tli_holds (l\<lparr>tl_id := i\<rparr>) = tli_holds l" for l i
    by (simp_all add: tl_fits_def tli_holds_def)
  then show ?thesis by (simp add: good_locks_def anon_def sorted_wrt_map split_beta)
qed

lemma tl_ok_good: "tl_ok m u \<Longrightarrow> good_locks (map snd m)"
proof -
  assume ok: "tl_ok m u"
  then have d: "distinct (map fst m)" by (simp add: tl_ok_def om_ok_distinct)
  have "tli_holds (snd (m ! i)) \<inter> tli_holds (snd (m ! j)) = {}" if "i < j" "j < length m" for i j
  proof -
    have "(fst (m ! i), snd (m ! i)) \<in> set m" "(fst (m ! j), snd (m ! j)) \<in> set m" using that by simp_all
    moreover have "fst (m ! i) \<noteq> fst (m ! j)" using that d nth_eq_iff_index_eq [OF d, of i j] by simp
    ultimately show ?thesis using ok unfolding tl_ok_def by blast
  qed
  moreover have "\<forall>l \<in> set (map snd m). tl_fits l" using ok unfolding tl_ok_def by fastforce
  ultimately show ?thesis by (simp add: good_locks_def sorted_wrt_iff_nth_less)
qed

lemma tl_load_loop_ok:
  assumes "tl_inv s" "good_locks (map snd m)" "\<forall>(k, l) \<in> set m. \<forall>(k', l') \<in> set (tl_locks s). tli_holds l' \<inter> tli_holds l = {}"
    "unat (unique64 (tl_sms s)) + length m < 2 ^ 64"
  shows "\<exists>t. tl_load_loop (length m) old (concat (map (\<lambda>(k, l). concat (tli_serialize l)) m)) s = (t, Inr ())
    \<and> tl_inv t \<and> anon (tl_locks t) = anon (tl_locks s) @ anon m \<and> tl_file t = tl_file s"
  using assms
proof (induction m arbitrary: s old)
  case (Cons x m)
  obtain k l where x: "x = (k, l)" by (cases x)
  from Cons.prems(2) x have l: "tl_fits l" "\<forall>(k', l') \<in> set m. tli_holds l \<inter> tli_holds l' = {}" "good_locks (map snd m)"
    by (fastforce simp: good_locks_def)+
  have u: "unat (unique64 (tl_sms s)) + 1 < 2 ^ 64" using Cons.prems(4) by simp
  define i where "i = unique64 (tl_sms s) + 1"
  note I = tl_newID_ok [OF u, folded i_def]
  define s1 where "s1 = s\<lparr>tl_sms := (tl_sms s)\<lparr>unique64 := i\<rparr>, tl_locks := om_put i (l\<lparr>tl_id := i\<rparr>) (tl_locks s)\<rparr>"
  have free: "\<forall>(k', l') \<in> set (tl_locks s). tli_holds l' \<inter> tli_holds l = {}" using Cons.prems(3) x by auto
  note P = tl_ok_put [OF Cons.prems(1) I(3) l(1) free]
  have "k' < i" if "(k', l') \<in> set (tl_locks s)" for k' l'
    using Cons.prems(1) I(3) that unfolding tl_ok_def by (meson order.strict_trans1)
  then have last: "om_put i (l\<lparr>tl_id := i\<rparr>) (tl_locks s) = tl_locks s @ [(i, l\<lparr>tl_id := i\<rparr>)]" by (intro om_put_last) auto
  have inv1: "tl_inv s1" using P(2) by (simp add: s1_def)
  have free1: "\<forall>(k, l) \<in> set m. \<forall>(k', l') \<in> set (tl_locks s1). tli_holds l' \<inter> tli_holds l = {}"
  proof -
    have h: "tli_holds (l\<lparr>tl_id := i\<rparr>) = tli_holds l" by (simp add: tli_holds_def)
    have "tli_holds l' \<inter> tli_holds l2 = {}" if "(k2, l2) \<in> set m" "(k', l') \<in> set (tl_locks s1)" for k2 l2 k' l'
    proof (cases "(k', l') \<in> set (tl_locks s)")
      case True
      with Cons.prems(3) that(1) show ?thesis by fastforce
    next
      case False
      with that(2) have "l' = l\<lparr>tl_id := i\<rparr>" by (simp add: s1_def last)
      with h l(2) that(1) show ?thesis by fastforce
    qed
    then show ?thesis by blast
  qed
  have "unat i = unat (unique64 (tl_sms s)) + 1" using u by (simp add: i_def unat_plus_if')
  then have u1: "unat (unique64 (tl_sms s1)) + length m < 2 ^ 64" using Cons.prems(4) by (simp add: s1_def)
  from Cons.IH [OF inv1 l(3) free1 u1, of "dbrootList l"] obtain t where
    t: "tl_load_loop (length m) (dbrootList l) (concat (map (\<lambda>(k, l). concat (tli_serialize l)) m)) s1 = (t, Inr ())"
      "tl_inv t" "anon (tl_locks t) = anon (tl_locks s1) @ anon m" "tl_file t = tl_file s1" by blast
  have "tl_load_loop (length (x # m)) old (concat (map (\<lambda>(k, l). concat (tli_serialize l)) (x # m))) s =
      tl_load_loop (length m) (dbrootList l) (concat (map (\<lambda>(k, l). concat (tli_serialize l)) m)) s1"
    using l(1) by (simp add: x tli_round_trip tl_fits_def I(1) s1_def)
  with t show ?case by (auto simp: s1_def last anon_def x)
qed (simp add: anon_def)

lemma tl_image_eq: "tl_image m = nat_bytes 4 (length m mod 2 ^ 32) @ concat (map (\<lambda>(k, l). concat (tli_serialize l)) m)"
proof -
  have "concat (concat (map (\<lambda>(k, l). tli_serialize l) m)) = concat (map (\<lambda>(k, l). concat (tli_serialize l)) m)"
    by (induction m) auto
  then show ?thesis by (simp add: tl_image_def tl_writes_def)
qed

lemma tl_load_image:
  assumes "good_locks (anon m)" "length m < 2 ^ 32" "unique64 sms = 0"
  shows "\<exists>t. tl_load \<lparr>tl_locks = [], tl_file = Some (tl_image m), tl_sms = sms\<rparr> = (t, Inr ())
    \<and> tl_inv t \<and> anon (tl_locks t) = anon m \<and> tl_file t = Some (tl_image m)"
proof -
  let ?s = "\<lparr>tl_locks = [], tl_file = Some (tl_image m), tl_sms = sms\<rparr>"
  have "tl_inv ?s" by (simp add: tl_ok_def)
  moreover have "unat (unique64 (tl_sms ?s)) + length m < 2 ^ 64" using assms(2,3) by simp
  ultimately obtain t where t: "tl_load_loop (length m) [] (concat (map (\<lambda>(k, l). concat (tli_serialize l)) m)) ?s = (t, Inr ())"
      "tl_inv t" "anon (tl_locks t) = anon (tl_locks ?s) @ anon m" "tl_file t = tl_file ?s"
    using tl_load_loop_ok [of ?s m "[]"] assms(1) by (auto simp: good_locks_anon)
  have "rd 4 (tl_image m) = Some (length m, concat (map (\<lambda>(k, l). concat (tli_serialize l)) m))"
    using assms(2) unfolding tl_image_eq by (subst rd_nat_bytes) simp_all
  with t show ?thesis by (simp add: tl_load_def anon_def)
qed

section \<open>Histories\<close>

text \<open>
  The server from its first start: calls with any result of the open and of the writes, other users of the id counter, and
  restarts, where a new process with a fresh counter reads the file. The flag says that no save so far has lost
  bytes: only then is a restart part of the history, as otherwise the file need not describe the locks. The bounds are those of
  the file format (16 bit lengths, a 32 bit number of locks) and of the id counter.
\<close>

definition tl_whole :: "nat list option \<Rightarrow> bool" where
  "tl_whole io \<longleftrightarrow> (case io of None \<Rightarrow> True | Some ns \<Rightarrow> ns = [])"

inductive tl_reach :: "bool \<Rightarrow> TableLockServer \<Rightarrow> bool" where
  start: "tl_reach True \<lparr>tl_locks = [], tl_file = None, tl_sms = sms\<rparr>"
| lock: "tl_reach b s \<Longrightarrow> unat (unique64 (tl_sms s)) + 1 < 2 ^ 64 \<Longrightarrow> tl_fits tli \<Longrightarrow> tl_reach (b \<and> tl_whole io) (fst (tl_lock io tli s))"
| unlock: "tl_reach b s \<Longrightarrow> tl_reach (b \<and> tl_whole io) (fst (tl_unlock io i s))"
| changeState: "tl_reach b s \<Longrightarrow> tl_reach (b \<and> tl_whole io) (fst (tl_changeState io i st s))"
| changeOwner: "tl_reach b s \<Longrightarrow> length name < 2 ^ 16 \<Longrightarrow> tl_reach (b \<and> tl_whole io) (fst (tl_changeOwner io i name pid ses txn s))"
| releaseAll: "tl_reach b s \<Longrightarrow> tl_reach (b \<and> tl_whole io) (fst (tl_releaseAllLocks io s))"
| otherIDs: "tl_reach b s \<Longrightarrow> unique64 (tl_sms s) \<le> unique64 sms \<Longrightarrow> tl_reach b (s\<lparr>tl_sms := sms\<rparr>)"
| restart: "tl_reach True s \<Longrightarrow> length (tl_locks s) < 2 ^ 32 \<Longrightarrow> unique64 sms = 0 \<Longrightarrow>
    tl_reach True (fst (tl_load \<lparr>tl_locks = [], tl_file = tl_file s, tl_sms = sms\<rparr>))"

text \<open>The file describes the locks, up to their ids.\<close>

definition tl_saved :: "TableLockServer \<Rightarrow> bool" where
  "tl_saved s \<longleftrightarrow> (tl_file s = None \<and> tl_locks s = [])
     \<or> (\<exists>m. tl_file s = Some (tl_image m) \<and> anon m = anon (tl_locks s))"

lemma tl_saved_written: "tl_file s = Some (written ns (tl_writes (tl_locks s))) \<Longrightarrow> tl_whole (Some ns) \<Longrightarrow> tl_saved s"
  unfolding tl_saved_def tl_image_def tl_whole_def by auto

lemma tl_saved_image [intro]: "tl_file s = Some (tl_image (tl_locks s)) \<Longrightarrow> tl_saved s"
  unfolding tl_saved_def by blast

lemma tl_restart:
  assumes "tl_inv s" "tl_saved s" "length (tl_locks s) < 2 ^ 32" "unique64 sms = 0"
  shows "\<exists>t. tl_load \<lparr>tl_locks = [], tl_file = tl_file s, tl_sms = sms\<rparr> = (t, Inr ())
    \<and> tl_inv t \<and> tl_saved t \<and> anon (tl_locks t) = anon (tl_locks s)"
proof -
  consider "tl_file s = None" "tl_locks s = []" | m where "tl_file s = Some (tl_image m)" "anon m = anon (tl_locks s)"
    using assms(2) unfolding tl_saved_def by metis
  then show ?thesis
  proof cases
    case 1
    then show ?thesis by (simp add: tl_load_def tl_ok_def anon_def tl_saved_def)
  next
    case m: 2
    have "length m = length (tl_locks s)" using arg_cong [OF m(2), of length] by (simp add: anon_def)
    moreover have "good_locks (anon m)" using tl_ok_good [OF assms(1)] by (simp add: m(2) good_locks_anon)
    ultimately obtain t where "tl_load \<lparr>tl_locks = [], tl_file = tl_file s, tl_sms = sms\<rparr> = (t, Inr ())"
        "tl_inv t" "anon (tl_locks t) = anon m" "tl_file t = Some (tl_image m)"
      using tl_load_image [of m sms] assms(3,4) m(1) by auto
    with m show ?thesis unfolding tl_saved_def by (intro exI [of _ t]) auto
  qed
qed

lemma tl_modify_keeps:
  assumes "tl_inv s" "b \<longrightarrow> tl_saved s" "\<And>l. tl_id (f l) = tl_id l" "\<And>l. tli_holds (f l) = tli_holds l" "\<And>l. tl_fits l \<Longrightarrow> tl_fits (f l)"
  shows "tl_inv (fst (tl_modify io i f s)) \<and> (b \<and> tl_whole io \<longrightarrow> tl_saved (fst (tl_modify io i f s)))"
proof -
  have ok: "om_ok (tl_locks s)" using assms(1) by (simp add: tl_ok_def)
  show ?thesis
  proof (cases "map_of (tl_locks s) i")
    case (Some l)
    then have "(i, l) \<in> set (tl_locks s)" using ok by (simp add: om_get_iff)
    then have "tl_fits l" using assms(1) unfolding tl_ok_def by blast
    with tl_ok_modify [where f = f, OF assms(1) Some assms(3,4)] assms(1,2,5) Some show ?thesis
      by (cases io) (auto simp: tl_modify_cases [OF ok] intro: tl_saved_written)
  qed (use assms tl_modify_cases [OF ok] in simp)
qed

lemma tl_reach_inv: "tl_reach b s \<Longrightarrow> tl_inv s \<and> (b \<longrightarrow> tl_saved s)"
proof (induction rule: tl_reach.induct)
  case (start sms)
  then show ?case by (simp add: tl_ok_def tl_saved_def)
next
  case (lock b s tli io)
  then have inv: "tl_inv s" "b \<longrightarrow> tl_saved s" by blast+
  from inv(1) lock(2,3) show ?case
  proof (cases rule: tl_lock_cases [where io = io])
    case (failed t)
    with inv(2) show ?thesis by (simp add: tl_saved_def)
  next
    case (got t i ns)
    with tl_saved_written [of t ns] show ?thesis by simp
  qed (use inv in simp)
next
  case (unlock b s io i)
  then have ok: "om_ok (tl_locks s)" by (simp add: tl_ok_def)
  have "tl_ok (om_del i (tl_locks s)) (unique64 (tl_sms s))"
    by (rule tl_ok_sub [where m = "tl_locks s"]) (use unlock ok in \<open>auto simp: set_del\<close>)
  with unlock tl_unlock_cases [of s i io] show ?case by (cases io) (auto split: if_splits intro: tl_saved_written)
next
  case (changeState b s io i st)
  then show ?case unfolding tl_changeState_def
    by (intro tl_modify_keeps) (auto simp: tli_holds_def tl_fits_def)
next
  case (changeOwner b s name io i pid ses txn)
  then show ?case unfolding tl_changeOwner_def
    by (intro tl_modify_keeps) (auto simp: tli_holds_def tl_fits_def)
next
  case (releaseAll b s io)
  have "tl_ok [] u" for u by (simp add: tl_ok_def)
  with releaseAll show ?case by (cases io) (auto simp: tl_releaseAllLocks_def tl_save_def intro: tl_saved_written)
next
  case (otherIDs b s sms)
  then have ok: "om_ok (tl_locks s)" by (simp add: tl_ok_def)
  have "tl_ok (tl_locks s) (unique64 sms)"
    by (rule tl_ok_sub [where m = "tl_locks s"]) (use otherIDs ok in simp_all)
  with otherIDs show ?case by (simp add: tl_saved_def)
next
  case (restart s sms)
  then obtain t where "tl_load \<lparr>tl_locks = [], tl_file = tl_file s, tl_sms = sms\<rparr> = (t, Inr ())" "tl_inv t" "tl_saved t"
    using tl_restart [of s sms] by blast
  then show ?case by simp
qed

section \<open>Contract\<close>

lemma tl_held_iff: "x \<in> tl_held s \<longleftrightarrow> (\<exists>k l. (k, l) \<in> set (tl_locks s) \<and> x \<in> tli_holds l)"
  unfolding tl_held_def by force

lemma tl_held_anon: "tl_held s = \<Union> (tli_holds ` set (anon (tl_locks s)))"
proof -
  have "tli_holds (l\<lparr>tl_id := i\<rparr>) = tli_holds l" for l i by (simp add: tli_holds_def)
  then show ?thesis by (simp add: tl_held_def anon_def image_image split_beta)
qed

text \<open>An example: two load jobs lock different dbroots of table 3000.\<close>

definition tli_ex :: "32 word \<Rightarrow> 32 word list \<Rightarrow> TableLockInfo" where
  "tli_ex txn ds = \<lparr>tl_id = 0, tableOID = 3000, ownerName = [99, 112], ownerPID = 7, ownerSessionID = 5,
     ownerTxnID = txn, tl_state = 0, creationTime = 1000, dbrootList = ds\<rparr>"

definition tl_ex0 :: TableLockServer where
  "tl_ex0 = \<lparr>tl_locks = [], tl_file = None, tl_sms = sm_init (Some 2) None\<rparr>"

definition tl_ex1 :: TableLockServer where
  "tl_ex1 = fst (tl_lock (Some []) (tli_ex 8 [1, 2]) tl_ex0)"

definition tl_ex2 :: TableLockServer where
  "tl_ex2 = fst (tl_lock (Some []) (tli_ex 9 [3]) tl_ex1)"

lemma tl_ex_fits: "tl_fits (tli_ex x [1, 2])" "tl_fits (tli_ex x [3])" "tl_fits (tli_ex x [2, 4])"
  by (simp_all add: tl_fits_def tli_ex_def)

lemma tl_ex_sms: "unique64 (sm_init (Some 2) None) = 0"
  by code_simp

lemmas tl_ex_defs = tl_ex0_def tli_ex_def tl_ex_sms tl_newID_def sm_getUnique64_def tl_save_def tli_overlaps_def Let_def

lemma tl_ex_locks:
  "tl_locks tl_ex0 = []" "tl_locks tl_ex1 = [(1, (tli_ex 8 [1, 2])\<lparr>tl_id := 1\<rparr>)]"
  "tl_locks tl_ex2 = [(1, (tli_ex 8 [1, 2])\<lparr>tl_id := 1\<rparr>), (2, (tli_ex 9 [3])\<lparr>tl_id := 2\<rparr>)]"
  by (simp_all add: tl_ex2_def tl_ex1_def tl_lock_def tl_ex_defs)

lemma tl_ex_ids: "unique64 (tl_sms tl_ex0) = 0" "unique64 (tl_sms tl_ex1) = 1" "unique64 (tl_sms tl_ex2) = 2"
  by (simp_all add: tl_ex2_def tl_ex1_def tl_lock_def tl_ex_defs)

lemma tl_ex_reach: "tl_reach True tl_ex1" "tl_reach True tl_ex2"
proof -
  have 0: "tl_reach True tl_ex0" unfolding tl_ex0_def by (rule tl_reach.start)
  have w: "(True \<and> tl_whole (Some [])) = True" by (simp add: tl_whole_def)
  show 1: "tl_reach True tl_ex1"
    using tl_reach.lock [OF 0 _ tl_ex_fits(1), of "Some []" 8] unfolding tl_ex1_def w by (simp add: tl_ex_ids)
  show "tl_reach True tl_ex2"
    using tl_reach.lock [OF 1 _ tl_ex_fits(2), of "Some []" 9] unfolding tl_ex2_def w by (simp add: tl_ex_ids)
qed

lemma tl_ex_info:
  "tl_getLockInfo 1 tl_ex2 = Some ((tli_ex 8 [1, 2])\<lparr>tl_id := 1\<rparr>)" "tl_getLockInfo 2 tl_ex2 = Some ((tli_ex 9 [3])\<lparr>tl_id := 2\<rparr>)"
  "length (tl_locks tl_ex2) = 2"
  by (simp_all add: tl_getLockInfo_def tl_ex_locks)

text \<open>
  C9. Mutual exclusion. In every history of the table lock server, with failed opens, with writes that lose
  bytes, and with restarts from a file to which no bytes were lost, two different locks never hold the same dbroot of the same table.
\<close>

theorem tl_mutual_exclusion:
  assumes "tl_reach b s" "tl_getLockInfo i s = Some l" "tl_getLockInfo j s = Some l'" "i \<noteq> j"
  shows "tli_holds l \<inter> tli_holds l' = {}"
proof -
  have inv: "tl_inv s" using tl_reach_inv [OF assms(1)] ..
  then have "om_ok (tl_locks s)" by (simp add: tl_ok_def)
  with assms(2,3) have "(i, l) \<in> set (tl_locks s)" "(j, l') \<in> set (tl_locks s)" by (simp_all add: tl_getLockInfo_def om_get_iff)
  with inv assms(4) show ?thesis unfolding tl_ok_def by blast
qed

theorem tl_mutual_exclusion_witness: "tli_holds ((tli_ex 8 [1, 2])\<lparr>tl_id := 1\<rparr>) \<inter> tli_holds ((tli_ex 9 [3])\<lparr>tl_id := 2\<rparr>) = {}"
  using tl_mutual_exclusion [OF tl_ex_reach(2) tl_ex_info(1,2)] by simp

text \<open>
  C35. What \<^verbatim>\<open>lock\<close> promises. It returns \<open>0\<close> exactly when a dbroot of the table is held, with the owner of a lock that
  holds one, and changes nothing. Otherwise it returns an id that no lock has, the new lock is the only
  change, and the dbroots held grow by those asked for; when the save fails the call fails and no lock changes.
\<close>

theorem tl_lock_contract:
  assumes "tl_reach b s" "unat (unique64 (tl_sms s)) + 1 < 2 ^ 64" "tl_fits tli"
  shows "case tl_lock io tli s of
      (t, Inl err) \<Rightarrow> io = None \<and> tli_holds tli \<inter> tl_held s = {} \<and> (\<forall>j. tl_getLockInfo j t = tl_getLockInfo j s) \<and> tl_file t = tl_file s
    | (t, Inr (i, tli')) \<Rightarrow>
        (i = 0 \<longleftrightarrow> tli_holds tli \<inter> tl_held s \<noteq> {})
        \<and> (if i = 0 then t = s \<and> (\<exists>k l. tl_getLockInfo k s = Some l \<and> tli_holds l \<inter> tli_holds tli \<noteq> {}
                                    \<and> ownerTxnID tli' = ownerTxnID l \<and> ownerPID tli' = ownerPID l
                                    \<and> ownerName tli' = ownerName l \<and> ownerSessionID tli' = ownerSessionID l)
           else tl_getLockInfo i s = None \<and> tli' = tli\<lparr>tl_id := i\<rparr>
                \<and> (\<forall>j. tl_getLockInfo j t = (if j = i then Some tli' else tl_getLockInfo j s))
                \<and> tl_held t = tl_held s \<union> tli_holds tli)"
proof -
  have inv: "tl_inv s" using tl_reach_inv [OF assms(1)] ..
  then have ok: "om_ok (tl_locks s)" by (simp add: tl_ok_def)
  from inv assms(2,3) show ?thesis
  proof (cases rule: tl_lock_cases [where io = io])
    case (held k l)
    then have "tli_holds tli \<inter> tl_held s \<noteq> {}" using tl_held_iff by blast
    moreover have "tl_getLockInfo k s = Some l" using held(1) ok by (simp add: tl_getLockInfo_def om_get_iff)
    ultimately show ?thesis using held(2,3) by auto
  next
    case (got t i ns)
    have h: "tli_holds (tli\<lparr>tl_id := i\<rparr>) = tli_holds tli" by (simp add: tli_holds_def)
    have "set (tl_locks t) = insert (i, tli\<lparr>tl_id := i\<rparr>) (set (tl_locks s))"
      unfolding got(6) set_put [OF ok] using got(5) by (force simp: map_of_eq_None_iff)
    then have "tl_held t = tl_held s \<union> tli_holds tli" by (auto simp: tl_held_def h)
    with got ok show ?thesis by (simp add: tl_getLockInfo_def)
  next
    case (failed t)
    have "tli_holds tli \<inter> tl_held s = {}"
    proof (rule ccontr)
      assume "tli_holds tli \<inter> tl_held s \<noteq> {}"
      then have "find (\<lambda>(k, l). tli_overlaps l tli (dbrootList tli)) (tl_locks s) \<noteq> None"
        using find_overlap_None [of tli "tl_locks s"] by (fastforce simp: tl_held_iff)
      with failed(2) show False by (auto simp: tl_lock_def)
    qed
    with failed show ?thesis by (simp add: tl_getLockInfo_def)
  qed
qed

theorem tl_lock_contract_witness:
  "tl_held tl_ex2 = tl_held tl_ex1 \<union> {(3000, 3)} \<and> fst (tl_lock (Some []) (tli_ex 10 [2, 4]) tl_ex2) = tl_ex2"
proof -
  have 1: "tl_lock (Some []) (tli_ex 9 [3]) tl_ex1 = (tl_ex2, Inr (2, (tli_ex 9 [3])\<lparr>tl_id := 2\<rparr>))"
    by (simp add: tl_ex2_def tl_lock_def tl_ex_locks tl_ex_ids tl_ex_defs)
  obtain t l where l: "tl_lock (Some []) (tli_ex 10 [2, 4]) tl_ex2 = (t, Inr (0, l))"
    by (simp add: tl_lock_def tl_ex_locks tli_overlaps_def tli_ex_def)
  have "tl_held tl_ex2 = tl_held tl_ex1 \<union> tli_holds (tli_ex 9 [3])"
    using tl_lock_contract [OF tl_ex_reach(1) _ tl_ex_fits(2), of "Some []" 9] by (simp add: tl_ex_ids 1)
  moreover have "t = tl_ex2"
    using tl_lock_contract [OF tl_ex_reach(2) _ tl_ex_fits(3), of "Some []" 10] by (simp add: tl_ex_ids l)
  moreover have "tli_holds (tli_ex 9 [3]) = {(3000, 3)}" by (simp add: tli_holds_def tli_ex_def)
  ultimately show ?thesis by (simp add: l)
qed

text \<open>
  C36. A restart loses no lock, provided that every write of every save whose open succeeded was complete (the
  server does not look at the results of the writes, so it does not notice one that is not): the file that such a history
  leaves is read without error by a new process, and it then has the same locks in the same order, with new ids, and so the same dbroots held.
\<close>

theorem tl_restart_keeps_locks:
  assumes "tl_reach True s" "length (tl_locks s) < 2 ^ 32" "unique64 sms = 0"
  shows "\<exists>t. tl_load \<lparr>tl_locks = [], tl_file = tl_file s, tl_sms = sms\<rparr> = (t, Inr ())
    \<and> map (\<lambda>l. l\<lparr>tl_id := 0\<rparr>) (tl_getAllLocks t) = map (\<lambda>l. l\<lparr>tl_id := 0\<rparr>) (tl_getAllLocks s)
    \<and> tl_held t = tl_held s"
proof -
  from tl_reach_inv [OF assms(1)] obtain t where
    "tl_load \<lparr>tl_locks = [], tl_file = tl_file s, tl_sms = sms\<rparr> = (t, Inr ())" "anon (tl_locks t) = anon (tl_locks s)"
    using tl_restart [of s sms] assms(2,3) by blast
  moreover from this(2) have "tl_held t = tl_held s" by (simp add: tl_held_anon)
  moreover have "map (\<lambda>l. l\<lparr>tl_id := 0\<rparr>) (tl_getAllLocks u) = anon (tl_locks u)" for u
    by (simp add: tl_getAllLocks_def anon_def split_beta)
  ultimately show ?thesis by auto
qed

theorem tl_restart_keeps_locks_witness:
  "\<exists>t. tl_load (tl_ex0\<lparr>tl_file := tl_file tl_ex2\<rparr>) = (t, Inr ()) \<and> tl_held t = tl_held tl_ex2"
proof -
  from tl_restart_keeps_locks [OF tl_ex_reach(2) _ tl_ex_sms] show ?thesis by (auto simp: tl_ex_info tl_ex0_def)
qed

text \<open>
  C37. A call that throws, because the save file cannot be opened, leaves the locks and the file as they
  were, for every operation that saves.
\<close>

theorem tl_failure_atomic:
  assumes "tl_reach b s" "unat (unique64 (tl_sms s)) + 1 < 2 ^ 64" "tl_fits tli"
    and "tl_lock io tli s = (t, Inl err) \<or> tl_unlock io i s = (t, Inl err) \<or> tl_changeState io i st s = (t, Inl err)
      \<or> tl_changeOwner io i name pid ses txn s = (t, Inl err) \<or> tl_releaseAllLocks io s = (t, Inl err)"
  shows "tl_locks t = tl_locks s \<and> tl_file t = tl_file s"
proof -
  have inv: "tl_inv s" using tl_reach_inv [OF assms(1)] ..
  then have ok: "om_ok (tl_locks s)" by (simp add: tl_ok_def)
  have "tl_locks t = tl_locks s \<and> tl_file t = tl_file s" if "tl_lock io tli s = (t, Inl err)"
    using inv assms(2,3) by (cases rule: tl_lock_cases [where io = io]) (use that in auto)
  moreover have "t = s" if "tl_unlock io i s = (t, Inl err)"
    using that tl_unlock_cases [OF inv, of i io] by (cases io) (auto split: if_splits)
  moreover have "t = s" if "tl_modify io i f s = (t, Inl err)" for f
    using that by (auto simp: tl_modify_cases [OF ok] split: option.splits if_splits)
  moreover have "t = s" if "tl_releaseAllLocks io s = (t, Inl err)"
    using that by (auto simp: tl_releaseAllLocks_def tl_save_def split: option.splits)
  ultimately show ?thesis
    using assms(4) unfolding tl_changeState_def tl_changeOwner_def by blast
qed

theorem tl_failure_atomic_witness: "tl_locks (fst (tl_unlock None 1 tl_ex2)) = tl_locks tl_ex2"
proof -
  have "snd (tl_unlock None 1 tl_ex2) = Inl RuntimeError"
    by (simp add: tl_unlock_def tl_ex_locks tl_save_def)
  then have u: "tl_unlock None 1 tl_ex2 = (fst (tl_unlock None 1 tl_ex2), Inl RuntimeError)" by (simp add: prod_eq_iff)
  have "unat (unique64 (tl_sms tl_ex2)) + 1 < 2 ^ 64" by (simp add: tl_ex_ids)
  from tl_failure_atomic [OF tl_ex_reach(2) this tl_ex_fits(2) disjI2 [OF disjI1 [OF u]]] show ?thesis by simp
qed

end
