(* ===== verification/Deadlock_Search.thy ===== *)
theory Deadlock_Search
  imports BRM_Prelude "HOL-Library.Word"
begin

text \<open>
  The search of \<^verbatim>\<open>LBIDResourceGraph::DFSStep\<close> (\<^verbatim>\<open>versioning/BRM/lbidresourcegraph.cpp\<close>) for a cycle in the graph of
  transactions and LBIDs. A node is a transaction or an LBID, \<open>out\<close> gives the nodes behind its out edges
  (the order of a \<^verbatim>\<open>std::set\<close> of pointers is not fixed, the results hold for each order), and \<open>c\<close> the colours.
  The depth of the recursion is bounded by \<open>fuel\<close>; \<open>DFSStep_total\<close> shows how much is always enough.
\<close>

datatype RGNode = TransactionNode VER_t | ResourceNode LBID_t

type_synonym colours = "RGNode \<Rightarrow> 64 word"

fun DFSStep :: "nat \<Rightarrow> (RGNode \<Rightarrow> RGNode list) \<Rightarrow> 64 word \<Rightarrow> 64 word \<Rightarrow> RGNode \<Rightarrow> colours \<Rightarrow> (colours \<times> bool) option"
  and DFSEdges :: "nat \<Rightarrow> (RGNode \<Rightarrow> RGNode list) \<Rightarrow> 64 word \<Rightarrow> 64 word \<Rightarrow> RGNode \<Rightarrow> RGNode list \<Rightarrow> colours \<Rightarrow> (colours \<times> bool) option" where
  "DFSStep 0 out gray black curNode c = None"
| "DFSStep (Suc fuel) out gray black curNode c =
     (if c curNode = gray then Some (c, True)
      else DFSEdges fuel out gray black curNode (out curNode) (c(curNode := gray)))"
| "DFSEdges fuel out gray black curNode [] c = Some (c(curNode := black), False)"
| "DFSEdges fuel out gray black curNode (n # ns) c =
     (if c n \<noteq> black
      then case DFSStep fuel out gray black n c of
             None \<Rightarrow> None
           | Some (c, True) \<Rightarrow> Some (c, True)
           | Some (c, False) \<Rightarrow> DFSEdges fuel out gray black curNode ns c
      else DFSEdges fuel out gray black curNode ns c)"

definition edges :: "(RGNode \<Rightarrow> RGNode list) \<Rightarrow> (RGNode \<times> RGNode) set" where
  "edges out = {(a, b). b \<in> set (out a)}"

lemma edges_iff [simp]: "(a, b) \<in> edges out \<longleftrightarrow> b \<in> set (out a)"
  by (simp add: edges_def)

definition cycle_from :: "(RGNode \<Rightarrow> RGNode list) \<Rightarrow> RGNode \<Rightarrow> bool" where
  "cycle_from out a \<longleftrightarrow> (\<exists>b. (a, b) \<in> (edges out)\<^sup>* \<and> (b, b) \<in> (edges out)\<^sup>+)"

text \<open>Black nodes: their successors are black, and no cycle goes through them.\<close>

definition black_ok :: "(RGNode \<Rightarrow> RGNode list) \<Rightarrow> 64 word \<Rightarrow> colours \<Rightarrow> bool" where
  "black_ok out black c \<longleftrightarrow> (\<forall>a. c a = black \<longrightarrow> (\<forall>b \<in> set (out a). c b = black) \<and> (a, a) \<notin> (edges out)\<^sup>+)"

lemma black_ok_closed:
  assumes "black_ok out black c" "c a = black" "(a, b) \<in> (edges out)\<^sup>*"
  shows "c b = black"
  using assms(3,2,1) by (induction rule: rtrancl_induct) (auto simp: black_ok_def)

lemma black_ok_add:
  assumes ok: "black_ok out black c" and u: "c u \<noteq> black" and succ: "\<forall>b \<in> set (out u). c b = black"
  shows "black_ok out black (c(u := black))"
proof -
  have "(u, u) \<notin> (edges out)\<^sup>+"
  proof
    assume "(u, u) \<in> (edges out)\<^sup>+"
    then obtain b where "b \<in> set (out u)" "(b, u) \<in> (edges out)\<^sup>*" by (auto dest: tranclD)
    with succ black_ok_closed [OF ok, of b u] u show False by blast
  qed
  with ok succ show ?thesis by (auto simp: black_ok_def)
qed

text \<open>What one call does, given that every gray node leads to the node of the call.\<close>

definition searched :: "(RGNode \<Rightarrow> RGNode list) \<Rightarrow> 64 word \<Rightarrow> 64 word \<Rightarrow> RGNode \<Rightarrow> colours \<Rightarrow> colours \<Rightarrow> bool \<Rightarrow> bool" where
  "searched out gray black u c c' r \<longleftrightarrow>
     (if r then cycle_from out u
      else c' u = black \<and> black_ok out black c' \<and> (\<forall>a. c a = black \<longrightarrow> c' a = black)
        \<and> (\<forall>a. c' a = gray \<longleftrightarrow> c a = gray \<and> a \<noteq> u))"

lemma cycle_from_step: "b \<in> set (out a) \<Longrightarrow> cycle_from out b \<Longrightarrow> cycle_from out a"
  unfolding cycle_from_def by (meson converse_rtrancl_into_rtrancl edges_iff)

lemma DFS_searched:
  "gray \<noteq> black \<Longrightarrow> black_ok out black c \<Longrightarrow> c u \<noteq> black \<Longrightarrow> (\<forall>a. c a = gray \<longrightarrow> (a, u) \<in> (edges out)\<^sup>+) \<Longrightarrow>
   DFSStep fuel out gray black u c = Some (c', r) \<Longrightarrow> searched out gray black u c c' r"
  "gray \<noteq> black \<Longrightarrow> black_ok out black c \<Longrightarrow> c u = gray \<Longrightarrow> (\<forall>a. c a = gray \<longrightarrow> (a, u) \<in> (edges out)\<^sup>*) \<Longrightarrow>
   set ns \<subseteq> set (out u) \<Longrightarrow> (\<forall>b \<in> set (out u) - set ns. c b = black) \<Longrightarrow>
   DFSEdges fuel out gray black u ns c = Some (c', r) \<Longrightarrow> searched out gray black u c c' r"
proof (induction fuel out gray black u c and fuel out gray black u ns c arbitrary: c' r and c' r rule: DFSStep_DFSEdges.induct)
  case (2 fuel out gray black u c)
  show ?case
  proof (cases "c u = gray")
    case True
    with 2 show ?thesis by (auto simp: searched_def cycle_from_def)
  next
    case False
    let ?c = "c(u := gray)"
    have ok: "black_ok out black ?c" using 2(2-4) by (auto simp: black_ok_def)
    have g: "\<forall>a. ?c a = gray \<longrightarrow> (a, u) \<in> (edges out)\<^sup>*" using 2(5) by (auto dest: trancl_into_rtrancl)
    have run: "DFSEdges fuel out gray black u (out u) ?c = Some (c', r)" using 2(6) False by simp
    have "searched out gray black u ?c c' r"
      by (rule 2(1) [OF False 2(2) ok _ g _ _ run]) simp_all
    with False 2(4) show ?thesis by (auto simp: searched_def split: if_splits)
  qed
next
  case (3 fuel out gray black u c)
  then have "\<forall>b \<in> set (out u). c b = black" by simp
  then have "black_ok out black (c(u := black))" using 3 by (intro black_ok_add) auto
  moreover have "c' = c(u := black)" "\<not> r" using 3(7) by simp_all
  ultimately show ?case using 3(1,3) unfolding searched_def by auto
next
  case (4 fuel out gray black u n ns c)
  show ?case
  proof (cases "c n = black")
    case True
    with 4 show ?thesis by auto
  next
    case False
    with 4(10) obtain c1 r1 where run: "DFSStep fuel out gray black n c = Some (c1, r1)" by (auto split: option.splits)
    have "\<forall>a. c a = gray \<longrightarrow> (a, n) \<in> (edges out)\<^sup>+" using 4(7,8) by (auto intro: rtrancl_into_trancl1)
    then have s: "searched out gray black n c c1 r1" using 4(1) [OF False] 4(4,5) False run by blast
    show ?thesis
    proof (cases r1)
      case True
      with s have "cycle_from out u" using 4(8) cycle_from_step [of n out u] by (simp add: searched_def)
      with True False run 4(10) show ?thesis by (simp add: searched_def)
    next
      case r1: False
      have ne: "n \<noteq> u"
      proof
        assume "n = u"
        with run 4(6) r1 show False by (cases fuel) auto
      qed
      have rest: "DFSEdges fuel out gray black u ns c1 = Some (c', r)" using False run 4(10) r1 by simp
      have "c n \<noteq> gray" using run r1 by (cases fuel) auto
      from s r1 have s1: "c1 n = black" "black_ok out black c1" "\<And>a. c a = black \<Longrightarrow> c1 a = black"
        "\<And>a. c1 a = gray \<longleftrightarrow> c a = gray" using \<open>c n \<noteq> gray\<close> by (auto simp: searched_def)
      have "searched out gray black u c1 c' r"
      proof (rule 4(2) [OF False run refl])
        show "\<forall>b \<in> set (out u) - set ns. c1 b = black" using s1(1,3) 4(9) by auto
      qed (use r1 s1 4(4,6-8) rest in simp_all)
      with s1 show ?thesis unfolding searched_def by (cases r) simp_all
    qed
  qed
qed simp

text \<open>The colours that are left: every call of the recursion takes one.\<close>

definition white :: "RGNode set \<Rightarrow> 64 word \<Rightarrow> 64 word \<Rightarrow> colours \<Rightarrow> RGNode set" where
  "white N gray black c = {a \<in> N. c a \<noteq> gray \<and> c a \<noteq> black}"

lemma DFS_total:
  "gray \<noteq> black \<Longrightarrow> finite N \<Longrightarrow> u \<in> N \<Longrightarrow> (\<forall>a \<in> N. set (out a) \<subseteq> N) \<Longrightarrow> c u \<noteq> black \<Longrightarrow> card (white N gray black c) < fuel \<Longrightarrow>
   \<exists>c' r. DFSStep fuel out gray black u c = Some (c', r) \<and> white N gray black c' \<subseteq> white N gray black c"
  "gray \<noteq> black \<Longrightarrow> finite N \<Longrightarrow> u \<in> N \<Longrightarrow> (\<forall>a \<in> N. set (out a) \<subseteq> N) \<Longrightarrow> set ns \<subseteq> N \<Longrightarrow> card (white N gray black c) < fuel \<Longrightarrow>
   \<exists>c' r. DFSEdges fuel out gray black u ns c = Some (c', r) \<and> white N gray black c' \<subseteq> white N gray black c"
proof (induction fuel out gray black u c and fuel out gray black u ns c rule: DFSStep_DFSEdges.induct)
  case (2 fuel out gray black u c)
  show ?case
  proof (cases "c u = gray")
    case False
    let ?c = "c(u := gray)"
    have sub: "white N gray black ?c = white N gray black c - {u}" "u \<in> white N gray black c"
      using 2(2,4,6) False by (auto simp: white_def)
    have "finite (white N gray black c)" using 2(3) by (simp add: white_def)
    with sub have "card (white N gray black ?c) < fuel" using 2(7) card_Diff1_less [of "white N gray black c" u] by simp
    then have "\<exists>c' r. DFSEdges fuel out gray black u (out u) ?c = Some (c', r) \<and> white N gray black c' \<subseteq> white N gray black ?c"
      using 2(4,5) by (intro 2(1) [OF False 2(2,3)]) blast+
    with sub(1) False show ?thesis by auto
  qed auto
next
  case (3 fuel out gray black u c)
  then show ?case by (auto simp: white_def)
next
  case (4 fuel out gray black u n ns c)
  show ?case
  proof (cases "c n = black")
    case True
    with 4 show ?thesis by auto
  next
    case False
    from 4(1) [OF False] 4(4-9) False obtain c1 r1 where
      c1: "DFSStep fuel out gray black n c = Some (c1, r1)" "white N gray black c1 \<subseteq> white N gray black c" by auto
    show ?thesis
    proof (cases r1)
      case True
      with c1 False show ?thesis by auto
    next
      case r1: False
      have "card (white N gray black c1) < fuel"
        using card_mono [OF _ c1(2)] 4(5,9) by (simp add: white_def)
      then have "\<exists>c' r. DFSEdges fuel out gray black u ns c1 = Some (c', r) \<and> white N gray black c' \<subseteq> white N gray black c1"
        using 4(2) [OF False c1(1)] r1 4(4-8) by auto
      with c1 r1 False show ?thesis by auto
    qed
  qed
qed simp

lemma DFS_colours:
  "DFSStep fuel out gray black u c = Some (c', r) \<Longrightarrow> c' a \<in> {c a, gray, black}"
  "DFSEdges fuel out gray black u ns c = Some (c', r) \<Longrightarrow> c' a \<in> {c a, gray, black}"
proof (induction fuel out gray black u c and fuel out gray black u ns c arbitrary: c' r and c' r rule: DFSStep_DFSEdges.induct)
  case (2 fuel out gray black u c)
  show ?case
  proof (cases "c u = gray")
    case False
    with 2(2) have "DFSEdges fuel out gray black u (out u) (c(u := gray)) = Some (c', r)" by simp
    from 2(1) [OF False this] show ?thesis by (auto split: if_splits)
  qed (use 2(2) in simp)
next
  case (4 fuel out gray black u n ns c)
  show ?case
  proof (cases "c n = black")
    case True
    with 4 show ?thesis by auto
  next
    case False
    with 4(4) obtain c1 r1 where run: "DFSStep fuel out gray black n c = Some (c1, r1)" by (auto split: option.splits)
    note c1 = 4(1) [OF False run]
    show ?thesis
    proof (cases r1)
      case True
      with run False c1 4(4) show ?thesis by auto
    next
      case r1: False
      with run False 4(4) have "DFSEdges fuel out gray black u ns c1 = Some (c', r)" by simp
      from 4(2) [OF False run refl _ this] r1 c1 show ?thesis by auto
    qed
  qed
qed auto

text \<open>
  With colours that no node has yet and fuel for every node, the search ends and says whether a cycle
  can be reached.
\<close>

lemma DFSStep_decides:
  assumes new: "gray \<noteq> black" "\<And>a. c a \<noteq> gray" "\<And>a. c a \<noteq> black"
    and N: "finite N" "u \<in> N" "\<forall>a \<in> N. set (out a) \<subseteq> N" "card N < fuel"
  shows "\<exists>c'. DFSStep fuel out gray black u c = Some (c', cycle_from out u) \<and> (\<forall>a. c' a \<in> {c a, gray, black})"
proof -
  have "white N gray black c \<subseteq> N" by (auto simp: white_def)
  then have "card (white N gray black c) < fuel" using card_mono [OF N(1), of "white N gray black c"] N(4) by simp
  with DFS_total(1) [OF new(1) N(1-3), of c fuel] new(3) obtain c' r where
    run: "DFSStep fuel out gray black u c = Some (c', r)" by auto
  have ok: "black_ok out black c" using new(3) by (simp add: black_ok_def)
  from DFS_searched(1) [OF new(1) ok new(3) _ run] new(2) have s: "searched out gray black u c c' r" by blast
  have "r = cycle_from out u"
  proof (cases r)
    case False
    with s have b: "black_ok out black c'" "c' u = black" by (simp_all add: searched_def)
    have "\<not> cycle_from out u"
    proof
      assume "cycle_from out u"
      then obtain b where ub: "(u, b) \<in> (edges out)\<^sup>*" "(b, b) \<in> (edges out)\<^sup>+" by (auto simp: cycle_from_def)
      with black_ok_closed [OF b ub(1)] b(1) show False by (auto simp: black_ok_def)
    qed
    with False show ?thesis by simp
  qed (use s in \<open>simp add: searched_def\<close>)
  with run DFS_colours(1) [OF run] show ?thesis by blast
qed

end
