(* ===== verification/Resource_Graph.thy ===== *)
theory Resource_Graph
  imports Deadlock_Search Byte_Codec
begin

text \<open>
  \<^verbatim>\<open>versioning/BRM/lbidresourcegraph.cpp\<close> with \<^verbatim>\<open>rgnode.cpp\<close>, \<^verbatim>\<open>transactionnode.cpp\<close> and \<^verbatim>\<open>resourcenode.cpp\<close>: the graph that says
  which transaction owns an LBID (edge from the LBID to it) and which LBIDs a transaction waits for (edges
  from it). A node is known by its transaction id or its LBID: \<^verbatim>\<open>txns\<close> and \<^verbatim>\<open>resources\<close> hold one node for each, and
  a node lives as long as it is in there. The callers hold one mutex, so what a call does up to its next
  sleep on a condition variable is one step.
\<close>

section \<open>State\<close>

record TransactionState =
  t_die :: bool
  t_sleeping :: bool

record LBIDResourceGraph =
  rg_out :: "RGNode \<Rightarrow> RGNode list"
  rg_in :: "RGNode \<Rightarrow> RGNode list"
  rg_colours :: colours
  rg_color :: "64 word"
  rg_txns :: "(VER_t \<times> TransactionState) list"
  rg_resources :: "LBID_t list"

definition ERR_OK :: int where "ERR_OK = 0"
definition ERR_DEADLOCK :: int where "ERR_DEADLOCK = 6"
definition ERR_KILLED :: int where "ERR_KILLED = 7"

definition rg_init :: LBIDResourceGraph where
  "rg_init = \<lparr>rg_out = \<lambda>_. [], rg_in = \<lambda>_. [], rg_colours = \<lambda>_. 0, rg_color = 0, rg_txns = [], rg_resources = []\<rparr>"

section \<open>Nodes\<close>

text \<open>\<^verbatim>\<open>a->addOutEdge(b)\<close> and \<^verbatim>\<open>b->addInEdge(a)\<close> do the same, as do \<^verbatim>\<open>a->removeOutEdge(b)\<close> and \<^verbatim>\<open>b->removeInEdge(a)\<close>.\<close>

definition rg_addEdge :: "RGNode \<Rightarrow> RGNode \<Rightarrow> LBIDResourceGraph \<Rightarrow> LBIDResourceGraph" where
  "rg_addEdge a b g = g\<lparr>rg_out := (rg_out g)(a := List.insert b (rg_out g a)),
                        rg_in := (rg_in g)(b := List.insert a (rg_in g b))\<rparr>"

definition rg_removeEdge :: "RGNode \<Rightarrow> RGNode \<Rightarrow> LBIDResourceGraph \<Rightarrow> LBIDResourceGraph" where
  "rg_removeEdge a b g = g\<lparr>rg_out := (rg_out g)(a := removeAll b (rg_out g a)),
                           rg_in := (rg_in g)(b := removeAll a (rg_in g b))\<rparr>"

text \<open>The constructor and the destructor of a node.\<close>

definition rg_newNode :: "RGNode \<Rightarrow> LBIDResourceGraph \<Rightarrow> LBIDResourceGraph" where
  "rg_newNode n g = g\<lparr>rg_out := (rg_out g)(n := []), rg_in := (rg_in g)(n := []), rg_colours := (rg_colours g)(n := 0)\<rparr>"

definition rg_deleteNode :: "RGNode \<Rightarrow> LBIDResourceGraph \<Rightarrow> LBIDResourceGraph" where
  "rg_deleteNode n g =
     (let g = fold (\<lambda>m. rg_removeEdge m n) (rg_in g n) g in fold (rg_removeEdge n) (rg_out g n) g)"

text \<open>\<^verbatim>\<open>TransactionNode::wake\<close>; the nodes behind the in edges of an LBID are transactions.\<close>

definition rg_setTxn :: "(TransactionState \<Rightarrow> TransactionState) \<Rightarrow> VER_t \<Rightarrow> LBIDResourceGraph \<Rightarrow> LBIDResourceGraph" where
  "rg_setTxn f t g = g\<lparr>rg_txns := map (\<lambda>(k, st). if k = t then (k, f st) else (k, st)) (rg_txns g)\<rparr>"

fun rg_wake :: "RGNode \<Rightarrow> LBIDResourceGraph \<Rightarrow> LBIDResourceGraph" where
  "rg_wake (TransactionNode t) g = rg_setTxn (\<lambda>st. st\<lparr>t_sleeping := False\<rparr>) t g"
| "rg_wake (ResourceNode r) g = g"

definition rg_wakeAndDetach :: "LBID_t \<Rightarrow> LBIDResourceGraph \<Rightarrow> LBIDResourceGraph" where
  "rg_wakeAndDetach r g =
     (let g = fold (\<lambda>n g. rg_removeEdge n (ResourceNode r) (rg_wake n g)) (rg_in g (ResourceNode r)) g
      in g\<lparr>rg_in := (rg_in g)(ResourceNode r := [])\<rparr>)"

section \<open>The graph\<close>

text \<open>\<^verbatim>\<open>connectResources\<close>: the requested LBIDs that have no node get one, the others are the intersection.\<close>

fun rg_nodesFor :: "LBID_t list \<Rightarrow> LBIDResourceGraph \<Rightarrow> LBIDResourceGraph \<times> LBID_t list \<times> LBID_t list" where
  "rg_nodesFor [] g = (g, [], [])"
| "rg_nodesFor (i # rest) g =
     (if i \<notin> set (rg_resources g)
      then let g = rg_newNode (ResourceNode i) g;
               g = g\<lparr>rg_resources := i # rg_resources g\<rparr>;
               (g, reserveList, intersection) = rg_nodesFor rest g
           in (g, i # reserveList, intersection)
      else let (g, reserveList, intersection) = rg_nodesFor rest g in (g, reserveList, i # intersection))"

definition rg_connectResources :: "LBID_t \<Rightarrow> LBID_t \<Rightarrow> VER_t \<Rightarrow> LBIDResourceGraph \<Rightarrow> LBIDResourceGraph" where
  "rg_connectResources start end' t g =
     (let (g, reserveList, intersection) = rg_nodesFor [start..end'] g;
          g = fold (\<lambda>i g. if ResourceNode i \<notin> set (rg_in g (TransactionNode t))
                          then rg_addEdge (TransactionNode t) (ResourceNode i) g else g) intersection g
      in fold (\<lambda>i g. rg_addEdge (ResourceNode i) (TransactionNode t) g) reserveList g)"

definition rg_checkDeadlock :: "VER_t \<Rightarrow> LBIDResourceGraph \<Rightarrow> (LBIDResourceGraph, bool) outcome" where
  "rg_checkDeadlock t g =
     (let gray = rg_color g + 1; black = gray + 1; g = g\<lparr>rg_color := black\<rparr>;
          fuel = length (rg_txns g) + length (rg_resources g) + 1
      in case DFSStep fuel (rg_out g) gray black (TransactionNode t) (rg_colours g) of
           None \<Rightarrow> (g, Inl Undefined)
         | Some (c, r) \<Rightarrow> (g\<lparr>rg_colours := c\<rparr>, Inr r))"

text \<open>\<^verbatim>\<open>reserveRange\<close> up to its first sleep, and from there to the next one or to its end.\<close>

definition rg_wait :: "VER_t \<Rightarrow> LBIDResourceGraph \<Rightarrow> (LBIDResourceGraph, int waiting) outcome" where
  "rg_wait t g =
     (if rg_out g (TransactionNode t) = [] then (g, Inr (Returns ERR_OK))
      else and_then (rg_checkDeadlock t g) (\<lambda>dead g.
        if dead then (g, Inr (Returns ERR_DEADLOCK))
        else (rg_setTxn (\<lambda>st. st\<lparr>t_sleeping := True\<rparr>) t g, Inr Waits)))"

definition rg_reserveRange :: "LBID_t \<Rightarrow> LBID_t \<Rightarrow> VER_t \<Rightarrow> LBIDResourceGraph \<Rightarrow> (LBIDResourceGraph, int waiting) outcome" where
  "rg_reserveRange start end' t g =
     (let g = (case map_of (rg_txns g) t of
                 None \<Rightarrow> let g = rg_newNode (TransactionNode t) g
                         in g\<lparr>rg_txns := om_put t \<lparr>t_die = False, t_sleeping = False\<rparr> (rg_txns g)\<rparr>
               | Some _ \<Rightarrow> g)
      in rg_wait t (rg_connectResources start end' t g))"

definition rg_resume :: "LBID_t \<Rightarrow> LBID_t \<Rightarrow> VER_t \<Rightarrow> LBIDResourceGraph \<Rightarrow> (LBIDResourceGraph, int waiting) outcome" where
  "rg_resume start end' t g =
     (case map_of (rg_txns g) t of
        None \<Rightarrow> (g, Inl Undefined)
      | Some st \<Rightarrow>
          if t_die st
          then (rg_deleteNode (TransactionNode t) (g\<lparr>rg_txns := om_del t (rg_txns g)\<rparr>), Inr (Returns ERR_KILLED))
          else rg_wait t (rg_connectResources start end' t g))"

definition rg_freeResource :: "VER_t \<Rightarrow> RGNode \<Rightarrow> LBIDResourceGraph \<Rightarrow> LBIDResourceGraph" where
  "rg_freeResource t n g =
     (case n of
        ResourceNode r \<Rightarrow>
          let g = rg_wakeAndDetach r g;
              g = rg_removeEdge n (TransactionNode t) g;
              g = g\<lparr>rg_resources := removeAll r (rg_resources g)\<rparr>
          in rg_deleteNode n g
      | TransactionNode _ \<Rightarrow> g)"

definition rg_releaseResources :: "VER_t \<Rightarrow> LBIDResourceGraph \<Rightarrow> LBIDResourceGraph" where
  "rg_releaseResources t g =
     (case map_of (rg_txns g) t of
        None \<Rightarrow> g
      | Some _ \<Rightarrow>
          let g = fold (rg_freeResource t) (rg_in g (TransactionNode t)) g;
              g = fold (rg_removeEdge (TransactionNode t)) (rg_out g (TransactionNode t)) g
          in (case map_of (rg_txns g) t of
                Some st \<Rightarrow>
                  if t_sleeping st
                  then rg_wake (TransactionNode t) (rg_setTxn (\<lambda>st. st\<lparr>t_die := True\<rparr>) t g)
                  else rg_deleteNode (TransactionNode t) (g\<lparr>rg_txns := om_del t (rg_txns g)\<rparr>)
              | None \<Rightarrow> g))"

text \<open>
  \<^verbatim>\<open>releaseResource\<close> reads \<^verbatim>\<open>*sit\<close> again after \<^verbatim>\<open>erase\<close> has made the iterator invalid.
\<close>

definition rg_releaseResource :: "LBID_t \<Rightarrow> LBIDResourceGraph \<Rightarrow> (LBIDResourceGraph, unit) outcome" where
  "rg_releaseResource lbid g = (if lbid \<in> set (rg_resources g) then (g, Inl Undefined) else (g, Inr ()))"

section \<open>Edges\<close>

abbreviation rg_edges :: "LBIDResourceGraph \<Rightarrow> (RGNode \<times> RGNode) set" where
  "rg_edges g \<equiv> edges (rg_out g)"

definition linked :: "LBIDResourceGraph \<Rightarrow> bool" where
  "linked g \<longleftrightarrow> (\<forall>a b. a \<in> set (rg_in g b) \<longleftrightarrow> (a, b) \<in> rg_edges g)"

definition touching :: "RGNode \<Rightarrow> (RGNode \<times> RGNode) set" where
  "touching n = {(a, b). a = n \<or> b = n}"

text \<open>A change of the edges only.\<close>

definition rewired :: "(RGNode \<times> RGNode) set \<Rightarrow> LBIDResourceGraph \<Rightarrow> LBIDResourceGraph \<Rightarrow> bool" where
  "rewired E g g' \<longleftrightarrow> rg_edges g' = E \<and> linked g' \<and> (\<exists>out' in'. g' = g\<lparr>rg_out := out', rg_in := in'\<rparr>)"

lemma rewired_fields:
  assumes "rewired E g g'"
  shows "rg_edges g' = E" "linked g'" "rg_colours g' = rg_colours g" "rg_color g' = rg_color g"
    "rg_txns g' = rg_txns g" "rg_resources g' = rg_resources g"
  using assms by (auto simp: rewired_def)

lemma rewiredI:
  assumes "edges out' = E" "\<And>a b. a \<in> set (in' b) \<longleftrightarrow> b \<in> set (out' a)"
  shows "rewired E g (g\<lparr>rg_out := out', rg_in := in'\<rparr>)"
  unfolding rewired_def
proof (intro conjI exI)
  show "linked (g\<lparr>rg_out := out', rg_in := in'\<rparr>)" using assms(2) by (simp add: linked_def)
qed (use assms(1) in simp_all)

lemma rewired_refl: "linked g \<Longrightarrow> rewired (rg_edges g) g g"
  using rewiredI [of "rg_out g" "rg_edges g" "rg_in g" g] by (simp add: linked_def)

lemma rewired_trans:
  assumes "rewired E g g'" "rewired E' g' g''"
  shows "rewired E' g g''"
proof -
  obtain out1 in1 out2 in2 where "g' = g\<lparr>rg_out := out1, rg_in := in1\<rparr>" "g'' = g'\<lparr>rg_out := out2, rg_in := in2\<rparr>"
    using assms by (auto simp: rewired_def)
  then have "g'' = g\<lparr>rg_out := out2, rg_in := in2\<rparr>" by simp
  then show ?thesis using assms(2) unfolding rewired_def by blast
qed

lemma rg_addEdge_rewired:
  assumes "linked g"
  shows "rewired (insert (a, b) (rg_edges g)) g (rg_addEdge a b g)"
  unfolding rg_addEdge_def
  by (rule rewiredI) (use assms in \<open>auto simp: edges_def linked_def split: if_splits\<close>)

lemma rg_removeEdge_rewired:
  assumes "linked g"
  shows "rewired (rg_edges g - {(a, b)}) g (rg_removeEdge a b g)"
  unfolding rg_removeEdge_def
  by (rule rewiredI) (use assms in \<open>auto simp: edges_def linked_def split: if_splits\<close>)

lemma fold_addEdge:
  "linked g \<Longrightarrow> rewired (rg_edges g \<union> set es) g (fold (\<lambda>(a, b). rg_addEdge a b) es g)"
proof (induction es arbitrary: g)
  case (Cons e es)
  obtain a b where e: "e = (a, b)" by (cases e)
  note A = rg_addEdge_rewired [OF Cons.prems, of a b]
  from rewired_trans [OF A Cons.IH [OF rewired_fields(2) [OF A]]] show ?case by (simp add: e rewired_fields(1) [OF A])
qed (simp add: rewired_refl)

lemma fold_removeEdge:
  "linked g \<Longrightarrow> rewired (rg_edges g - set es) g (fold (\<lambda>(a, b). rg_removeEdge a b) es g)"
proof (induction es arbitrary: g)
  case (Cons e es)
  obtain a b where e: "e = (a, b)" by (cases e)
  note A = rg_removeEdge_rewired [OF Cons.prems, of a b]
  have "rg_edges g - {(a, b)} - set es = rg_edges g - set (e # es)" by (auto simp: e)
  with rewired_trans [OF A Cons.IH [OF rewired_fields(2) [OF A]]] show ?case by (simp add: e rewired_fields(1) [OF A])
qed (simp add: rewired_refl)

lemma fold_removeEdge_map:
  "fold (rg_removeEdge n) ms g = fold (\<lambda>(a, b). rg_removeEdge a b) (map (Pair n) ms) g"
  "fold (\<lambda>m. rg_removeEdge m n) ms g = fold (\<lambda>(a, b). rg_removeEdge a b) (map (\<lambda>m. (m, n)) ms) g"
  by (simp_all add: fold_map comp_def)

lemma rg_deleteNode_rewired:
  assumes "linked g"
  shows "rewired (rg_edges g - touching n) g (rg_deleteNode n g)"
proof -
  define h where "h = fold (\<lambda>m. rg_removeEdge m n) (rg_in g n) g"
  have 1: "rewired (rg_edges g - set (map (\<lambda>m. (m, n)) (rg_in g n))) g h"
    unfolding h_def fold_removeEdge_map by (rule fold_removeEdge [OF assms])
  note h = rewired_fields [OF 1]
  have 2: "rewired (rg_edges h - set (map (Pair n) (rg_out h n))) h (rg_deleteNode n g)"
    unfolding rg_deleteNode_def h_def [symmetric] Let_def fold_removeEdge_map(1) by (rule fold_removeEdge [OF h(2)])
  have "rg_edges h - set (map (Pair n) (rg_out h n)) = rg_edges h - {(a, b). a = n}" by (auto simp: edges_def)
  also have "\<dots> = rg_edges g - touching n"
    using assms by (auto simp: h(1) touching_def linked_def)
  finally show ?thesis using rewired_trans [OF 1 2] by simp
qed

section \<open>Well-formed graphs\<close>

text \<open>
  The edges \<open>E\<close> over the LBIDs \<open>R\<close> and transactions \<open>T\<close>: every LBID has exactly one owner, and a transaction does
  not wait for an LBID it owns.
\<close>

definition graph_ok :: "(RGNode \<times> RGNode) set \<Rightarrow> LBID_t set \<Rightarrow> VER_t set \<Rightarrow> bool" where
  "graph_ok E R T \<longleftrightarrow>
     (\<forall>a b. (a, b) \<in> E \<longrightarrow> (\<exists>t r. t \<in> T \<and> r \<in> R \<and> (a = TransactionNode t \<and> b = ResourceNode r \<or> a = ResourceNode r \<and> b = TransactionNode t)))
   \<and> (\<forall>r. r \<in> R \<longrightarrow> (\<exists>t. (ResourceNode r, TransactionNode t) \<in> E))
   \<and> (\<forall>r t t'. (ResourceNode r, TransactionNode t) \<in> E \<longrightarrow> (ResourceNode r, TransactionNode t') \<in> E \<longrightarrow> t = t')
   \<and> (\<forall>t r. (TransactionNode t, ResourceNode r) \<in> E \<longrightarrow> (ResourceNode r, TransactionNode t) \<notin> E)"

definition rg_wf :: "LBIDResourceGraph \<Rightarrow> bool" where
  "rg_wf g \<longleftrightarrow> linked g \<and> om_ok (rg_txns g) \<and> graph_ok (rg_edges g) (set (rg_resources g)) (fst ` set (rg_txns g))
     \<and> (\<forall>n. rg_colours g n \<le> rg_color g)"

lemma graph_ok_edge:
  assumes "graph_ok E R T"
  shows "(TransactionNode t, b) \<in> E \<Longrightarrow> \<exists>r. b = ResourceNode r \<and> r \<in> R \<and> t \<in> T"
    "(ResourceNode r, b) \<in> E \<Longrightarrow> \<exists>t. b = TransactionNode t \<and> r \<in> R \<and> t \<in> T"
    "(a, TransactionNode t) \<in> E \<Longrightarrow> \<exists>r. a = ResourceNode r \<and> r \<in> R \<and> t \<in> T"
    "(a, ResourceNode r) \<in> E \<Longrightarrow> \<exists>t. a = TransactionNode t \<and> r \<in> R \<and> t \<in> T"
proof -
  have e: "\<exists>t r. t \<in> T \<and> r \<in> R \<and> (a = TransactionNode t \<and> b = ResourceNode r \<or> a = ResourceNode r \<and> b = TransactionNode t)"
    if "(a, b) \<in> E" for a b using assms that unfolding graph_ok_def by blast
  show "(TransactionNode t, b) \<in> E \<Longrightarrow> \<exists>r. b = ResourceNode r \<and> r \<in> R \<and> t \<in> T"
    "(ResourceNode r, b) \<in> E \<Longrightarrow> \<exists>t. b = TransactionNode t \<and> r \<in> R \<and> t \<in> T"
    "(a, TransactionNode t) \<in> E \<Longrightarrow> \<exists>r. a = ResourceNode r \<and> r \<in> R \<and> t \<in> T"
    "(a, ResourceNode r) \<in> E \<Longrightarrow> \<exists>t. a = TransactionNode t \<and> r \<in> R \<and> t \<in> T"
    by (auto dest: e)
qed

lemma graph_ok_mono_txns: "graph_ok E R T \<Longrightarrow> T \<subseteq> T' \<Longrightarrow> graph_ok E R T'"
  unfolding graph_ok_def by (intro conjI allI impI) (meson subsetD)+

lemma graph_ok_connect:
  assumes ok: "graph_ok E R T" and t: "t \<in> T"
  shows "graph_ok (E \<union> (\<lambda>i. (TransactionNode t, ResourceNode i)) ` {i \<in> I \<inter> R. (ResourceNode i, TransactionNode t) \<notin> E}
      \<union> (\<lambda>i. (ResourceNode i, TransactionNode t)) ` (I - R)) (R \<union> I) T"
proof -
  have no: "(ResourceNode i, b) \<notin> E" "(b, ResourceNode i) \<notin> E" if "i \<notin> R" for i b
    using graph_ok_edge(2,4) [OF ok] that by blast+
  have p1: "\<exists>t r. t \<in> T \<and> r \<in> R \<and> (a = TransactionNode t \<and> b = ResourceNode r \<or> a = ResourceNode r \<and> b = TransactionNode t)"
    if "(a, b) \<in> E" for a b using ok that unfolding graph_ok_def by blast
  have p2: "\<exists>t. (ResourceNode r, TransactionNode t) \<in> E" if "r \<in> R" for r using ok that unfolding graph_ok_def by blast
  have p3: "t = t'" if "(ResourceNode r, TransactionNode t) \<in> E" "(ResourceNode r, TransactionNode t') \<in> E" for r t t'
    using ok that unfolding graph_ok_def by blast
  have p4: "(ResourceNode r, TransactionNode t) \<notin> E" if "(TransactionNode t, ResourceNode r) \<in> E" for r t
    using ok that unfolding graph_ok_def by blast
  show ?thesis
    unfolding graph_ok_def
  proof (intro conjI allI impI, goal_cases)
    case (1 a b)
    with p1 [of a b] t show ?case by blast
  next
    case (2 r)
    with p2 [of r] show ?case by (cases "r \<in> R") blast+
  next
    case (3 r u u')
    with no(1) [of r] p3 [of r u u'] show ?case by blast
  next
    case (4 u r)
    with no(2) [of r] p4 [of u r] show ?case by blast
  qed
qed

text \<open>Nodes without edges: creating them changes the colour only.\<close>

lemma rg_nodesFor_spec:
  assumes "\<And>i. i \<in> set ls \<Longrightarrow> i \<notin> set (rg_resources g) \<Longrightarrow> rg_out g (ResourceNode i) = [] \<and> rg_in g (ResourceNode i) = []"
    and "distinct ls" "\<forall>n. rg_colours g n \<le> rg_color g"
  shows "\<exists>c R rl il. rg_nodesFor ls g = (g\<lparr>rg_colours := c, rg_resources := R\<rparr>, rl, il)
    \<and> set rl = set ls - set (rg_resources g) \<and> set il = set ls \<inter> set (rg_resources g)
    \<and> set R = set (rg_resources g) \<union> set ls \<and> (\<forall>n. c n \<le> rg_color g)"
  using assms
proof (induction ls arbitrary: g)
  case Nil
  then show ?case by (intro exI [of _ "rg_colours g"] exI [of _ "rg_resources g"] exI [of _ "[]"]) simp
next
  case (Cons i ls)
  show ?case
  proof (cases "i \<in> set (rg_resources g)")
    case True
    from Cons.IH [of g] Cons.prems obtain c R rl il where
      "rg_nodesFor ls g = (g\<lparr>rg_colours := c, rg_resources := R\<rparr>, rl, il)" "set rl = set ls - set (rg_resources g)"
      "set il = set ls \<inter> set (rg_resources g)" "set R = set (rg_resources g) \<union> set ls" "\<forall>n. c n \<le> rg_color g" by auto
    with True show ?thesis by (intro exI [of _ c] exI [of _ R] exI [of _ rl] exI [of _ "i # il"]) auto
  next
    case False
    let ?g = "g\<lparr>rg_colours := (rg_colours g)(ResourceNode i := 0), rg_resources := i # rg_resources g\<rparr>"
    have e: "rg_out g (ResourceNode i) = []" "rg_in g (ResourceNode i) = []" using Cons.prems(1) [of i] False by simp_all
    have n: "(rg_newNode (ResourceNode i) g)\<lparr>rg_resources := i # rg_resources g\<rparr> = ?g"
      by (simp add: rg_newNode_def fun_upd_idem e)
    have "\<exists>c R rl il. rg_nodesFor ls ?g = (?g\<lparr>rg_colours := c, rg_resources := R\<rparr>, rl, il)
      \<and> set rl = set ls - set (rg_resources ?g) \<and> set il = set ls \<inter> set (rg_resources ?g)
      \<and> set R = set (rg_resources ?g) \<union> set ls \<and> (\<forall>n. c n \<le> rg_color ?g)"
      using Cons.prems by (intro Cons.IH) auto
    then obtain c R rl il where
      "rg_nodesFor ls ?g = (g\<lparr>rg_colours := c, rg_resources := R\<rparr>, rl, il)" "set rl = set ls - insert i (set (rg_resources g))"
      "set il = set ls \<inter> insert i (set (rg_resources g))" "set R = insert i (set (rg_resources g)) \<union> set ls" "\<forall>n. c n \<le> rg_color g" by auto
    with False n Cons.prems(2) show ?thesis
      by (intro exI [of _ c] exI [of _ R] exI [of _ "i # rl"] exI [of _ il]) (auto simp: rg_newNode_def fun_upd_idem e)
  qed
qed

lemma fold_wait_edges:
  "fold (\<lambda>i g. if ResourceNode i \<notin> set (rg_in g (TransactionNode t))
               then rg_addEdge (TransactionNode t) (ResourceNode i) g else g) il g
   = fold (\<lambda>(a, b). rg_addEdge a b)
       (map (\<lambda>i. (TransactionNode t, ResourceNode i)) (filter (\<lambda>i. ResourceNode i \<notin> set (rg_in g (TransactionNode t))) il)) g"
proof (induction il arbitrary: g)
  case (Cons i il)
  have "rg_in (rg_addEdge (TransactionNode t) (ResourceNode i) g) (TransactionNode t) = rg_in g (TransactionNode t)"
    by (simp add: rg_addEdge_def)
  then show ?case by (simp add: Cons.IH)
qed simp

lemma rg_wf_noedge:
  assumes "rg_wf g" "i \<notin> set (rg_resources g)"
  shows "rg_out g (ResourceNode i) = []" "rg_in g (ResourceNode i) = []"
proof -
  have ok: "graph_ok (rg_edges g) (set (rg_resources g)) (fst ` set (rg_txns g))" and l: "linked g"
    using assms(1) by (simp_all add: rg_wf_def)
  have "b \<notin> set (rg_out g (ResourceNode i))" for b using graph_ok_edge(2) [OF ok, of i b] assms(2) by auto
  then show "rg_out g (ResourceNode i) = []" by (cases "rg_out g (ResourceNode i)") auto
  have "b \<notin> set (rg_in g (ResourceNode i))" for b using graph_ok_edge(4) [OF ok, of b i] assms(2) l by (auto simp: linked_def)
  then show "rg_in g (ResourceNode i) = []" by (cases "rg_in g (ResourceNode i)") auto
qed

text \<open>\<^verbatim>\<open>connectResources\<close>: LBIDs without an owner are taken, the others of another owner are waited for.\<close>

lemma rg_connectResources_spec:
  fixes start end' :: LBID_t
  assumes wf: "rg_wf g" and t: "t \<in> fst ` set (rg_txns g)"
  defines "h \<equiv> rg_connectResources start end' t g"
  shows "rg_wf h" "rg_txns h = rg_txns g" "rg_color h = rg_color g" "set (rg_resources h) = set (rg_resources g) \<union> {start..end'}"
    "rg_edges h = rg_edges g \<union> (\<lambda>i. (TransactionNode t, ResourceNode i)) ` {i \<in> {start..end'} \<inter> set (rg_resources g). (ResourceNode i, TransactionNode t) \<notin> rg_edges g}
      \<union> (\<lambda>i. (ResourceNode i, TransactionNode t)) ` ({start..end'} - set (rg_resources g))"
proof -
  have l: "linked g" and ok: "graph_ok (rg_edges g) (set (rg_resources g)) (fst ` set (rg_txns g))"
    and om: "om_ok (rg_txns g)" and col: "\<forall>n. rg_colours g n \<le> rg_color g" using wf by (simp_all add: rg_wf_def)
  obtain c R rl il where n: "rg_nodesFor [start..end'] g = (g\<lparr>rg_colours := c, rg_resources := R\<rparr>, rl, il)"
      "set rl = set [start..end'] - set (rg_resources g)" "set il = set [start..end'] \<inter> set (rg_resources g)"
      "set R = set (rg_resources g) \<union> set [start..end']" "\<forall>n. c n \<le> rg_color g"
    using rg_nodesFor_spec [of "[start..end']" g] rg_wf_noedge [OF wf] col by auto
  let ?g = "g\<lparr>rg_colours := c, rg_resources := R\<rparr>"
  let ?w = "map (\<lambda>i. (TransactionNode t, ResourceNode i)) (filter (\<lambda>i. ResourceNode i \<notin> set (rg_in ?g (TransactionNode t))) il)"
  let ?o = "map (\<lambda>i. (ResourceNode i, TransactionNode t)) rl"
  have h: "h = fold (\<lambda>(a, b). rg_addEdge a b) (?w @ ?o) ?g"
    unfolding h_def rg_connectResources_def n(1) Let_def prod.case fold_wait_edges by (simp add: fold_map comp_def)
  have "linked ?g" using l by (simp add: linked_def)
  from fold_addEdge [OF this, of "?w @ ?o"] have F: "rewired (rg_edges ?g \<union> set (?w @ ?o)) ?g h" unfolding h .
  note f = rewired_fields [OF F]
  show "rg_txns h = rg_txns g" "rg_color h = rg_color g" "set (rg_resources h) = set (rg_resources g) \<union> {start..end'}"
    using f n(4) by simp_all
  have "set ?w = (\<lambda>i. (TransactionNode t, ResourceNode i)) ` {i \<in> {start..end'} \<inter> set (rg_resources g). (ResourceNode i, TransactionNode t) \<notin> rg_edges g}"
    using n(3) l by (auto simp: linked_def)
  moreover have "set ?o = (\<lambda>i. (ResourceNode i, TransactionNode t)) ` ({start..end'} - set (rg_resources g))" using n(2) by simp
  ultimately show E: "rg_edges h = rg_edges g \<union> (\<lambda>i. (TransactionNode t, ResourceNode i)) ` {i \<in> {start..end'} \<inter> set (rg_resources g). (ResourceNode i, TransactionNode t) \<notin> rg_edges g}
      \<union> (\<lambda>i. (ResourceNode i, TransactionNode t)) ` ({start..end'} - set (rg_resources g))"
    using f(1) by (simp add: Un_assoc)
  show "rg_wf h"
    unfolding rg_wf_def E using f n(4,5) om graph_ok_connect [OF ok t, of "{start..end'}"] by simp
qed

section \<open>Release\<close>

definition awaken :: "VER_t set \<Rightarrow> (VER_t \<times> TransactionState) list \<Rightarrow> (VER_t \<times> TransactionState) list" where
  "awaken S m = map (\<lambda>(k, st). if k \<in> S then (k, st\<lparr>t_sleeping := False\<rparr>) else (k, st)) m"

lemma awaken_simps [simp]: "awaken {} m = m" "awaken S (awaken S' m) = awaken (S' \<union> S) m" "map fst (awaken S m) = map fst m"
  by (induction m) (auto simp: awaken_def)

lemma map_of_awaken: "map_of (awaken S m) t = map_option (\<lambda>st. if t \<in> S then st\<lparr>t_sleeping := False\<rparr> else st) (map_of m t)"
  by (induction m) (auto simp: awaken_def)

text \<open>A change of the edges and of who sleeps.\<close>

definition released :: "(RGNode \<times> RGNode) set \<Rightarrow> VER_t set \<Rightarrow> LBIDResourceGraph \<Rightarrow> LBIDResourceGraph \<Rightarrow> bool" where
  "released E S g g' \<longleftrightarrow> rewired E (g\<lparr>rg_txns := awaken S (rg_txns g)\<rparr>) g'"

lemma released_fields:
  assumes "released E S g g'"
  shows "rg_edges g' = E" "linked g'" "rg_colours g' = rg_colours g" "rg_color g' = rg_color g"
    "rg_txns g' = awaken S (rg_txns g)" "rg_resources g' = rg_resources g"
  using rewired_fields [OF assms [unfolded released_def]] by simp_all

lemma released_trans:
  assumes "released E S g g'" "released E' S' g' g''"
  shows "released E' (S \<union> S') g g''"
proof -
  obtain out1 in1 where g': "g' = g\<lparr>rg_txns := awaken S (rg_txns g), rg_out := out1, rg_in := in1\<rparr>"
    using assms(1) by (auto simp: released_def rewired_def)
  obtain out2 in2 where g'': "g'' = g'\<lparr>rg_txns := awaken S' (rg_txns g'), rg_out := out2, rg_in := in2\<rparr>"
    using assms(2) by (auto simp: released_def rewired_def)
  have "g'' = (g\<lparr>rg_txns := awaken (S \<union> S') (rg_txns g)\<rparr>)\<lparr>rg_out := out2, rg_in := in2\<rparr>" unfolding g'' g' by simp
  then show ?thesis using assms(2) unfolding released_def rewired_def by blast
qed

lemma released_rewired: "released E S g g' \<Longrightarrow> rewired E' g' g'' \<Longrightarrow> released E' S g g''"
  unfolding released_def by (rule rewired_trans)

lemma wake_detach_released:
  assumes "linked g" "\<forall>n \<in> set ns. \<exists>w. n = TransactionNode w"
  shows "released (rg_edges g - (\<lambda>n. (n, m)) ` set ns) {w. TransactionNode w \<in> set ns} g
    (fold (\<lambda>n g. rg_removeEdge n m (rg_wake n g)) ns g)"
  using assms
proof (induction ns arbitrary: g)
  case Nil
  then show ?case using rewired_refl by (simp add: released_def)
next
  case (Cons n ns)
  obtain w where n: "n = TransactionNode w" using Cons.prems(2) by auto
  let ?h = "g\<lparr>rg_txns := awaken {w} (rg_txns g)\<rparr>"
  have w: "rg_wake n g = ?h" by (auto simp: n rg_setTxn_def awaken_def intro!: arg_cong [where f = "\<lambda>x. g\<lparr>rg_txns := x\<rparr>"])
  have "linked ?h" using Cons.prems(1) by (simp add: linked_def)
  from rg_removeEdge_rewired [OF this, of n m]
  have A: "released (rg_edges g - {(n, m)}) {w} g (rg_removeEdge n m (rg_wake n g))" by (simp add: released_def w)
  note a = released_fields [OF A]
  have "released (rg_edges g - {(n, m)} - (\<lambda>n. (n, m)) ` set ns) {w. TransactionNode w \<in> set ns} (rg_removeEdge n m (rg_wake n g))
      (fold (\<lambda>n g. rg_removeEdge n m (rg_wake n g)) ns (rg_removeEdge n m (rg_wake n g)))"
    using Cons.IH [OF a(2)] Cons.prems(2) a(1) by simp
  note R = released_trans [OF A this]
  have "rg_edges g - {(n, m)} - (\<lambda>n. (n, m)) ` set ns = rg_edges g - (\<lambda>n. (n, m)) ` set (n # ns)" by auto
  moreover have "{w} \<union> {w. TransactionNode w \<in> set ns} = {w. TransactionNode w \<in> set (n # ns)}" by (auto simp: n)
  ultimately show ?case using R by simp
qed

lemma rewired_resources:
  assumes "rewired E g g'"
  shows "rewired E (g\<lparr>rg_resources := R\<rparr>) (g'\<lparr>rg_resources := R\<rparr>)"
proof -
  obtain out' in' where g': "g' = g\<lparr>rg_out := out', rg_in := in'\<rparr>" "edges out' = E" "\<And>a b. a \<in> set (in' b) \<longleftrightarrow> b \<in> set (out' a)"
    using assms by (auto simp: rewired_def linked_def)
  have "g'\<lparr>rg_resources := R\<rparr> = (g\<lparr>rg_resources := R\<rparr>)\<lparr>rg_out := out', rg_in := in'\<rparr>" by (cases g) (simp add: g'(1))
  with rewiredI [OF g'(2,3), of "g\<lparr>rg_resources := R\<rparr>"] show ?thesis by simp
qed

lemma released_resources:
  assumes "released E S g g'"
  shows "released E S (g\<lparr>rg_resources := R\<rparr>) (g'\<lparr>rg_resources := R\<rparr>)"
proof -
  have "g\<lparr>rg_txns := m, rg_resources := R\<rparr> = g\<lparr>rg_resources := R, rg_txns := m\<rparr>" for m by (cases g) simp
  with rewired_resources [OF assms [unfolded released_def], of R] show ?thesis by (simp add: released_def)
qed

lemma rg_freeResource_spec:
  assumes l: "linked g" and bip: "\<forall>n. (n, ResourceNode r) \<in> rg_edges g \<longrightarrow> (\<exists>w. n = TransactionNode w)"
  shows "released (rg_edges g - touching (ResourceNode r)) {w. (TransactionNode w, ResourceNode r) \<in> rg_edges g}
    (g\<lparr>rg_resources := removeAll r (rg_resources g)\<rparr>) (rg_freeResource t (ResourceNode r) g)"
proof -
  define g1 where "g1 = fold (\<lambda>n g. rg_removeEdge n (ResourceNode r) (rg_wake n g)) (rg_in g (ResourceNode r)) g"
  have i: "set (rg_in g (ResourceNode r)) = {n. (n, ResourceNode r) \<in> rg_edges g}" using l by (auto simp: linked_def)
  have 1: "released (rg_edges g - (\<lambda>n. (n, ResourceNode r)) ` set (rg_in g (ResourceNode r))) {w. (TransactionNode w, ResourceNode r) \<in> rg_edges g} g g1"
    using wake_detach_released [OF l, of "rg_in g (ResourceNode r)" "ResourceNode r"] bip by (simp add: i g1_def)
  note f1 = released_fields [OF 1]
  have "a \<notin> set (rg_in g1 (ResourceNode r))" for a using f1(1,2) by (auto simp: linked_def i)
  then have "rg_in g1 (ResourceNode r) = []" by (cases "rg_in g1 (ResourceNode r)") auto
  then have w: "rg_wakeAndDetach r g = g1" by (simp add: rg_wakeAndDetach_def g1_def [symmetric] Let_def fun_upd_idem)
  define g2 where "g2 = rg_removeEdge (ResourceNode r) (TransactionNode t) g1"
  have 2: "rewired (rg_edges g1 - {(ResourceNode r, TransactionNode t)}) g1 g2" unfolding g2_def by (rule rg_removeEdge_rewired [OF f1(2)])
  let ?R = "removeAll r (rg_resources g)"
  have 3: "rewired (rg_edges g2 - touching (ResourceNode r)) (g2\<lparr>rg_resources := ?R\<rparr>) (rg_deleteNode (ResourceNode r) (g2\<lparr>rg_resources := ?R\<rparr>))"
    using rg_deleteNode_rewired [of "g2\<lparr>rg_resources := ?R\<rparr>" "ResourceNode r"] rewired_fields(2) [OF 2] by (simp add: linked_def)
  have E: "rg_edges g2 - touching (ResourceNode r) = rg_edges g - touching (ResourceNode r)"
    by (auto simp: rewired_fields(1) [OF 2] f1(1) touching_def)
  have r2: "rg_resources g2 = rg_resources g" using rewired_fields(6) [OF 2] f1(6) by simp
  have "rg_freeResource t (ResourceNode r) g = rg_deleteNode (ResourceNode r) (g2\<lparr>rg_resources := ?R\<rparr>)"
    by (simp add: rg_freeResource_def w g2_def [symmetric] Let_def r2)
  moreover have "released (rg_edges g2) {w. (TransactionNode w, ResourceNode r) \<in> rg_edges g}
      (g\<lparr>rg_resources := ?R\<rparr>) (g2\<lparr>rg_resources := ?R\<rparr>)"
    using released_resources [OF released_rewired [OF 1 2], of ?R] rewired_fields(1) [OF 2] by simp
  ultimately show ?thesis using released_rewired [OF _ 3] by (simp add: E)
qed

lemma fold_freeResource_spec:
  assumes "linked g" "\<forall>n r. (n, ResourceNode r) \<in> rg_edges g \<longrightarrow> (\<exists>w. n = TransactionNode w)" "\<forall>n \<in> set ns. \<exists>r. n = ResourceNode r"
  shows "released (rg_edges g - \<Union> (touching ` set ns)) {w. \<exists>n \<in> set ns. (TransactionNode w, n) \<in> rg_edges g}
    (g\<lparr>rg_resources := filter (\<lambda>r. ResourceNode r \<notin> set ns) (rg_resources g)\<rparr>) (fold (rg_freeResource t) ns g)"
  using assms
proof (induction ns arbitrary: g)
  case Nil
  then show ?case using rewired_refl by (simp add: released_def)
next
  case (Cons n ns)
  obtain r where n: "n = ResourceNode r" using Cons.prems(3) by auto
  define h where "h = rg_freeResource t n g"
  let ?S = "{w. (TransactionNode w, n) \<in> rg_edges g}"
  have 1: "released (rg_edges g - touching n) ?S (g\<lparr>rg_resources := removeAll r (rg_resources g)\<rparr>) h"
    unfolding h_def n by (rule rg_freeResource_spec [OF Cons.prems(1)]) (use Cons.prems(2) in blast)
  note f = released_fields [OF 1]
  let ?R = "filter (\<lambda>r. ResourceNode r \<notin> set ns) (rg_resources h)"
  have "\<forall>m r. (m, ResourceNode r) \<in> rg_edges h \<longrightarrow> (\<exists>w. m = TransactionNode w)" using Cons.prems(2) f(1) by blast
  from Cons.IH [OF f(2) this] Cons.prems(3)
  have 2: "released (rg_edges h - \<Union> (touching ` set ns)) {w. \<exists>n \<in> set ns. (TransactionNode w, n) \<in> rg_edges h} (h\<lparr>rg_resources := ?R\<rparr>)
    (fold (rg_freeResource t) ns h)" by simp
  have R: "?R = filter (\<lambda>r. ResourceNode r \<notin> set (n # ns)) (rg_resources g)"
    by (auto simp: f(6) n removeAll_filter_not_eq intro: filter_cong)
  have E: "rg_edges h - \<Union> (touching ` set ns) = rg_edges g - \<Union> (touching ` set (n # ns))" by (auto simp: f(1))
  have S: "?S \<union> {w. \<exists>n \<in> set ns. (TransactionNode w, n) \<in> rg_edges h} = {w. \<exists>n \<in> set (n # ns). (TransactionNode w, n) \<in> rg_edges g}"
    by (auto simp: f(1) touching_def n)
  from released_resources [OF 1, of ?R] have "released (rg_edges g - touching n) ?S (g\<lparr>rg_resources := ?R\<rparr>) (h\<lparr>rg_resources := ?R\<rparr>)" by simp
  from released_trans [OF this 2] show ?case unfolding E S R by (simp add: h_def)
qed

text \<open>The LBIDs of a transaction, and what is left of the graph without them and the transaction's own edges.\<close>

definition rg_owned :: "LBIDResourceGraph \<Rightarrow> VER_t \<Rightarrow> LBID_t set" where
  "rg_owned g t = {r. (ResourceNode r, TransactionNode t) \<in> rg_edges g}"

definition rg_waiters :: "LBIDResourceGraph \<Rightarrow> VER_t \<Rightarrow> VER_t set" where
  "rg_waiters g t = {w. \<exists>r \<in> rg_owned g t. (TransactionNode w, ResourceNode r) \<in> rg_edges g}"

definition rg_without :: "LBIDResourceGraph \<Rightarrow> VER_t \<Rightarrow> (RGNode \<times> RGNode) set" where
  "rg_without g t = rg_edges g - touching (TransactionNode t) - \<Union> (touching ` ResourceNode ` rg_owned g t)"

lemma graph_ok_without:
  assumes ok: "graph_ok (rg_edges g) R T"
  shows "graph_ok (rg_without g t) (R - rg_owned g t) (T - {t})"
proof -
  note e = graph_ok_edge [OF ok]
  have p1: "\<exists>t r. t \<in> T \<and> r \<in> R \<and> (a = TransactionNode t \<and> b = ResourceNode r \<or> a = ResourceNode r \<and> b = TransactionNode t)"
    if "(a, b) \<in> rg_edges g" for a b using ok that unfolding graph_ok_def by blast
  have p2: "\<exists>t. (ResourceNode r, TransactionNode t) \<in> rg_edges g" if "r \<in> R" for r using ok that unfolding graph_ok_def by blast
  have p3: "t = t'" if "(ResourceNode r, TransactionNode t) \<in> rg_edges g" "(ResourceNode r, TransactionNode t') \<in> rg_edges g" for r t t'
    using ok that unfolding graph_ok_def by blast
  have p4: "(ResourceNode r, TransactionNode t) \<notin> rg_edges g" if "(TransactionNode t, ResourceNode r) \<in> rg_edges g" for r t
    using ok that unfolding graph_ok_def by blast
  have sub: "(a, b) \<in> rg_edges g \<and> a \<noteq> TransactionNode t \<and> b \<noteq> TransactionNode t \<and> (\<forall>r \<in> rg_owned g t. a \<noteq> ResourceNode r \<and> b \<noteq> ResourceNode r)"
    if "(a, b) \<in> rg_without g t" for a b using that by (auto simp: rg_without_def touching_def)
  show ?thesis
    unfolding graph_ok_def
  proof (intro conjI allI impI, goal_cases)
    case (1 a b)
    with sub [OF 1] p1 [of a b] show ?case by blast
  next
    case (2 r)
    with p2 obtain u where u: "(ResourceNode r, TransactionNode u) \<in> rg_edges g" by blast
    then have "u \<noteq> t" using 2 by (auto simp: rg_owned_def)
    with u 2 show ?case by (auto simp: rg_without_def touching_def)
  next
    case (3 r u u')
    with sub p3 show ?case by blast
  next
    case (4 u r)
    with sub p4 show ?case by blast
  qed
qed

lemma rg_setTxn_fields:
  "rg_out (rg_setTxn f t g) = rg_out g" "rg_in (rg_setTxn f t g) = rg_in g" "rg_colours (rg_setTxn f t g) = rg_colours g"
  "rg_color (rg_setTxn f t g) = rg_color g" "rg_resources (rg_setTxn f t g) = rg_resources g"
  "map fst (rg_txns (rg_setTxn f t g)) = map fst (rg_txns g)"
  "map_of (rg_txns (rg_setTxn f t g)) = (map_of (rg_txns g))(t := map_option f (map_of (rg_txns g) t))"
proof -
  have "map_of (map (\<lambda>(k, st). if k = t then (k, f st) else (k, st)) m) = (map_of m)(t := map_option f (map_of m t))" for m
    by (induction m) auto
  then show "map_of (rg_txns (rg_setTxn f t g)) = (map_of (rg_txns g))(t := map_option f (map_of (rg_txns g) t))"
    by (simp add: rg_setTxn_def)
  show "map fst (rg_txns (rg_setTxn f t g)) = map fst (rg_txns g)" by (induction "rg_txns g") (auto simp: rg_setTxn_def)
qed (simp_all add: rg_setTxn_def)

lemma rg_setTxn_simps:
  "linked (rg_setTxn f t g) = linked g" "om_ok (rg_txns (rg_setTxn f t g)) = om_ok (rg_txns g)"
  "fst ` set (rg_txns (rg_setTxn f t g)) = fst ` set (rg_txns g)" "rg_wf (rg_setTxn f t g) = rg_wf g"
proof -
  have "set (map fst (rg_txns (rg_setTxn f t g))) = set (map fst (rg_txns g))" by (simp only: rg_setTxn_fields(6))
  then show dom: "fst ` set (rg_txns (rg_setTxn f t g)) = fst ` set (rg_txns g)" by simp
  show 1: "linked (rg_setTxn f t g) = linked g" "om_ok (rg_txns (rg_setTxn f t g)) = om_ok (rg_txns g)"
    by (simp_all only: linked_def om_ok_def rg_setTxn_fields)
  show "rg_wf (rg_setTxn f t g) = rg_wf g" unfolding rg_wf_def 1 dom rg_setTxn_fields ..
qed

lemma rg_releaseResources_spec:
  assumes wf: "rg_wf g" and st: "map_of (rg_txns g) t = Some st"
  defines "h \<equiv> rg_releaseResources t g"
  shows "linked h" "rg_edges h = rg_without g t" "set (rg_resources h) = set (rg_resources g) - rg_owned g t"
    "rg_colours h = rg_colours g" "rg_color h = rg_color g"
    "map_of (rg_txns h) = (map_of (awaken (rg_waiters g t) (rg_txns g)))(t := (if t_sleeping st then Some \<lparr>t_die = True, t_sleeping = False\<rparr> else None))"
    "om_ok (rg_txns h)"
proof -
  have l: "linked g" and ok: "graph_ok (rg_edges g) (set (rg_resources g)) (fst ` set (rg_txns g))" and om: "om_ok (rg_txns g)"
    using wf by (simp_all add: rg_wf_def)
  note e = graph_ok_edge [OF ok]
  let ?ns = "rg_in g (TransactionNode t)"
  have ns: "set ?ns = ResourceNode ` rg_owned g t" using l e(3) [of _ t] unfolding linked_def rg_owned_def by blast
  define g1 where "g1 = fold (rg_freeResource t) ?ns g"
  have 1: "released (rg_edges g - \<Union> (touching ` set ?ns)) {w. \<exists>n \<in> set ?ns. (TransactionNode w, n) \<in> rg_edges g}
    (g\<lparr>rg_resources := filter (\<lambda>r. ResourceNode r \<notin> set ?ns) (rg_resources g)\<rparr>) g1"
    unfolding g1_def by (rule fold_freeResource_spec [OF l]) (use e(4) ns in blast)+
  have W: "{w. \<exists>n \<in> set ?ns. (TransactionNode w, n) \<in> rg_edges g} = rg_waiters g t" by (auto simp: ns rg_waiters_def)
  note f = released_fields [OF 1, unfolded W]
  define g2 where "g2 = fold (rg_removeEdge (TransactionNode t)) (rg_out g1 (TransactionNode t)) g1"
  have 2: "rewired (rg_edges g1 - set (map (Pair (TransactionNode t)) (rg_out g1 (TransactionNode t)))) g1 g2"
    unfolding g2_def fold_removeEdge_map(1) by (rule fold_removeEdge [OF f(2)])
  note f2 = rewired_fields [OF 2]
  have E: "rg_edges g2 = rg_without g t"
  proof -
    have "rg_edges g2 = rg_edges g1 - {(a, b). a = TransactionNode t}" unfolding f2(1) by (auto simp: edges_def)
    moreover have "\<exists>r \<in> rg_owned g t. a = ResourceNode r" if "(a, TransactionNode t) \<in> rg_edges g" for a
      using e(3) [OF that] that by (auto simp: rg_owned_def)
    ultimately show ?thesis by (fastforce simp: f(1) rg_without_def ns touching_def)
  qed
  have "t \<notin> rg_waiters g t" using ok unfolding rg_waiters_def rg_owned_def graph_ok_def by blast
  then have t2: "map_of (rg_txns g2) t = Some st" using st by (simp add: f2(5) f(5) map_of_awaken)
  have om2: "om_ok (rg_txns g2)" using om by (simp add: f2(5) f(5) om_ok_def)
  have h: "h = (if t_sleeping st then rg_wake (TransactionNode t) (rg_setTxn (\<lambda>st. st\<lparr>t_die := True\<rparr>) t g2)
                 else rg_deleteNode (TransactionNode t) (g2\<lparr>rg_txns := om_del t (rg_txns g2)\<rparr>))"
    using st t2 by (simp add: h_def rg_releaseResources_def g1_def [symmetric] g2_def [symmetric] Let_def)
  have no: "rg_without g t - touching (TransactionNode t) = rg_without g t" by (auto simp: rg_without_def)
  let ?d = "g2\<lparr>rg_txns := om_del t (rg_txns g2)\<rparr>"
  have "linked ?d" using f2(2) by (simp add: linked_def)
  note D = rewired_fields [OF rg_deleteNode_rewired [OF this, of "TransactionNode t"]]
  note w = rg_setTxn_fields rg_setTxn_simps
  show "linked h" "rg_edges h = rg_without g t" "rg_colours h = rg_colours g" "rg_color h = rg_color g"
    unfolding h using D f2 f E no by (simp_all add: w)
  show "om_ok (rg_txns h)" unfolding h using D(5) om2 by (auto simp: w)
  have "set (rg_resources g2) = set (rg_resources g) - rg_owned g t" by (auto simp: f2(6) f(6) ns)
  then show "set (rg_resources h) = set (rg_resources g) - rg_owned g t" unfolding h using D(6) by (simp add: w)
  show "map_of (rg_txns h) = (map_of (awaken (rg_waiters g t) (rg_txns g)))(t := (if t_sleeping st then Some \<lparr>t_die = True, t_sleeping = False\<rparr> else None))"
    unfolding h using D(5) t2 f2(5) f(5) by (cases st) (simp add: w)
qed

section \<open>Deadlocks\<close>

text \<open>The search finds a deadlock exactly when a cycle can be reached from the transaction.\<close>

lemma rg_checkDeadlock_spec:
  assumes wf: "rg_wf g" and t: "t \<in> fst ` set (rg_txns g)" and col: "unat (rg_color g) + 2 < 2 ^ 64"
  shows "\<exists>c. rg_checkDeadlock t g = (g\<lparr>rg_color := rg_color g + 2, rg_colours := c\<rparr>, Inr (cycle_from (rg_out g) (TransactionNode t)))
    \<and> (\<forall>n. c n \<le> rg_color g + 2)"
proof -
  have ok: "graph_ok (rg_edges g) (set (rg_resources g)) (fst ` set (rg_txns g))" and c: "rg_colours g n \<le> rg_color g" for n
    using wf by (simp_all add: rg_wf_def)
  let ?N = "TransactionNode ` fst ` set (rg_txns g) \<union> ResourceNode ` set (rg_resources g)"
  have u: "unat (rg_color g + 1) = unat (rg_color g) + 1" "unat (rg_color g + 2) = unat (rg_color g) + 2"
    using col by (simp_all add: unat_plus_if')
  then have lt: "rg_color g < rg_color g + 1" "rg_color g + 1 < rg_color g + 2" by (simp_all add: word_less_nat_alt)
  have b: "rg_color g + 1 + 1 = rg_color g + 2" by simp
  have "card ?N \<le> length (rg_txns g) + length (rg_resources g)"
    by (intro order.trans [OF card_Un_le] add_mono order.trans [OF card_image_le] card_length) auto
  then have N: "card ?N < length (rg_txns g) + length (rg_resources g) + 1" by simp
  have closed: "\<forall>a \<in> ?N. set (rg_out g a) \<subseteq> ?N"
    using graph_ok_edge(1,2) [OF ok] by fastforce
  have "\<exists>c'. DFSStep (length (rg_txns g) + length (rg_resources g) + 1) (rg_out g) (rg_color g + 1) (rg_color g + 2) (TransactionNode t) (rg_colours g)
      = Some (c', cycle_from (rg_out g) (TransactionNode t)) \<and> (\<forall>a. c' a \<in> {rg_colours g a, rg_color g + 1, rg_color g + 2})"
  proof (rule DFSStep_decides [OF _ _ _ _ _ closed N])
    show "rg_color g + 1 \<noteq> rg_color g + 2" using lt(2) by auto
    show "rg_colours g a \<noteq> rg_color g + 1" "rg_colours g a \<noteq> rg_color g + 2" for a using c [of a] lt by auto
  qed (use t in auto)
  then obtain c' where c': "DFSStep (length (rg_txns g) + length (rg_resources g) + 1) (rg_out g) (rg_color g + 1) (rg_color g + 2) (TransactionNode t) (rg_colours g)
      = Some (c', cycle_from (rg_out g) (TransactionNode t))" "\<forall>a. c' a \<in> {rg_colours g a, rg_color g + 1, rg_color g + 2}" by blast
  have "c' n \<le> rg_color g + 2" for n
  proof -
    have "c' n = rg_colours g n \<or> c' n = rg_color g + 1 \<or> c' n = rg_color g + 2" using c'(2) by blast
    moreover have "rg_colours g n \<le> rg_color g + 2" using c [of n] lt by order
    moreover have "rg_color g + 1 \<le> rg_color g + 2" using lt by order
    ultimately show ?thesis by (elim disjE) simp_all
  qed
  with c'(1) show ?thesis by (intro exI [of _ c']) (simp add: rg_checkDeadlock_def Let_def b del: DFSStep.simps)
qed

lemma rg_wait_spec:
  assumes wf: "rg_wf g" and t: "t \<in> fst ` set (rg_txns g)" and col: "unat (rg_color g) + 2 < 2 ^ 64"
  obtains (got) "rg_wait t g = (g, Inr (Returns ERR_OK))" "\<forall>b. (TransactionNode t, b) \<notin> rg_edges g"
  | (deadlock) c where "rg_wait t g = (g\<lparr>rg_color := rg_color g + 2, rg_colours := c\<rparr>, Inr (Returns ERR_DEADLOCK))"
      "cycle_from (rg_out g) (TransactionNode t)" "rg_wf (g\<lparr>rg_color := rg_color g + 2, rg_colours := c\<rparr>)"
  | (sleep) c where "rg_wait t g = (rg_setTxn (\<lambda>st. st\<lparr>t_sleeping := True\<rparr>) t (g\<lparr>rg_color := rg_color g + 2, rg_colours := c\<rparr>), Inr Waits)"
      "\<not> cycle_from (rg_out g) (TransactionNode t)" "rg_wf (g\<lparr>rg_color := rg_color g + 2, rg_colours := c\<rparr>)"
proof (cases "rg_out g (TransactionNode t) = []")
  case True
  then show thesis by (intro got) (simp_all add: rg_wait_def)
next
  case False
  obtain c where c: "rg_checkDeadlock t g = (g\<lparr>rg_color := rg_color g + 2, rg_colours := c\<rparr>, Inr (cycle_from (rg_out g) (TransactionNode t)))"
    "\<forall>n. c n \<le> rg_color g + 2" using rg_checkDeadlock_spec [OF assms] by blast
  have wf': "rg_wf (g\<lparr>rg_color := rg_color g + 2, rg_colours := c\<rparr>)" using wf c(2) by (simp add: rg_wf_def linked_def)
  show thesis
  proof (cases "cycle_from (rg_out g) (TransactionNode t)")
    case True
    with False c wf' show thesis by (intro deadlock [of c]) (simp_all add: rg_wait_def)
  next
    case nc: False
    with False c wf' show thesis by (intro sleep [of c]) (simp_all add: rg_wait_def)
  qed
qed

section \<open>Histories\<close>

text \<open>
  The graph with the calls of \<^verbatim>\<open>reserveRange\<close> that have not returned. A transaction has at most one of them, a call goes
  on after \<^verbatim>\<open>wake\<close> only (no spurious return of the wait), and the 64 bit colours have not run out.
\<close>

inductive rg_reach :: "LBIDResourceGraph \<Rightarrow> (VER_t \<times> LBID_t \<times> LBID_t) list \<Rightarrow> bool" where
  rg_start: "rg_reach rg_init []"
| rg_reserve: "rg_reach g ws \<Longrightarrow> t \<notin> fst ` set ws \<Longrightarrow> unat (rg_color g) + 2 < 2 ^ 64 \<Longrightarrow>
    rg_reserveRange start end' t g = (g', Inr r) \<Longrightarrow> rg_reach g' (if r = Waits then (t, start, end') # ws else ws)"
| rg_resumes: "rg_reach g ws \<Longrightarrow> (t, start, end') \<in> set ws \<Longrightarrow> map_of (rg_txns g) t = Some st \<Longrightarrow> \<not> t_sleeping st \<Longrightarrow>
    unat (rg_color g) + 2 < 2 ^ 64 \<Longrightarrow> rg_resume start end' t g = (g', Inr r) \<Longrightarrow>
    rg_reach g' (if r = Waits then ws else removeAll (t, start, end') ws)"
| rg_release: "rg_reach g ws \<Longrightarrow> rg_reach (rg_releaseResources t g) ws"

definition rg_asleep :: "LBIDResourceGraph \<Rightarrow> RGNode set" where
  "rg_asleep g = range ResourceNode \<union> {TransactionNode t | t st. map_of (rg_txns g) t = Some st \<and> t_sleeping st}"

lemma rg_asleep_iff [simp]:
  "ResourceNode r \<in> rg_asleep g"
  "TransactionNode t \<in> rg_asleep g \<longleftrightarrow> (\<exists>st. map_of (rg_txns g) t = Some st \<and> t_sleeping st)"
  by (auto simp: rg_asleep_def)

text \<open>The edges between LBIDs and sleeping transactions.\<close>

definition sleep_edges :: "LBIDResourceGraph \<Rightarrow> (RGNode \<times> RGNode) set" where
  "sleep_edges g = rg_edges g \<inter> rg_asleep g \<times> rg_asleep g"

lemma trancl_restrict_insert:
  assumes "(x, y) \<in> (A \<inter> insert t X \<times> insert t X)\<^sup>+"
  shows "(x, y) \<in> (A \<inter> X \<times> X)\<^sup>+ \<or> (x, t) \<in> A\<^sup>* \<and> (t, y) \<in> A\<^sup>*"
  using assms
proof (induction rule: trancl_induct)
  case (base y)
  then show ?case by auto
next
  case (step y z)
  have yz: "(y, z) \<in> A" using step(2) by simp
  have "(x, y) \<in> A\<^sup>*" using trancl_mono [OF step(1), of A] by (auto dest: trancl_into_rtrancl)
  then have z: "(x, z) \<in> A\<^sup>*" using yz by (rule rtrancl_into_rtrancl)
  from step(3) show ?case
  proof (elim disjE)
    assume xy: "(x, y) \<in> (A \<inter> X \<times> X)\<^sup>+"
    show ?thesis
    proof (cases "z = t")
      case False
      moreover have "y \<in> X" using tranclD2 [OF xy] by auto
      ultimately have "(y, z) \<in> A \<inter> X \<times> X" using step(2) by auto
      with xy show ?thesis by (meson trancl_into_trancl)
    qed (use z in simp)
  qed (use yz in \<open>meson rtrancl_into_rtrancl\<close>)
qed

lemma acyclic_insert_node:
  assumes "acyclic (edges out \<inter> X \<times> X)" "\<not> cycle_from out t"
  shows "acyclic (edges out \<inter> insert t X \<times> insert t X)"
proof (rule acyclicI, rule allI, rule notI)
  fix x assume c: "(x, x) \<in> (edges out \<inter> insert t X \<times> insert t X)\<^sup>+"
  from trancl_restrict_insert [OF c] show False
  proof (elim disjE)
    assume "(x, x) \<in> (edges out \<inter> X \<times> X)\<^sup>+"
    with assms(1) show False by (simp add: acyclic_def)
  next
    assume "(x, t) \<in> (edges out)\<^sup>* \<and> (t, x) \<in> (edges out)\<^sup>*"
    moreover have "(x, x) \<in> (edges out)\<^sup>+" using trancl_mono [OF c, of "edges out"] by blast
    ultimately show False using assms(2) by (auto simp: cycle_from_def)
  qed
qed

text \<open>A call from the taking of the LBIDs to its next sleep or its return.\<close>

lemma rg_call:
  assumes wf: "rg_wf g" and t: "map_of (rg_txns g) t = Some st" "\<not> t_sleeping st" "\<not> t_die st"
    and col: "unat (rg_color g) + 2 < 2 ^ 64" and safe: "acyclic (sleep_edges g)"
  obtains r where "snd (rg_wait t (rg_connectResources start end' t g)) = Inr r"
    and "rg_wf (fst (rg_wait t (rg_connectResources start end' t g)))"
    and "acyclic (sleep_edges (fst (rg_wait t (rg_connectResources start end' t g))))"
    and "map_of (rg_txns (fst (rg_wait t (rg_connectResources start end' t g)))) = (map_of (rg_txns g))(t \<mapsto> st\<lparr>t_sleeping := (r = Waits)\<rparr>)"
    and "rg_edges (fst (rg_wait t (rg_connectResources start end' t g))) = rg_edges (rg_connectResources start end' t g)"
    and "case r of Waits \<Rightarrow> \<not> cycle_from (rg_out (rg_connectResources start end' t g)) (TransactionNode t)
      | Returns err \<Rightarrow> (err = ERR_OK \<and> (\<forall>b. (TransactionNode t, b) \<notin> rg_edges (rg_connectResources start end' t g))
                       \<or> err = ERR_DEADLOCK \<and> cycle_from (rg_out (rg_connectResources start end' t g)) (TransactionNode t))"
proof -
  let ?h = "rg_connectResources start end' t g"
  have T: "t \<in> fst ` set (rg_txns g)" using t(1) by (metis domI dom_map_of_conv_image_fst)
  note C = rg_connectResources_spec [OF wf T, of start end']
  have "rg_asleep ?h = rg_asleep g" by (simp add: rg_asleep_def C(2))
  moreover have "TransactionNode t \<notin> rg_asleep g" using t(1,2) by (auto simp: rg_asleep_def)
  ultimately have S: "sleep_edges ?h = sleep_edges g" unfolding sleep_edges_def C(5) by auto
  have T': "t \<in> fst ` set (rg_txns ?h)" and col': "unat (rg_color ?h) + 2 < 2 ^ 64" using T col C(2,3) by simp_all
  have st: "st\<lparr>t_sleeping := False\<rparr> = st" using t(2) by (cases st) simp
  from C(1) T' col' show thesis
  proof (cases rule: rg_wait_spec)
    case got
    with C(1,2) S safe t(1) st show thesis by (intro that [of "Returns ERR_OK"]) (simp_all add: fun_upd_idem)
  next
    case (deadlock c)
    let ?d = "?h\<lparr>rg_color := rg_color ?h + 2, rg_colours := c\<rparr>"
    have "sleep_edges ?d = sleep_edges g" using S by (simp add: sleep_edges_def rg_asleep_def)
    with deadlock C(2) safe t(1) st show thesis by (intro that [of "Returns ERR_DEADLOCK"]) (simp_all add: fun_upd_idem)
  next
    case (sleep c)
    let ?d = "rg_setTxn (\<lambda>st. st\<lparr>t_sleeping := True\<rparr>) t (?h\<lparr>rg_color := rg_color ?h + 2, rg_colours := c\<rparr>)"
    have m: "map_of (rg_txns ?d) = (map_of (rg_txns g))(t \<mapsto> st\<lparr>t_sleeping := True\<rparr>)" using t(1) C(2) by (simp add: rg_setTxn_fields)
    have "rg_asleep ?d = insert (TransactionNode t) (rg_asleep ?h)" unfolding rg_asleep_def m C(2) using t(1) by auto
    then have "acyclic (sleep_edges ?d)"
      using acyclic_insert_node [OF _ sleep(2)] S safe by (simp add: sleep_edges_def rg_setTxn_fields)
    with sleep m show thesis by (intro that [of Waits]) (simp_all add: rg_setTxn_fields rg_setTxn_simps)
  qed
qed

text \<open>Only open calls sleep or are killed, and a killed transaction has no edges.\<close>

definition rg_calls :: "LBIDResourceGraph \<Rightarrow> (VER_t \<times> LBID_t \<times> LBID_t) list \<Rightarrow> bool" where
  "rg_calls g ws \<longleftrightarrow> distinct (map fst ws) \<and> (\<forall>t st. map_of (rg_txns g) t = Some st \<longrightarrow>
     (t_sleeping st \<or> t_die st \<longrightarrow> t \<in> fst ` set ws) \<and> (t_die st \<longrightarrow> rg_edges g \<inter> touching (TransactionNode t) = {}))"

definition rg_inv :: "LBIDResourceGraph \<Rightarrow> (VER_t \<times> LBID_t \<times> LBID_t) list \<Rightarrow> bool" where
  "rg_inv g ws \<longleftrightarrow> rg_wf g \<and> acyclic (sleep_edges g) \<and> rg_calls g ws"

lemma rg_calls_step:
  assumes c: "rg_calls g ws" and t: "map_of (rg_txns g') = (map_of (rg_txns g))(t \<mapsto> st)" "\<not> t_die st" "t_sleeping st \<longrightarrow> t \<in> fst ` set ws'"
    and ws: "distinct (map fst ws')" "fst ` set ws - {t} \<subseteq> fst ` set ws'"
    and E: "\<And>u. u \<noteq> t \<Longrightarrow> rg_edges g' \<inter> touching (TransactionNode u) \<subseteq> rg_edges g"
  shows "rg_calls g' ws'"
  unfolding rg_calls_def
proof (intro conjI allI impI)
  fix u st' assume u: "map_of (rg_txns g') u = Some st'"
  show "u \<in> fst ` set ws'" if "t_sleeping st' \<or> t_die st'"
  proof (cases "u = t")
    case True
    with u t that show ?thesis by auto
  next
    case False
    with u t(1) c that have "u \<in> fst ` set ws" by (auto simp: rg_calls_def)
    with False ws(2) show ?thesis by blast
  qed
  show "rg_edges g' \<inter> touching (TransactionNode u) = {}" if "t_die st'"
  proof (cases "u = t")
    case True
    with u t that show ?thesis by auto
  next
    case False
    with u t(1) c that have "rg_edges g \<inter> touching (TransactionNode u) = {}" by (auto simp: rg_calls_def)
    with E [OF False] show ?thesis by blast
  qed
qed (rule ws(1))

lemma connect_edges_other:
  assumes "rg_wf g" "t \<in> fst ` set (rg_txns g)" "u \<noteq> t"
  shows "rg_edges (rg_connectResources start end' t g) \<inter> touching (TransactionNode u) = rg_edges g \<inter> touching (TransactionNode u)"
  unfolding rg_connectResources_spec(5) [OF assms(1,2)] using assms(3) by (auto simp: touching_def)

text \<open>The transaction node of a call, created if it is missing.\<close>

definition rg_enter :: "VER_t \<Rightarrow> LBIDResourceGraph \<Rightarrow> LBIDResourceGraph" where
  "rg_enter t g = (case map_of (rg_txns g) t of
     None \<Rightarrow> (rg_newNode (TransactionNode t) g)\<lparr>rg_txns := om_put t \<lparr>t_die = False, t_sleeping = False\<rparr> (rg_txns g)\<rparr>
   | Some _ \<Rightarrow> g)"

lemma rg_reserveRange_enter: "rg_reserveRange start end' t g = rg_wait t (rg_connectResources start end' t (rg_enter t g))"
  by (simp add: rg_reserveRange_def rg_enter_def rg_newNode_def Let_def split: option.split)

lemma rg_enter_inv:
  assumes inv: "rg_inv g ws" and t: "t \<notin> fst ` set ws"
  obtains st where "rg_inv (rg_enter t g) ws" "map_of (rg_txns (rg_enter t g)) t = Some st" "\<not> t_sleeping st" "\<not> t_die st"
    "rg_color (rg_enter t g) = rg_color g" "rg_edges (rg_enter t g) = rg_edges g" "rg_resources (rg_enter t g) = rg_resources g"
proof (cases "map_of (rg_txns g) t")
  case (Some st)
  with inv t show thesis by (intro that [of st]) (auto simp: rg_enter_def rg_inv_def rg_calls_def)
next
  case None
  let ?st = "\<lparr>t_die = False, t_sleeping = False\<rparr>"
  have wf: "rg_wf g" and safe: "acyclic (sleep_edges g)" and calls: "rg_calls g ws" using inv by (simp_all add: rg_inv_def)
  then have l: "linked g" and om: "om_ok (rg_txns g)" and ok: "graph_ok (rg_edges g) (set (rg_resources g)) (fst ` set (rg_txns g))"
    by (simp_all add: rg_wf_def)
  have T: "t \<notin> fst ` set (rg_txns g)" using None by (simp add: map_of_eq_None_iff)
  have "b \<notin> set (rg_out g (TransactionNode t))" for b using graph_ok_edge(1) [OF ok, of t b] T by auto
  then have o: "rg_out g (TransactionNode t) = []" by (cases "rg_out g (TransactionNode t)") auto
  have "b \<notin> set (rg_in g (TransactionNode t))" for b using graph_ok_edge(3) [OF ok, of b t] T l by (auto simp: linked_def)
  then have i: "rg_in g (TransactionNode t) = []" by (cases "rg_in g (TransactionNode t)") auto
  have e: "rg_enter t g = g\<lparr>rg_colours := (rg_colours g)(TransactionNode t := 0), rg_txns := om_put t ?st (rg_txns g)\<rparr>"
    using None by (simp add: rg_enter_def rg_newNode_def fun_upd_idem o i)
  have m: "map_of (rg_txns (rg_enter t g)) = (map_of (rg_txns g))(t \<mapsto> ?st)" using om by (simp add: e)
  have "set (om_put t ?st (rg_txns g)) = insert (t, ?st) {x \<in> set (rg_txns g). fst x \<noteq> t}" by (rule set_put [OF om])
  then have "fst ` set (rg_txns g) \<subseteq> fst ` set (om_put t ?st (rg_txns g))" using T by force
  then have "rg_wf (rg_enter t g)"
    using wf om graph_ok_mono_txns [OF ok] by (auto simp: rg_wf_def e linked_def)
  moreover have "n \<in> rg_asleep (rg_enter t g) \<longleftrightarrow> n \<in> rg_asleep g" for n using None by (cases n) (simp_all add: m)
  then have "rg_asleep (rg_enter t g) = rg_asleep g" by blast
  then have "acyclic (sleep_edges (rg_enter t g))" using safe by (simp add: sleep_edges_def e)
  moreover have "rg_calls (rg_enter t g) ws"
    by (rule rg_calls_step [OF calls m]) (use calls in \<open>auto simp: rg_calls_def e\<close>)
  ultimately have "rg_inv (rg_enter t g) ws" by (simp add: rg_inv_def)
  with m show thesis by (intro that [of ?st]) (simp_all add: e)
qed

lemma rg_release_inv:
  assumes inv: "rg_inv g ws"
  shows "rg_inv (rg_releaseResources t g) ws"
proof (cases "map_of (rg_txns g) t")
  case None
  with inv show ?thesis by (simp add: rg_releaseResources_def)
next
  case (Some st)
  have wf: "rg_wf g" and safe: "acyclic (sleep_edges g)" and calls: "rg_calls g ws" using inv by (simp_all add: rg_inv_def)
  have ok: "graph_ok (rg_edges g) (set (rg_resources g)) (fst ` set (rg_txns g))" using wf by (simp add: rg_wf_def)
  let ?h = "rg_releaseResources t g"
  note R = rg_releaseResources_spec [OF wf Some]
  have st: "\<exists>s. map_of (rg_txns g) u = Some s \<and> (t_sleeping s' \<longrightarrow> t_sleeping s) \<and> t_die s' = t_die s"
    if "map_of (rg_txns ?h) u = Some s'" "u \<noteq> t" for u s' using that by (auto simp: R(6) map_of_awaken)
  have t: "t_die s' \<and> \<not> t_sleeping s' \<and> t_sleeping st" if "map_of (rg_txns ?h) t = Some s'" for s'
    using that by (auto simp: R(6) split: if_splits)
  have "fst ` set (rg_txns g) - {t} \<subseteq> fst ` set (rg_txns ?h)"
  proof
    fix u assume u: "u \<in> fst ` set (rg_txns g) - {t}"
    then obtain s where "map_of (rg_txns g) u = Some s" by (metis DiffD1 domD dom_map_of_conv_image_fst)
    with u have "map_of (rg_txns ?h) u \<noteq> None" by (simp add: R(6) map_of_awaken)
    then show "u \<in> fst ` set (rg_txns ?h)" by (simp add: map_of_eq_None_iff)
  qed
  then have "graph_ok (rg_edges ?h) (set (rg_resources ?h)) (fst ` set (rg_txns ?h))"
    unfolding R(2,3) by (rule graph_ok_mono_txns [OF graph_ok_without [OF ok]])
  then have "rg_wf ?h" using wf R by (simp add: rg_wf_def)
  moreover have "n \<in> rg_asleep g" if "n \<in> rg_asleep ?h" for n
    using that st t by (cases n) fastforce+
  then have "sleep_edges ?h \<subseteq> sleep_edges g" unfolding sleep_edges_def R(2) rg_without_def by blast
  then have "acyclic (sleep_edges ?h)" by (rule acyclic_subset [OF safe])
  moreover have "rg_calls ?h ws"
    unfolding rg_calls_def
  proof (intro conjI allI impI)
    fix u s' assume u: "map_of (rg_txns ?h) u = Some s'"
    show "u \<in> fst ` set ws" if "t_sleeping s' \<or> t_die s'"
    proof (cases "u = t")
      case True
      with t u calls Some show ?thesis by (auto simp: rg_calls_def)
    next
      case False
      with st [OF u] calls that show ?thesis by (auto simp: rg_calls_def)
    qed
    show "rg_edges ?h \<inter> touching (TransactionNode u) = {}" if "t_die s'"
    proof (cases "u = t")
      case True
      then show ?thesis unfolding R(2) rg_without_def by blast
    next
      case False
      with st [OF u] calls that have "rg_edges g \<inter> touching (TransactionNode u) = {}" by (auto simp: rg_calls_def)
      then show ?thesis unfolding R(2) rg_without_def by blast
    qed
  qed (use calls in \<open>simp add: rg_calls_def\<close>)
  ultimately show ?thesis by (simp add: rg_inv_def)
qed

lemma removeAll_calls:
  assumes "distinct (map fst ws)" "(t, x) \<in> set ws"
  shows "distinct (map fst (removeAll (t, x) ws))" "fst ` set ws - {t} \<subseteq> fst ` set (removeAll (t, x) ws)"
proof -
  show "distinct (map fst (removeAll (t, x) ws))" using assms(1) by (simp add: removeAll_filter_not_eq distinct_map_filter)
  show "fst ` set ws - {t} \<subseteq> fst ` set (removeAll (t, x) ws)" by force
qed

lemma rg_resume_dead:
  assumes inv: "rg_inv g ws" and t: "map_of (rg_txns g) t = Some st" "t_die st" "(t, x) \<in> set ws"
  defines "h \<equiv> rg_deleteNode (TransactionNode t) (g\<lparr>rg_txns := om_del t (rg_txns g)\<rparr>)"
  shows "rg_inv h (removeAll (t, x) ws)"
proof -
  have wf: "rg_wf g" and safe: "acyclic (sleep_edges g)" and calls: "rg_calls g ws" using inv by (simp_all add: rg_inv_def)
  let ?d = "g\<lparr>rg_txns := om_del t (rg_txns g)\<rparr>"
  have l: "linked ?d" using wf by (simp add: rg_wf_def linked_def)
  have e0: "rg_edges g \<inter> touching (TransactionNode t) = {}" using calls t(1,2) unfolding rg_calls_def by blast
  then have no: "rg_edges g - touching (TransactionNode t) = rg_edges g" by blast
  have D: "rg_edges h = rg_edges g" "linked h" "rg_colours h = rg_colours g" "rg_color h = rg_color g" "rg_txns h = om_del t (rg_txns g)"
    "rg_resources h = rg_resources g"
    using rewired_fields [OF rg_deleteNode_rewired [OF l, of "TransactionNode t"]] no by (simp_all add: h_def)
  have ok: "graph_ok (rg_edges g) (set (rg_resources g)) (fst ` set (rg_txns g))" using wf by (simp add: rg_wf_def)
  have o: "rg_owned g t = {}" using e0 unfolding rg_owned_def touching_def by blast
  have "rg_without g t = rg_edges g" unfolding rg_without_def o using no by simp
  with o graph_ok_without [OF ok, of t] have "graph_ok (rg_edges g) (set (rg_resources g)) (fst ` set (rg_txns g) - {t})" by simp
  moreover have "fst ` set (om_del t (rg_txns g)) = fst ` set (rg_txns g) - {t}" by (auto simp: set_del)
  ultimately have "rg_wf h" using wf D by (auto simp: rg_wf_def)
  moreover have "n \<in> rg_asleep g" if "n \<in> rg_asleep h" for n using that by (cases n) (auto simp: D(5) split: if_splits)
  then have "sleep_edges h \<subseteq> sleep_edges g" unfolding sleep_edges_def D(1) by blast
  then have "acyclic (sleep_edges h)" by (rule acyclic_subset [OF safe])
  moreover have "rg_calls h (removeAll (t, x) ws)"
    unfolding rg_calls_def
  proof (intro conjI allI impI)
    have d: "distinct (map fst ws)" using calls by (simp add: rg_calls_def)
    show "distinct (map fst (removeAll (t, x) ws))" by (rule removeAll_calls(1) [OF d t(3)])
    fix u s' assume "map_of (rg_txns h) u = Some s'"
    then have u: "map_of (rg_txns g) u = Some s'" "u \<noteq> t" by (simp_all add: D(5) split: if_splits)
    show "u \<in> fst ` set (removeAll (t, x) ws)" if "t_sleeping s' \<or> t_die s'"
      using calls u that removeAll_calls(2) [OF d t(3)] unfolding rg_calls_def by blast
    show "rg_edges h \<inter> touching (TransactionNode u) = {}" if "t_die s'"
      using calls u(1) that unfolding rg_calls_def D(1) by blast
  qed
  ultimately show ?thesis by (simp add: rg_inv_def)
qed

lemma rg_call_inv:
  assumes inv: "rg_inv g ws" and t: "map_of (rg_txns g) t = Some st" "\<not> t_sleeping st" "\<not> t_die st"
    and col: "unat (rg_color g) + 2 < 2 ^ 64" and run: "rg_wait t (rg_connectResources start end' t g) = (g', Inr r)"
    and ws: "distinct (map fst ws')" "fst ` set ws - {t} \<subseteq> fst ` set ws'" "r = Waits \<longrightarrow> t \<in> fst ` set ws'"
  shows "rg_inv g' ws'"
proof -
  have wf: "rg_wf g" and safe: "acyclic (sleep_edges g)" and calls: "rg_calls g ws" using inv by (simp_all add: rg_inv_def)
  have T: "t \<in> fst ` set (rg_txns g)" using t(1) by (metis domI dom_map_of_conv_image_fst)
  from wf t col safe show ?thesis
  proof (rule rg_call [where start = start and end' = end'])
    fix r' assume c: "snd (rg_wait t (rg_connectResources start end' t g)) = Inr r'"
      "rg_wf (fst (rg_wait t (rg_connectResources start end' t g)))"
      "acyclic (sleep_edges (fst (rg_wait t (rg_connectResources start end' t g))))"
      "map_of (rg_txns (fst (rg_wait t (rg_connectResources start end' t g)))) = (map_of (rg_txns g))(t \<mapsto> st\<lparr>t_sleeping := (r' = Waits)\<rparr>)"
      "rg_edges (fst (rg_wait t (rg_connectResources start end' t g))) = rg_edges (rg_connectResources start end' t g)"
    note d = c [unfolded run fst_conv snd_conv]
    have r': "r' = r" using d(1) by simp
    have "rg_calls g' ws'"
    proof (rule rg_calls_step [OF calls d(4)])
      fix u assume "u \<noteq> t"
      with connect_edges_other [OF wf T, of u start end'] d(5) show "rg_edges g' \<inter> touching (TransactionNode u) \<subseteq> rg_edges g" by blast
    qed (use t(3) ws r' in simp_all)
    with d(2,3) show ?thesis by (simp add: rg_inv_def)
  qed
qed

lemma rg_reach_inv: "rg_reach g ws \<Longrightarrow> rg_inv g ws"
proof (induction rule: rg_reach.induct)
  case rg_start
  then show ?case
    by (simp add: rg_inv_def rg_wf_def rg_calls_def rg_init_def linked_def graph_ok_def sleep_edges_def edges_def acyclic_def)
next
  case (rg_reserve g ws t start end' g' r)
  from rg_reserve.IH rg_reserve(2) show ?case
  proof (rule rg_enter_inv)
    fix st assume e: "rg_inv (rg_enter t g) ws" "map_of (rg_txns (rg_enter t g)) t = Some st" "\<not> t_sleeping st" "\<not> t_die st"
      "rg_color (rg_enter t g) = rg_color g"
    have col: "unat (rg_color (rg_enter t g)) + 2 < 2 ^ 64" using rg_reserve(3) e(5) by simp
    have d: "distinct (map fst ws)" using e(1) by (simp add: rg_inv_def rg_calls_def)
    show ?case
      by (rule rg_call_inv [OF e(1-4) col rg_reserve(4) [unfolded rg_reserveRange_enter]]) (use d rg_reserve(2) in auto)
  qed
next
  case (rg_resumes g ws t start end' st g' r)
  have d: "distinct (map fst ws)" using rg_resumes.IH by (simp add: rg_inv_def rg_calls_def)
  note ra = removeAll_calls [OF d rg_resumes(2)]
  show ?case
  proof (cases "t_die st")
    case True
    with rg_resumes(3,6) have "g' = rg_deleteNode (TransactionNode t) (g\<lparr>rg_txns := om_del t (rg_txns g)\<rparr>)" "r \<noteq> Waits"
      by (auto simp: rg_resume_def)
    with rg_resume_dead [OF rg_resumes.IH rg_resumes(3) True rg_resumes(2)] show ?thesis by simp
  next
    case False
    with rg_resumes(3,6) have run: "rg_wait t (rg_connectResources start end' t g) = (g', Inr r)" by (simp add: rg_resume_def)
    have "t \<in> fst ` set ws" using rg_resumes(2) by force
    then show ?thesis
      using d ra by (intro rg_call_inv [OF rg_resumes.IH rg_resumes(3,4) False rg_resumes(5) run]) auto
  qed
next
  case (rg_release g ws t)
  then show ?case by (simp add: rg_release_inv)
qed

section \<open>Contract\<close>

text \<open>An example: transaction 1 owns block 10, transaction 2 owns block 20 and waits for block 10.\<close>

definition rg_ex1 :: LBIDResourceGraph where
  "rg_ex1 = fst (rg_reserveRange 10 10 1 rg_init)"

definition rg_ex2 :: LBIDResourceGraph where
  "rg_ex2 = fst (rg_reserveRange 20 20 2 rg_ex1)"

definition rg_ex3 :: LBIDResourceGraph where
  "rg_ex3 = fst (rg_reserveRange 10 10 2 rg_ex2)"

lemma rg_ex_runs:
  "rg_reserveRange 10 10 1 rg_init = (rg_ex1, Inr (Returns ERR_OK))"
  "rg_reserveRange 20 20 2 rg_ex1 = (rg_ex2, Inr (Returns ERR_OK))"
  "rg_reserveRange 10 10 2 rg_ex2 = (rg_ex3, Inr Waits)"
proof -
  have "snd (rg_reserveRange 10 10 1 rg_init) = Inr (Returns ERR_OK)" by code_simp
  then show "rg_reserveRange 10 10 1 rg_init = (rg_ex1, Inr (Returns ERR_OK))" by (simp add: rg_ex1_def prod_eq_iff)
  have "snd (rg_reserveRange 20 20 2 rg_ex1) = Inr (Returns ERR_OK)" unfolding rg_ex1_def by code_simp
  then show "rg_reserveRange 20 20 2 rg_ex1 = (rg_ex2, Inr (Returns ERR_OK))" by (simp add: rg_ex2_def prod_eq_iff)
  have "snd (rg_reserveRange 10 10 2 rg_ex2) = Inr Waits" unfolding rg_ex2_def rg_ex1_def by code_simp
  then show "rg_reserveRange 10 10 2 rg_ex2 = (rg_ex3, Inr Waits)" by (simp add: rg_ex3_def prod_eq_iff)
qed

lemma rg_ex_colors: "rg_color rg_init = 0" "rg_color rg_ex1 = 0" "rg_color rg_ex2 = 0" "rg_color rg_ex3 = 2"
  unfolding rg_ex3_def rg_ex2_def rg_ex1_def by code_simp+

lemma rg_ex_reach: "rg_reach rg_ex1 []" "rg_reach rg_ex2 []" "rg_reach rg_ex3 [(2, 10, 10)]"
proof -
  show 1: "rg_reach rg_ex1 []" using rg_reserve [OF rg_start _ _ rg_ex_runs(1)] by (simp add: rg_ex_colors)
  show 2: "rg_reach rg_ex2 []" using rg_reserve [OF 1 _ _ rg_ex_runs(2)] by (simp add: rg_ex_colors)
  show "rg_reach rg_ex3 [(2, 10, 10)]" using rg_reserve [OF 2 _ _ rg_ex_runs(3)] by (simp add: rg_ex_colors)
qed

text \<open>
  C10. The search for deadlocks ends in every state of the graph, and its answer is right: it is yes exactly
  when a cycle can be reached from the transaction along the edges. It changes no edge.
\<close>

theorem rg_checkDeadlock_decides:
  assumes "rg_reach g ws" "t \<in> fst ` set (rg_txns g)" "unat (rg_color g) + 2 < 2 ^ 64"
  shows "\<exists>g' dead. rg_checkDeadlock t g = (g', Inr dead)
    \<and> (dead \<longleftrightarrow> (\<exists>n. (TransactionNode t, n) \<in> (edges (rg_out g))\<^sup>* \<and> (n, n) \<in> (edges (rg_out g))\<^sup>+))
    \<and> rg_out g' = rg_out g \<and> rg_in g' = rg_in g"
proof -
  have "rg_wf g" using rg_reach_inv [OF assms(1)] by (simp add: rg_inv_def)
  from rg_checkDeadlock_spec [OF this assms(2,3)] obtain c where
    "rg_checkDeadlock t g = (g\<lparr>rg_color := rg_color g + 2, rg_colours := c\<rparr>, Inr (cycle_from (rg_out g) (TransactionNode t)))" by blast
  then show ?thesis by (simp add: cycle_from_def)
qed

theorem rg_checkDeadlock_decides_witness:
  "\<exists>g' dead. rg_checkDeadlock 2 rg_ex3 = (g', Inr dead)
    \<and> (dead \<longleftrightarrow> (\<exists>n. (TransactionNode 2, n) \<in> (edges (rg_out rg_ex3))\<^sup>* \<and> (n, n) \<in> (edges (rg_out rg_ex3))\<^sup>+))"
proof -
  have "list_ex (\<lambda>(k, st). k = 2) (rg_txns rg_ex3)" unfolding rg_ex3_def rg_ex2_def rg_ex1_def by code_simp
  then have "2 \<in> fst ` set (rg_txns rg_ex3)" by (force simp: list_ex_iff)
  from rg_checkDeadlock_decides [OF rg_ex_reach(3) this] show ?thesis by (auto simp: rg_ex_colors)
qed

text \<open>
  C11. Sleeping transactions never wait for each other in a circle, in any history of the graph: every cycle
  of the edges goes through a transaction that is awake. And an LBID never has two owners.
\<close>

theorem rg_no_sleeping_deadlock:
  assumes "rg_reach g ws"
  shows "(n, n) \<notin> (sleep_edges g)\<^sup>+ \<and> (r \<in> rg_owned g t \<and> r \<in> rg_owned g u \<longrightarrow> t = u)"
proof -
  have inv: "rg_wf g" "acyclic (sleep_edges g)" using rg_reach_inv [OF assms] by (simp_all add: rg_inv_def)
  have "graph_ok (rg_edges g) (set (rg_resources g)) (fst ` set (rg_txns g))" using inv(1) by (simp add: rg_wf_def)
  then have "t = u" if "r \<in> rg_owned g t" "r \<in> rg_owned g u" using that unfolding graph_ok_def rg_owned_def by blast
  then show ?thesis using inv(2) by (simp add: acyclic_def)
qed

theorem rg_no_sleeping_deadlock_witness: "(TransactionNode 2, TransactionNode 2) \<notin> (sleep_edges rg_ex3)\<^sup>+"
  using rg_no_sleeping_deadlock [OF rg_ex_reach(3)] by blast

text \<open>
  C38. What a call of \<^verbatim>\<open>reserveRange\<close> does up to its first sleep or its end. It always comes to a result and takes exactly
  those LBIDs of the range that nobody owned. It returns \<open>ERR_OK\<close> only when the transaction owns every LBID of
  the range, it sleeps only when no cycle can be reached from the transaction, and else a cycle is there.
  In this last case the code departs from the comment above the function, which promises the result \<open>-1\<close>
  and that the node is destroyed and its LBIDs released: the result is \<open>ERR_DEADLOCK\<close> (6), the transaction keeps its node,
  the LBIDs it owned and the new ones, and the cycle stays in the graph.
\<close>

theorem rg_reserveRange_contract:
  assumes "rg_reach g ws" "t \<notin> fst ` set ws" "unat (rg_color g) + 2 < 2 ^ 64"
  shows "\<exists>g' r. rg_reserveRange start end' t g = (g', Inr r) \<and> (u \<noteq> t \<longrightarrow> rg_owned g' u = rg_owned g u)
    \<and> rg_owned g' t = rg_owned g t \<union> {i \<in> {start..end'}. \<forall>v. i \<notin> rg_owned g v} \<and> t \<in> fst ` set (rg_txns g')
    \<and> (case r of
         Returns err \<Rightarrow> err = ERR_OK \<and> {start..end'} \<subseteq> rg_owned g' t \<or> err = ERR_DEADLOCK \<and> cycle_from (rg_out g') (TransactionNode t)
       | Waits \<Rightarrow> \<not> cycle_from (rg_out g') (TransactionNode t))"
proof -
  from rg_reach_inv [OF assms(1)] assms(2) show ?thesis
  proof (rule rg_enter_inv)
    let ?g = "rg_enter t g"
    fix st assume e: "rg_inv ?g ws" "map_of (rg_txns ?g) t = Some st" "\<not> t_sleeping st" "\<not> t_die st"
      "rg_color ?g = rg_color g" "rg_edges ?g = rg_edges g" "rg_resources ?g = rg_resources g"
    have wf: "rg_wf ?g" and safe: "acyclic (sleep_edges ?g)" using e(1) by (simp_all add: rg_inv_def)
    have T: "t \<in> fst ` set (rg_txns ?g)" using e(2) by (metis domI dom_map_of_conv_image_fst)
    have col: "unat (rg_color ?g) + 2 < 2 ^ 64" using assms(3) e(5) by simp
    let ?h = "rg_connectResources start end' t ?g"
    note C = rg_connectResources_spec [OF wf T, of start end']
    have other: "u \<noteq> t \<longrightarrow> rg_owned ?h u = rg_owned g u" unfolding rg_owned_def C(5) e(6) by auto
    have ok: "graph_ok (rg_edges g) (set (rg_resources g)) (fst ` set (rg_txns g))"
      using rg_reach_inv [OF assms(1)] by (simp add: rg_inv_def rg_wf_def)
    have "i \<notin> set (rg_resources g) \<longleftrightarrow> (\<forall>v. i \<notin> rg_owned g v)" for i
      using graph_ok_edge(2) [OF ok, of i] ok unfolding rg_owned_def graph_ok_def by blast
    then have mine: "rg_owned ?h t = rg_owned g t \<union> {i \<in> {start..end'}. \<forall>v. i \<notin> rg_owned g v}"
      unfolding rg_owned_def C(5) e(6,7) by (auto simp: rg_owned_def)
    have own: "{start..end'} \<subseteq> rg_owned ?h t" if "\<forall>b. (TransactionNode t, b) \<notin> rg_edges ?h"
      using that unfolding rg_owned_def C(5) by blast
    from wf e(2-4) col safe show ?thesis
    proof (rule rg_call [where start = start and end' = end'])
      fix r assume c: "snd (rg_wait t ?h) = Inr r" "rg_edges (fst (rg_wait t ?h)) = rg_edges ?h"
        "map_of (rg_txns (fst (rg_wait t ?h))) = (map_of (rg_txns ?g))(t \<mapsto> st\<lparr>t_sleeping := (r = Waits)\<rparr>)"
        "case r of Waits \<Rightarrow> \<not> cycle_from (rg_out ?h) (TransactionNode t)
          | Returns err \<Rightarrow> (err = ERR_OK \<and> (\<forall>b. (TransactionNode t, b) \<notin> rg_edges ?h) \<or> err = ERR_DEADLOCK \<and> cycle_from (rg_out ?h) (TransactionNode t))"
      let ?g' = "fst (rg_wait t ?h)"
      have "rg_reserveRange start end' t g = (?g', Inr r)" using c(1) by (simp add: rg_reserveRange_enter prod_eq_iff)
      moreover have "rg_owned ?g' v = rg_owned ?h v" for v unfolding rg_owned_def c(2) ..
      moreover have "cycle_from (rg_out ?g') v = cycle_from (rg_out ?h) v" for v unfolding cycle_from_def c(2) ..
      moreover have "t \<in> fst ` set (rg_txns ?g')"
        using fun_cong [OF c(3), of t] by (metis domI dom_map_of_conv_image_fst fun_upd_same)
      ultimately show ?thesis using other own mine c(4) by (intro exI [of _ ?g'] exI [of _ r]) (auto split: waiting.splits)
    qed
  qed
qed

theorem rg_reserveRange_contract_witness:
  "{10..10} \<subseteq> rg_owned rg_ex1 1 \<and> \<not> cycle_from (rg_out rg_ex3) (TransactionNode 2) \<and> rg_owned rg_ex3 1 = rg_owned rg_ex2 1"
  using rg_reserveRange_contract [OF rg_start, of 1 10 10 2] rg_reserveRange_contract [OF rg_ex_reach(2), of 2 10 10 1]
  by (auto simp: rg_ex_runs rg_ex_colors ERR_OK_def ERR_DEADLOCK_def)

text \<open>
  C39. The release of a transaction that has a node leaves it without LBIDs and without waits and changes nothing for
  the other owners, whether or not somebody waits. Everyone who waited for one of its LBIDs is woken and no longer
  waits for it; nobody else is woken. The transaction itself loses its node, or, when its own call sleeps, is
  marked to die and woken, so that the call ends with \<open>ERR_KILLED\<close>.
\<close>

theorem rg_releaseResources_wakes:
  assumes "rg_reach g ws" "map_of (rg_txns g) t = Some st"
  shows "let h = rg_releaseResources t g in
    rg_owned h t = {} \<and> rg_edges h \<inter> touching (TransactionNode t) = {} \<and> (\<forall>u. u \<noteq> t \<longrightarrow> rg_owned h u = rg_owned g u)
    \<and> (\<forall>w r. r \<in> rg_owned g t \<longrightarrow> (TransactionNode w, ResourceNode r) \<notin> rg_edges h)
    \<and> (\<forall>w. w \<noteq> t \<longrightarrow> map_of (rg_txns h) w =
          map_option (\<lambda>s. if \<exists>r \<in> rg_owned g t. (TransactionNode w, ResourceNode r) \<in> rg_edges g then s\<lparr>t_sleeping := False\<rparr> else s) (map_of (rg_txns g) w))
    \<and> (if t_sleeping st then snd (rg_resume start end' t h) = Inr (Returns ERR_KILLED) else map_of (rg_txns h) t = None)"
proof -
  have wf: "rg_wf g" using rg_reach_inv [OF assms(1)] by (simp add: rg_inv_def)
  then have ok: "graph_ok (rg_edges g) (set (rg_resources g)) (fst ` set (rg_txns g))" by (simp add: rg_wf_def)
  note R = rg_releaseResources_spec [OF wf assms(2)]
  let ?h = "rg_releaseResources t g"
  have "rg_owned ?h t = {}" "rg_edges ?h \<inter> touching (TransactionNode t) = {}"
    unfolding rg_owned_def R(2) rg_without_def touching_def by blast+
  moreover have "(TransactionNode w, ResourceNode r) \<notin> rg_edges ?h" if "r \<in> rg_owned g t" for w r
    using that unfolding R(2) rg_without_def touching_def by blast
  moreover have "rg_owned ?h u = rg_owned g u" if "u \<noteq> t" for u
    using ok that unfolding rg_owned_def R(2) rg_without_def touching_def graph_ok_def by (auto simp: rg_owned_def)
  moreover have "map_of (rg_txns ?h) w =
      map_option (\<lambda>s. if \<exists>r \<in> rg_owned g t. (TransactionNode w, ResourceNode r) \<in> rg_edges g then s\<lparr>t_sleeping := False\<rparr> else s) (map_of (rg_txns g) w)"
    if "w \<noteq> t" for w using that by (simp add: R(6) map_of_awaken rg_waiters_def)
  moreover have "if t_sleeping st then snd (rg_resume start end' t ?h) = Inr (Returns ERR_KILLED) else map_of (rg_txns ?h) t = None"
    by (simp add: R(6) rg_resume_def)
  ultimately show ?thesis by (simp add: Let_def)
qed

lemma rg_ex3_nodes:
  "map_of (rg_txns rg_ex3) 1 = Some \<lparr>t_die = False, t_sleeping = False\<rparr>" "map_of (rg_txns rg_ex3) 2 = Some \<lparr>t_die = False, t_sleeping = True\<rparr>"
  "rg_out rg_ex3 (TransactionNode 2) = [ResourceNode 10]" "rg_out rg_ex3 (ResourceNode 10) = [TransactionNode 1]"
  unfolding rg_ex3_def rg_ex2_def rg_ex1_def by code_simp+

theorem rg_releaseResources_wakes_witness:
  "rg_owned (rg_releaseResources 1 rg_ex3) 1 = {} \<and> map_of (rg_txns (rg_releaseResources 1 rg_ex3)) 2 = Some \<lparr>t_die = False, t_sleeping = False\<rparr>"
proof -
  have "10 \<in> rg_owned rg_ex3 1" "(TransactionNode 2, ResourceNode 10) \<in> rg_edges rg_ex3" by (simp_all add: rg_owned_def rg_ex3_nodes)
  then have "\<exists>r \<in> rg_owned rg_ex3 1. (TransactionNode 2, ResourceNode r) \<in> rg_edges rg_ex3" by blast
  moreover have "map_of (rg_txns (rg_releaseResources 1 rg_ex3)) 2 = map_option (\<lambda>s.
      if \<exists>r \<in> rg_owned rg_ex3 1. (TransactionNode 2, ResourceNode r) \<in> rg_edges rg_ex3 then s\<lparr>t_sleeping := False\<rparr> else s) (map_of (rg_txns rg_ex3) 2)"
    "rg_owned (rg_releaseResources 1 rg_ex3) 1 = {}"
    using rg_releaseResources_wakes [OF rg_ex_reach(3) rg_ex3_nodes(1)] unfolding Let_def by simp_all
  ultimately show ?thesis by (simp add: rg_ex3_nodes)
qed

text \<open>
  C40. \<^verbatim>\<open>wake\<close> takes a transaction for awake before its call has gone on. In every history: when a transaction \<open>w\<close>
  sleeps for an LBID of \<open>t\<close>, a release of \<open>w\<close> ends its call with \<open>ERR_KILLED\<close>; but a release of \<open>t\<close> and then one of \<open>w\<close>, both
  before the call of \<open>w\<close> has gone on, delete the node that the call still uses.
\<close>

theorem rg_released_before_wakeup:
  assumes "rg_reach g ws" "map_of (rg_txns g) w = Some st" "t_sleeping st" "r \<in> rg_owned g t" "(TransactionNode w, ResourceNode r) \<in> rg_edges g"
  shows "snd (rg_resume start end' w (rg_releaseResources w g)) = Inr (Returns ERR_KILLED)
    \<and> snd (rg_resume start end' w (rg_releaseResources w (rg_releaseResources t g))) = Inl Undefined"
proof -
  have inv: "rg_inv g ws" by (rule rg_reach_inv [OF assms(1)])
  then have wf: "rg_wf g" by (simp add: rg_inv_def)
  then have ok: "graph_ok (rg_edges g) (set (rg_resources g)) (fst ` set (rg_txns g))" by (simp add: rg_wf_def)
  have "snd (rg_resume start end' w (rg_releaseResources w g)) = Inr (Returns ERR_KILLED)"
    using assms(3) rg_releaseResources_spec(6) [OF wf assms(2)] by (simp add: rg_resume_def)
  moreover have "w \<noteq> t" using ok assms(4,5) unfolding graph_ok_def rg_owned_def by blast
  moreover obtain st' where t: "map_of (rg_txns g) t = Some st'"
    using graph_ok_edge(2) [OF ok, of r "TransactionNode t"] assms(4) unfolding rg_owned_def
    by (metis (no_types, lifting) RGNode.inject(1) domD dom_map_of_conv_image_fst mem_Collect_eq)
  have "w \<in> rg_waiters g t" using assms(4,5) by (auto simp: rg_waiters_def)
  with \<open>w \<noteq> t\<close> assms(2) have awake: "map_of (rg_txns (rg_releaseResources t g)) w = Some (st\<lparr>t_sleeping := False\<rparr>)"
    by (simp add: rg_releaseResources_spec(6) [OF wf t] map_of_awaken)
  have "rg_wf (rg_releaseResources t g)" using rg_release_inv [OF inv, of t] by (simp add: rg_inv_def)
  from rg_releaseResources_spec(6) [OF this awake]
  have "map_of (rg_txns (rg_releaseResources w (rg_releaseResources t g))) w = None" by simp
  ultimately show ?thesis by (simp add: rg_resume_def)
qed

theorem rg_released_before_wakeup_witness:
  "snd (rg_resume 10 10 2 (rg_releaseResources 2 rg_ex3)) = Inr (Returns ERR_KILLED)
   \<and> snd (rg_resume 10 10 2 (rg_releaseResources 2 (rg_releaseResources 1 rg_ex3))) = Inl Undefined"
  by (rule rg_released_before_wakeup [OF rg_ex_reach(3) rg_ex3_nodes(2)]) (simp_all add: rg_owned_def rg_ex3_nodes)

end
