(* ===== verification/Auto_Increment.thy ===== *)
theory Auto_Increment
  imports Byte_Codec
begin

text \<open>
  \<^verbatim>\<open>versioning/BRM/autoincrementmanager.cpp\<close>: the sequences of the autoincrement columns by column OID, each with the
  next number, the bound the numbers stay below, and a mutex that callers hold over several requests. The
  member functions run under the mutex of the manager. A shift by 64 bits or more has no meaning in C++.
\<close>

unbundle bit_operations_syntax

section \<open>State and operations\<close>

record AI_sequence =
  seq_value :: "64 word"
  seq_overflow :: "64 word"
  seq_locked :: bool

type_synonym AutoincrementManager = "(64 word \<times> AI_sequence) list"

text \<open>The bound of \<^verbatim>\<open>startSequence\<close>; \<^verbatim>\<open>colWidth\<close> and the shift are 32 bits wide.\<close>

definition ai_bound :: "nat \<Rightarrow> bool \<Rightarrow> 64 word option" where
  "ai_bound colWidth isUnsigned =
     (let bits = (if isUnsigned then nat ((64 - int colWidth * 8) mod 2 ^ 32) else nat ((int colWidth * 8 - 1) mod 2 ^ 32))
      in if 64 \<le> bits then None
         else Some (if isUnsigned then drop_bit bits (- 1) - 1 else push_bit bits 1))"

definition ai_startSequence :: "32 word \<Rightarrow> 64 word \<Rightarrow> nat \<Rightarrow> bool \<Rightarrow> AutoincrementManager \<Rightarrow> (AutoincrementManager, unit) outcome" where
  "ai_startSequence oid firstNum colWidth isUnsigned s =
     (case map_of s (ucast oid) of
        Some _ \<Rightarrow> (s, Inr ())
      | None \<Rightarrow>
          (case ai_bound colWidth isUnsigned of
             None \<Rightarrow> (s, Inl Undefined)
           | Some b \<Rightarrow> (om_put (ucast oid) \<lparr>seq_value = firstNum, seq_overflow = b, seq_locked = False\<rparr> s, Inr ())))"

text \<open>\<^verbatim>\<open>getAIRange\<close>: the first number of the range, \<open>None\<close> where the code returns false.\<close>

definition ai_getAIRange :: "32 word \<Rightarrow> 64 word \<Rightarrow> AutoincrementManager \<Rightarrow> (AutoincrementManager, 64 word option) outcome" where
  "ai_getAIRange oid cnt s =
     (case map_of s (ucast oid) of
        None \<Rightarrow> (s, Inl RuntimeError)
      | Some q \<Rightarrow>
          if (seq_overflow q \<le> cnt \<or> seq_overflow q < cnt + seq_value q \<or> cnt + seq_value q \<le> seq_value q) \<and> cnt \<noteq> 0
          then (s, Inr None)
          else (om_put (ucast oid) (q\<lparr>seq_value := seq_value q + cnt\<rparr>) s, Inr (Some (seq_value q))))"

definition ai_resetSequence :: "32 word \<Rightarrow> 64 word \<Rightarrow> AutoincrementManager \<Rightarrow> AutoincrementManager" where
  "ai_resetSequence oid value s =
     (case map_of s (ucast oid) of
        None \<Rightarrow> s
      | Some q \<Rightarrow> om_put (ucast oid) (q\<lparr>seq_value := value\<rparr>) s)"

text \<open>
  \<^verbatim>\<open>getLock\<close>: one pass of its loop, with \<open>late\<close> when the 30 seconds are over. A call that is late goes on
  without the mutex.
\<close>

definition ai_getLock :: "bool \<Rightarrow> 32 word \<Rightarrow> AutoincrementManager \<Rightarrow> (AutoincrementManager, unit waiting) outcome" where
  "ai_getLock late oid s =
     (case map_of s (ucast oid) of
        None \<Rightarrow> (s, Inl RuntimeError)
      | Some q \<Rightarrow>
          if late then (s, Inr (Returns ()))
          else if seq_locked q then (s, Inr Waits)
          else (om_put (ucast oid) (q\<lparr>seq_locked := True\<rparr>) s, Inr (Returns ())))"

text \<open>\<^verbatim>\<open>releaseLock\<close>; a \<^verbatim>\<open>boost::mutex\<close> that is not locked must not be unlocked, one that is locked not destroyed.\<close>

definition ai_releaseLock :: "32 word \<Rightarrow> AutoincrementManager \<Rightarrow> (AutoincrementManager, unit) outcome" where
  "ai_releaseLock oid s =
     (case map_of s (ucast oid) of
        None \<Rightarrow> (s, Inr ())
      | Some q \<Rightarrow>
          if \<not> seq_locked q then (s, Inl Undefined)
          else (om_put (ucast oid) (q\<lparr>seq_locked := False\<rparr>) s, Inr ()))"

definition ai_deleteSequence :: "32 word \<Rightarrow> AutoincrementManager \<Rightarrow> (AutoincrementManager, unit) outcome" where
  "ai_deleteSequence oid s =
     (case map_of s (ucast oid) of
        None \<Rightarrow> (s, Inr ())
      | Some q \<Rightarrow> if seq_locked q then (s, Inl Undefined) else (om_del (ucast oid) s, Inr ()))"

section \<open>Ranges\<close>

text \<open>The calls of \<^verbatim>\<open>getAIRange\<close> for one column, with the ranges (first number, count) that were granted.\<close>

fun ai_run :: "32 word \<Rightarrow> 64 word list \<Rightarrow> AutoincrementManager \<Rightarrow> AutoincrementManager \<times> (64 word \<times> 64 word) list" where
  "ai_run oid [] s = (s, [])"
| "ai_run oid (c # cs) s =
     (case ai_getAIRange oid c s of
        (s, Inr (Some v)) \<Rightarrow> let (s, rs) = ai_run oid cs s in (s, (v, c) # rs)
      | (s, _) \<Rightarrow> ai_run oid cs s)"

definition numbers :: "64 word \<times> 64 word \<Rightarrow> nat set" where
  "numbers r = {unat (fst r)..<unat (fst r) + unat (snd r)}"

lemma ai_getAIRange_cases:
  assumes ok: "om_ok s" and q: "map_of s (ucast oid) = Some q"
  obtains (no) "ai_getAIRange oid c s = (s, Inr None)"
  | (yes) "ai_getAIRange oid c s = (om_put (ucast oid) (q\<lparr>seq_value := seq_value q + c\<rparr>) s, Inr (Some (seq_value q)))"
      "unat (seq_value q + c) = unat (seq_value q) + unat c" "c = 0 \<or> unat (seq_value q) + unat c \<le> unat (seq_overflow q)"
proof (cases "(seq_overflow q \<le> c \<or> seq_overflow q < c + seq_value q \<or> c + seq_value q \<le> seq_value q) \<and> c \<noteq> 0")
  case True
  with q show thesis by (intro no) (simp add: ai_getAIRange_def)
next
  case False
  have u: "unat (seq_value q + c) = unat (seq_value q) + unat c"
  proof (cases "c = 0")
    case nz: False
    with False have "\<not> c + seq_value q \<le> seq_value q" by blast
    then have "seq_value q < seq_value q + c" by (simp add: add.commute not_le)
    then show ?thesis using unsigned_less [of c, where ?'a = nat] by (simp add: word_less_nat_alt unat_plus_if' split: if_splits)
  qed simp
  moreover have "c = 0 \<or> unat (seq_value q) + unat c \<le> unat (seq_overflow q)"
    using False u by (auto simp: word_le_nat_alt word_less_nat_alt add.commute)
  ultimately show thesis using False q by (intro yes) (simp_all add: ai_getAIRange_def)
qed

lemma ai_run_ranges:
  assumes "om_ok s" "map_of s (ucast oid) = Some q"
  shows "\<exists>q'. map_of (fst (ai_run oid cs s)) (ucast oid) = Some q' \<and> seq_overflow q' = seq_overflow q \<and> unat (seq_value q) \<le> unat (seq_value q')
    \<and> (\<forall>r \<in> set (snd (ai_run oid cs s)). numbers r \<subseteq> {unat (seq_value q)..<unat (seq_value q')} \<and> (\<forall>n \<in> numbers r. n < unat (seq_overflow q)))
    \<and> sorted_wrt (\<lambda>r r'. \<forall>n \<in> numbers r. \<forall>n' \<in> numbers r'. n < n') (snd (ai_run oid cs s))"
  using assms
proof (induction cs arbitrary: s q)
  case Nil
  then show ?case by simp
next
  case (Cons c cs)
  from Cons.prems show ?case
  proof (cases rule: ai_getAIRange_cases [where c = c])
    case no
    with Cons.IH [OF Cons.prems] show ?thesis by simp
  next
    case yes
    let ?q = "q\<lparr>seq_value := seq_value q + c\<rparr>" and ?s = "om_put (ucast oid) (q\<lparr>seq_value := seq_value q + c\<rparr>) s"
    have ok: "om_ok ?s" "map_of ?s (ucast oid) = Some ?q" using Cons.prems by auto
    obtain q' where q': "map_of (fst (ai_run oid cs ?s)) (ucast oid) = Some q'" "seq_overflow q' = seq_overflow ?q"
        "unat (seq_value ?q) \<le> unat (seq_value q')"
        "\<forall>r \<in> set (snd (ai_run oid cs ?s)). numbers r \<subseteq> {unat (seq_value ?q)..<unat (seq_value q')} \<and> (\<forall>n \<in> numbers r. n < unat (seq_overflow ?q))"
        "sorted_wrt (\<lambda>r r'. \<forall>n \<in> numbers r. \<forall>n' \<in> numbers r'. n < n') (snd (ai_run oid cs ?s))"
      using Cons.IH [OF ok] by blast
    have run: "ai_run oid (c # cs) s = (fst (ai_run oid cs ?s), (seq_value q, c) # snd (ai_run oid cs ?s))"
      by (simp add: yes(1) split_beta)
    have v: "unat (seq_value ?q) = unat (seq_value q) + unat c" using yes(2) by simp
    have n: "numbers (seq_value q, c) = {unat (seq_value q)..<unat (seq_value ?q)}" unfolding v numbers_def by simp
    have lt: "\<forall>n \<in> numbers (seq_value q, c). n < unat (seq_overflow q)" using yes(3) by (auto simp: numbers_def)
    have le: "unat (seq_value q) \<le> unat (seq_value ?q)" using v by simp
    have sub: "numbers r \<subseteq> {unat (seq_value q)..<unat (seq_value q')}" if "r \<in> set (snd (ai_run oid (c # cs) s))" for r
      using that q'(3,4) n le unfolding run by fastforce
    have less: "n < n'" if "n \<in> numbers (seq_value q, c)" "r \<in> set (snd (ai_run oid cs ?s))" "n' \<in> numbers r" for n n' r
      using that q'(4) unfolding n by fastforce
    show ?thesis
    proof (intro exI [of _ q'] conjI ballI)
      show "sorted_wrt (\<lambda>r r'. \<forall>n \<in> numbers r. \<forall>n' \<in> numbers r'. n < n') (snd (ai_run oid (c # cs) s))"
        unfolding run using less q'(5) by auto
      show "n < unat (seq_overflow q)" if "r \<in> set (snd (ai_run oid (c # cs) s))" "n \<in> numbers r" for r n
        using that lt q'(4) unfolding run by auto
    qed (use q' le sub run in auto)
  qed
qed

text \<open>The bounds for the widths of the integer types: the two largest unsigned patterns mean null and empty.\<close>

lemma ai_bound_values:
  assumes "w \<in> {1, 2, 4, 8}"
  shows "\<exists>b. ai_bound w isUnsigned = Some b \<and> unat b = (if isUnsigned then 2 ^ (8 * w) - 2 else 2 ^ (8 * w - 1))"
  using assms by (cases isUnsigned) (auto simp: ai_bound_def Let_def mask_eq_exp_minus_1 drop_bit_eq_div)

text \<open>
  C16. The numbers that \<^verbatim>\<open>getAIRange\<close> hands out for a column are all different, grow from call to call, start with the
  first number of the sequence and fit the column, whatever is asked for: below \<open>2 ^ n - 2\<close> for an unsigned
  type of \<open>n\<close> bits, whose two largest patterns are reserved, and below \<open>2 ^ (n - 1)\<close> for a signed one.
\<close>

theorem ai_ranges_fit_column:
  assumes "om_ok s" "map_of s (ucast oid) = None" "w \<in> {1, 2, 4, 8}"
  shows "\<exists>t. ai_startSequence oid first w isUnsigned s = (t, Inr ())
    \<and> sorted_wrt (\<lambda>r r'. \<forall>n \<in> numbers r. \<forall>n' \<in> numbers r'. n < n') (snd (ai_run oid cs t))
    \<and> (\<forall>r \<in> set (snd (ai_run oid cs t)). \<forall>n \<in> numbers r.
         unat first \<le> n \<and> n < (if isUnsigned then 2 ^ (8 * w) - 2 else 2 ^ (8 * w - 1)))"
proof -
  obtain b where b: "ai_bound w isUnsigned = Some b" "unat b = (if isUnsigned then 2 ^ (8 * w) - 2 else 2 ^ (8 * w - 1))"
    using ai_bound_values [OF assms(3)] by blast
  let ?q = "\<lparr>seq_value = first, seq_overflow = b, seq_locked = False\<rparr>"
  let ?t = "om_put (ucast oid) ?q s"
  have "ai_startSequence oid first w isUnsigned s = (?t, Inr ())" using assms(2) b(1) by (simp add: ai_startSequence_def)
  moreover have "om_ok ?t" "map_of ?t (ucast oid) = Some ?q" using assms(1) by auto
  note R = ai_run_ranges [OF this, of cs]
  have "unat first \<le> n \<and> n < unat b" if "r \<in> set (snd (ai_run oid cs ?t))" "n \<in> numbers r" for r n
    using R that by fastforce
  moreover have "sorted_wrt (\<lambda>r r'. \<forall>n \<in> numbers r. \<forall>n' \<in> numbers r'. n < n') (snd (ai_run oid cs ?t))" using R by blast
  ultimately show ?thesis unfolding b(2) by blast
qed

theorem ai_ranges_fit_column_witness:
  "\<exists>t. ai_startSequence 3001 250 1 True [] = (t, Inr ())
    \<and> sorted_wrt (\<lambda>r r'. \<forall>n \<in> numbers r. \<forall>n' \<in> numbers r'. n < n') (snd (ai_run 3001 [2, 2 ^ 64 - 1, 5, 2] t))"
  using ai_ranges_fit_column [of "[]" 3001 1 250 True "[2, 2 ^ 64 - 1, 5, 2]"] by auto

text \<open>The ranges of that example: the second and third call are refused.\<close>

lemma ai_run_example:
  "snd (ai_run 3001 [2, - 1, 5, 2] (fst (ai_startSequence 3001 250 1 True []))) = [(250, 2), (252, 2)]"
  by code_simp

text \<open>
  A caller that has waited too long takes possession without the mutex; when both callers then release it,
  the second one unlocks a mutex that is not locked.
\<close>

lemma ai_stolen_lock:
  "let s0 = fst (ai_startSequence 3001 1 4 False []);
       s1 = fst (ai_getLock False 3001 s0)
   in snd (ai_getLock False 3001 s1) = Inr Waits \<and> snd (ai_getLock True 3001 s1) = Inr (Returns ())
      \<and> (let s2 = fst (ai_releaseLock 3001 (fst (ai_getLock True 3001 s1)))
         in snd (ai_releaseLock 3001 s2) = Inl Undefined)"
  by code_simp

end
