(* ===== verification/Spec2Isabelle.thy ===== *)
theory Spec2Isabelle
  imports Worker_Reach VB_Persist Table_Locks Resource_Graph Auto_Increment
begin

text \<open>
  Verification of the block resolution manager of MariaDB ColumnStore.
\<close>

end
